(* ===== verification/Prelude.thy ===== *)
theory Prelude
  imports
    "HOL-Library.Word"
    "HOL-Library.AList"
    "HOL-Library.Multiset"
    "HOL-Library.Sublist"
    "HOL-Library.Char_ord"
    "HOL-Library.List_Lexorder"
begin

text \<open>
  The prelude of the SyncSwarm development: what the Go sources take from the language and its
  standard library, and the lemmas every component shares.

  \<^item> Bytes are 8-bit words and byte slices are lists. A nil slice and an empty slice are the same
    list; the one place of the sources that tells them apart (the chunk table of
    \<^verbatim>\<open>link.Reassembler\<close>) uses an option type of its own.
  \<^item> A Go string is a sequence of bytes; HOL's \<^typ>\<open>char\<close> has exactly the 256 byte values, so a Go
    string is a HOL \<^typ>\<open>string\<close> and \<open>str_bytes\<close>/\<open>bytes_str\<close> are the two conversions.
  \<^item> \<^verbatim>\<open>encoding/binary\<close> (big endian), \<^verbatim>\<open>encoding/hex\<close>.
  \<^item> A Go map is an association list with distinct keys, so \<open>len\<close> is the length of the list.
    Where a loop ranges over a map and its outcome depends on the order, the order is an
    argument of the definition, because the runtime chooses it.
  \<^item> \<^verbatim>\<open>sort.SliceStable\<close> and \<^verbatim>\<open>sort.Slice\<close> as an insertion sort over a comparison function.
\<close>

unbundle bit_operations_syntax

type_synonym byte = "8 word"
type_synonym bytes = "byte list"
type_synonym u16 = "16 word"
type_synonym u32 = "32 word"
type_synonym u64 = "64 word"

named_theorems wire_inj \<open>injectivity of the fields of an encoding under a common tail\<close>
named_theorems wire_len \<open>lengths of the fields of an encoding\<close>

section \<open>Strings and bytes\<close>

definition char_byte :: "char \<Rightarrow> byte" where
  "char_byte c = word_of_nat (of_char c)"

definition byte_char :: "byte \<Rightarrow> char" where
  "byte_char b = char_of (unat b)"

definition str_bytes :: "string \<Rightarrow> bytes" where
  "str_bytes s = map char_byte s"

definition bytes_str :: "bytes \<Rightarrow> string" where
  "bytes_str b = map byte_char b"

lemma unat_byte_less: "unat (b :: byte) < 256"
  using unsigned_less [of b, where ?'a = nat] by simp

lemma byte_char_char_byte [simp]: "byte_char (char_byte c) = c"
proof -
  have "unat (char_byte c) = of_char c mod 2 ^ 8"
    by (simp add: char_byte_def unat_of_nat)
  then show ?thesis by (simp add: byte_char_def)
qed

lemma char_byte_byte_char [simp]: "char_byte (byte_char b) = b"
proof -
  show ?thesis
    using unat_byte_less [of b] by (simp add: char_byte_def byte_char_def of_char_of)
qed

lemma bytes_str_str_bytes [simp]: "bytes_str (str_bytes s) = s"
  by (simp add: bytes_str_def str_bytes_def o_def)

lemma str_bytes_bytes_str [simp]: "str_bytes (bytes_str b) = b"
  by (simp add: bytes_str_def str_bytes_def o_def)

lemma length_str_bytes [simp, wire_len]: "length (str_bytes s) = length s"
  by (simp add: str_bytes_def)

lemma length_bytes_str [simp]: "length (bytes_str s) = length s"
  by (simp add: bytes_str_def)

lemma str_bytes_inject [simp]: "str_bytes s = str_bytes t \<longleftrightarrow> s = t"
  by (metis bytes_str_str_bytes)

lemma str_bytes_Nil [simp]: "str_bytes [] = []"
  by (simp add: str_bytes_def)

section \<open>Big-endian integers (encoding/binary)\<close>

definition put_u16 :: "u16 \<Rightarrow> bytes" where
  "put_u16 v = [ucast (drop_bit 8 v), ucast v]"

definition get_u16 :: "bytes \<Rightarrow> u16" where
  "get_u16 b = push_bit 8 (ucast (b ! 0)) OR ucast (b ! 1)"

definition put_u32 :: "u32 \<Rightarrow> bytes" where
  "put_u32 v = [ucast (drop_bit 24 v), ucast (drop_bit 16 v), ucast (drop_bit 8 v), ucast v]"

definition get_u32 :: "bytes \<Rightarrow> u32" where
  "get_u32 b = push_bit 24 (ucast (b ! 0)) OR push_bit 16 (ucast (b ! 1))
     OR push_bit 8 (ucast (b ! 2)) OR ucast (b ! 3)"

definition put_u64 :: "u64 \<Rightarrow> bytes" where
  "put_u64 v = put_u32 (ucast (drop_bit 32 v)) @ put_u32 (ucast v)"

definition get_u64 :: "bytes \<Rightarrow> u64" where
  "get_u64 b = push_bit 32 (ucast (get_u32 (take 4 b))) OR ucast (get_u32 (take 4 (drop 4 b)))"

lemma length_put_u16 [simp, wire_len]: "length (put_u16 v) = 2"
  by (simp add: put_u16_def)

lemma length_put_u32 [simp, wire_len]: "length (put_u32 v) = 4"
  by (simp add: put_u32_def)

lemma length_put_u64 [simp, wire_len]: "length (put_u64 v) = 8"
  by (simp add: put_u64_def)

lemma get_put_u16 [simp]: "get_u16 (put_u16 v) = v"
proof (rule bit_word_eqI)
  fix n assume "n < LENGTH(16)"
  then show "bit (get_u16 (put_u16 v)) n \<longleftrightarrow> bit v n"
    by (cases "n < 8") (auto simp: get_u16_def put_u16_def bit_simps not_less)
qed

lemma get_put_u32 [simp]: "get_u32 (put_u32 v) = v"
proof (rule bit_word_eqI)
  fix n assume n: "n < LENGTH(32)"
  then consider "n < 8" | "8 \<le> n" "n < 16" | "16 \<le> n" "n < 24" | "24 \<le> n"
    by linarith
  then show "bit (get_u32 (put_u32 v)) n \<longleftrightarrow> bit v n"
    using n by cases (auto simp: get_u32_def put_u32_def bit_simps)
qed

lemma get_put_u64 [simp]: "get_u64 (put_u64 v) = v"
proof (rule bit_word_eqI)
  fix n assume n: "n < LENGTH(64)"
  have "get_u64 (put_u64 v) = push_bit 32 (ucast (ucast (drop_bit 32 v) :: u32)) OR ucast (ucast v :: u32)"
    by (simp add: get_u64_def put_u64_def)
  then show "bit (get_u64 (put_u64 v)) n \<longleftrightarrow> bit v n"
    using n by (cases "n < 32") (auto simp: bit_simps not_less)
qed

lemma put_u16_inject [simp, wire_inj]: "put_u16 v = put_u16 w \<longleftrightarrow> v = w"
  by (metis get_put_u16)

lemma put_u32_inject [simp, wire_inj]: "put_u32 v = put_u32 w \<longleftrightarrow> v = w"
  by (metis get_put_u32)

lemma put_u64_inject [simp, wire_inj]: "put_u64 v = put_u64 w \<longleftrightarrow> v = w"
  by (metis get_put_u64)

lemma put_u16_tail [wire_inj]: "put_u16 v @ x = put_u16 w @ y \<longleftrightarrow> v = w \<and> x = y"
  by (metis append_eq_append_conv length_put_u16 put_u16_inject)

lemma put_u32_tail [wire_inj]: "put_u32 v @ x = put_u32 w @ y \<longleftrightarrow> v = w \<and> x = y"
  by (metis append_eq_append_conv length_put_u32 put_u32_inject)

lemma put_u64_tail [wire_inj]: "put_u64 v @ x = put_u64 w @ y \<longleftrightarrow> v = w \<and> x = y"
  by (metis append_eq_append_conv length_put_u64 put_u64_inject)

text \<open>\<open>uint32(len(v))\<close>: the length of a slice, cut to 32 bits.\<close>

definition u32_len :: "'a list \<Rightarrow> u32" where
  "u32_len v = word_of_nat (length v)"

lemma unat_u32_len: "length v < 2 ^ 32 \<Longrightarrow> unat (u32_len v) = length v"
  by (simp add: u32_len_def unat_of_nat)

lemma unat_u32_of_nat [simp]: "i < 2 ^ 32 \<Longrightarrow> unat (word_of_nat i :: u32) = i"
  by (simp add: unat_of_nat)

lemma unat_u32_below: "i < unat (w :: u32) \<Longrightarrow> unat (word_of_nat i :: u32) = i"
proof -
  assume "i < unat w"
  moreover have "unat w < 2 ^ 32" using unsigned_less [of w] by simp
  ultimately show ?thesis by simp
qed

lemma u32_len_eq_length:
  assumes "length v < 2 ^ 32" and "length w < 2 ^ 32" and "u32_len v = u32_len w"
  shows "length v = length w"
  using assms by (metis unat_u32_len)

lemma u32_len_map [simp]: "u32_len (map f xs) = u32_len xs"
  by (simp add: u32_len_def)

lemma u32_len_str_bytes [simp]: "u32_len (str_bytes s) = u32_len s"
  by (simp add: u32_len_def)

text \<open>A length-prefixed field: the 32-bit length, then the bytes.\<close>

definition len_field :: "bytes \<Rightarrow> bytes" where
  "len_field v = put_u32 (u32_len v) @ v"

lemma length_len_field [simp, wire_len]: "length (len_field v) = 4 + length v"
  by (simp add: len_field_def)

lemma len_field_tail [wire_inj]:
  assumes "length v < 2 ^ 32" and "length w < 2 ^ 32"
  shows "len_field v @ x = len_field w @ y \<longleftrightarrow> v = w \<and> x = y"
proof
  assume "len_field v @ x = len_field w @ y"
  then have "u32_len v = u32_len w" and "v @ x = w @ y"
    by (simp_all add: len_field_def wire_inj)
  with assms show "v = w \<and> x = y"
    using u32_len_eq_length [OF assms] by (simp add: append_eq_append_conv)
qed simp

lemma len_field_inject:
  assumes "length v < 2 ^ 32" and "length w < 2 ^ 32"
  shows "len_field v = len_field w \<longleftrightarrow> v = w"
  using len_field_tail [OF assms, of "[]" "[]"] by simp

section \<open>Hexadecimal (encoding/hex)\<close>

definition hex_table :: string where
  "hex_table = ''0123456789abcdef''"

definition hex_byte :: "byte \<Rightarrow> string" where
  "hex_byte b = [hex_table ! unat (drop_bit 4 b), hex_table ! unat (b AND 15)]"

definition hex_EncodeToString :: "bytes \<Rightarrow> string" where
  "hex_EncodeToString b = concat (map hex_byte b)"

definition hex_val :: "char \<Rightarrow> nat option" where
  "hex_val c =
     (let n = of_char c :: nat in
      if 48 \<le> n \<and> n \<le> 57 then Some (n - 48)
      else if 97 \<le> n \<and> n \<le> 102 then Some (n - 87)
      else if 65 \<le> n \<and> n \<le> 70 then Some (n - 55)
      else None)"

fun hex_DecodeString :: "string \<Rightarrow> bytes option" where
  "hex_DecodeString [] = Some []"
| "hex_DecodeString [c] = None"
| "hex_DecodeString (c # d # s) =
     (case (hex_val c, hex_val d) of
        (Some h, Some l) \<Rightarrow> map_option (Cons (word_of_nat (16 * h + l))) (hex_DecodeString s)
      | _ \<Rightarrow> None)"

lemma hex_val_table_all: "\<forall>n \<in> set [0..<16]. hex_val (hex_table ! n) = Some n"
  by code_simp

lemma hex_val_table: "n < 16 \<Longrightarrow> hex_val (hex_table ! n) = Some n"
  using hex_val_table_all by (simp del: upt.simps)

lemma byte_nibbles:
  fixes b :: byte
  shows "unat (drop_bit 4 b) < 16" "unat (b AND 15) < 16"
    "word_of_nat (16 * unat (drop_bit 4 b) + unat (b AND 15)) = b"
proof -
  note b = unat_byte_less [of b]
  have hi: "unat (drop_bit 4 b) = unat b div 16"
    by (simp add: drop_bit_eq_div unat_div_distrib)
  have "b AND 15 = take_bit 4 b"
    by (simp add: take_bit_eq_mask mask_eq_exp_minus_1)
  then have lo: "unat (b AND 15) = unat b mod 16"
    by (simp add: take_bit_eq_mod unat_mod_distrib)
  show "unat (drop_bit 4 b) < 16" "unat (b AND 15) < 16"
    using b by (simp_all add: hi lo less_mult_imp_div_less)
  show "word_of_nat (16 * unat (drop_bit 4 b) + unat (b AND 15)) = b"
    by (simp add: hi lo)
qed

lemma hex_Decode_Encode [simp]: "hex_DecodeString (hex_EncodeToString b) = Some b"
  by (induction b)
    (simp_all add: hex_EncodeToString_def hex_byte_def hex_val_table byte_nibbles del: of_nat_add of_nat_mult)

lemma hex_EncodeToString_inject [simp]:
  "hex_EncodeToString a = hex_EncodeToString b \<longleftrightarrow> a = b"
  by (metis hex_Decode_Encode option.inject)

lemma length_hex_EncodeToString [simp]: "length (hex_EncodeToString b) = 2 * length b"
  by (induction b) (simp_all add: hex_EncodeToString_def hex_byte_def)

section \<open>Sorting over a comparison function (package sort)\<close>

text \<open>
  \<^verbatim>\<open>sort.SliceStable(xs, less)\<close> keeps elements that compare equal in their original order.
  \<open>sort_by\<close> is the insertion sort with that property. \<^verbatim>\<open>sort.Slice\<close> promises a sorted permutation only;
  where the sources use it on elements that never compare equal, \<open>sorted_perm_unique\<close> below says
  that the result is the one of \<open>sort_by\<close> anyway.
\<close>

fun insert_by :: "('a \<Rightarrow> 'a \<Rightarrow> bool) \<Rightarrow> 'a \<Rightarrow> 'a list \<Rightarrow> 'a list" where
  "insert_by lt x [] = [x]"
| "insert_by lt x (y # ys) = (if lt y x then y # insert_by lt x ys else x # y # ys)"

definition sort_by :: "('a \<Rightarrow> 'a \<Rightarrow> bool) \<Rightarrow> 'a list \<Rightarrow> 'a list" where
  "sort_by lt xs = foldr (insert_by lt) xs []"

lemma sort_by_Nil [simp]: "sort_by lt [] = []"
  by (simp add: sort_by_def)

lemma sort_by_Cons: "sort_by lt (x # xs) = insert_by lt x (sort_by lt xs)"
  by (simp add: sort_by_def)

lemma mset_insert_by [simp]: "mset (insert_by lt x ys) = add_mset x (mset ys)"
  by (induction ys) auto

lemma mset_sort_by [simp]: "mset (sort_by lt xs) = mset xs"
  by (induction xs) (simp_all add: sort_by_Cons)

lemma set_sort_by [simp]: "set (sort_by lt xs) = set xs"
  by (metis mset_sort_by set_mset_mset)

lemma length_sort_by [simp]: "length (sort_by lt xs) = length xs"
  by (metis mset_sort_by size_mset)

lemma distinct_sort_by [simp]: "distinct (sort_by lt xs) = distinct xs"
  by (metis mset_sort_by distinct_count_atmost_1 set_sort_by)

lemma distinct_map_sort_by [simp]: "distinct (map f (sort_by lt xs)) = distinct (map f xs)"
proof -
  have "mset (map f (sort_by lt xs)) = mset (map f xs)" by simp
  then show ?thesis by (rule mset_eq_imp_distinct_iff)
qed

text \<open>
  The scan \<^verbatim>\<open>if first || less(x, best) { best = x }\<close> over a sequence: the candidate changes only for a
  strictly smaller element.
\<close>

fun pick_least :: "('a \<Rightarrow> 'a \<Rightarrow> bool) \<Rightarrow> 'a option \<Rightarrow> 'a list \<Rightarrow> 'a option" where
  "pick_least lt best [] = best"
| "pick_least lt best (x # xs) =
     pick_least lt (case best of None \<Rightarrow> Some x | Some b \<Rightarrow> if lt x b then Some x else Some b) xs"

lemma pick_least_in: "pick_least lt best xs = Some y \<Longrightarrow> y \<in> set xs \<or> best = Some y"
proof (induction xs arbitrary: best)
  case (Cons x xs)
  then show ?case
    using Cons.IH [of "case best of None \<Rightarrow> Some x | Some b \<Rightarrow> if lt x b then Some x else Some b"]
    by (auto split: option.splits if_splits)
qed simp

lemma pick_least_None [simp]: "pick_least lt best xs = None \<longleftrightarrow> best = None \<and> xs = []"
  by (induction xs arbitrary: best) (auto split: option.splits)

text \<open>What the comparison must satisfy: a strict weak order, as package sort requires.\<close>

locale comparison =
  fixes lt :: "'a \<Rightarrow> 'a \<Rightarrow> bool"
  assumes asym: "lt x y \<Longrightarrow> \<not> lt y x"
    and negtrans: "\<not> lt x y \<Longrightarrow> \<not> lt y z \<Longrightarrow> \<not> lt x z"
begin

abbreviation ordered :: "'a list \<Rightarrow> bool" where
  "ordered xs \<equiv> sorted_wrt (\<lambda>x y. \<not> lt y x) xs"

lemma irrefl: "\<not> lt x x"
  using asym by blast

lemma trans: "lt x y \<Longrightarrow> lt y z \<Longrightarrow> lt x z"
  using asym negtrans by blast

lemma ordered_insert_by: "ordered ys \<Longrightarrow> ordered (insert_by lt x ys)"
proof (induction ys)
  case Nil
  then show ?case by simp
next
  case (Cons y ys)
  have set: "set (insert_by lt x ys) = insert x (set ys)"
    by (metis mset_insert_by set_mset_mset set_mset_add_mset_insert)
  show ?case
    using Cons set negtrans by (auto dest: asym)
qed

lemma ordered_sort_by: "ordered (sort_by lt xs)"
  by (induction xs) (simp_all add: sort_by_Cons ordered_insert_by)

text \<open>On elements of which no two compare equal, a sorted permutation is unique.\<close>

lemma sorted_perm_unique:
  assumes "mset xs = mset ys" and "ordered xs" and "ordered ys"
    and total: "\<And>x y. x \<in> set xs \<Longrightarrow> y \<in> set xs \<Longrightarrow> x \<noteq> y \<Longrightarrow> lt x y \<or> lt y x"
  shows "xs = ys"
  using assms
proof (induction xs arbitrary: ys)
  case Nil
  then show ?case by simp
next
  case (Cons x xs)
  then obtain y ys' where ys: "ys = y # ys'"
    by (cases ys) auto
  have sets: "set (x # xs) = set (y # ys')"
    using Cons.prems(1) ys by (metis set_mset_mset)
  have "x = y"
  proof (rule ccontr)
    assume ne: "x \<noteq> y"
    then have "x \<in> set ys'" and "y \<in> set xs" using sets by auto
    then have "\<not> lt x y" and "\<not> lt y x"
      using Cons.prems(2,3) ys by auto
    then show False using Cons.prems(4) [of x y] ne \<open>y \<in> set xs\<close> by simp
  qed
  then have "mset xs = mset ys'" using Cons.prems(1) ys by simp
  then have "xs = ys'"
    using Cons.prems ys by (intro Cons.IH) auto
  then show ?case using ys \<open>x = y\<close> by simp
qed

lemma ordered_strict:
  assumes "ordered xs" and "distinct xs"
    and "\<And>x y. x \<in> set xs \<Longrightarrow> y \<in> set xs \<Longrightarrow> x \<noteq> y \<Longrightarrow> lt x y \<or> lt y x"
  shows "sorted_wrt lt xs"
  using assms
proof (induction xs)
  case (Cons x xs)
  have "lt x y" if "y \<in> set xs" for y
    using Cons.prems(1,2) Cons.prems(3) [of x y] that by auto
  with Cons show ?case by simp
qed simp

lemma pick_least_min:
  assumes "pick_least lt best xs = Some y"
  shows "(\<forall>x \<in> set xs. \<not> lt x y) \<and> (\<forall>b. best = Some b \<longrightarrow> \<not> lt b y)"
  using assms
proof (induction xs arbitrary: best)
  case Nil
  then show ?case using irrefl by simp
next
  case (Cons x xs)
  show ?case
  proof (cases best)
    case None
    then show ?thesis using Cons.IH [of "Some x"] Cons.prems by auto
  next
    case (Some b)
    show ?thesis
    proof (cases "lt x b")
      case True
      then have "(\<forall>z \<in> set xs. \<not> lt z y) \<and> \<not> lt x y" using Cons Some by simp
      then show ?thesis using Some True trans by auto
    next
      case False
      then have "(\<forall>z \<in> set xs. \<not> lt z y) \<and> \<not> lt b y" using Cons Some by simp
      then show ?thesis using Some negtrans [OF False] by auto
    qed
  qed
qed

text \<open>A prefix of a sorted list holds its least elements.\<close>

lemma take_least:
  assumes "ordered xs" and "x \<in> set (take n xs)" and "y \<in> set (drop n xs)"
  shows "\<not> lt y x"
proof -
  have "ordered (take n xs @ drop n xs)" using assms(1) by simp
  then show ?thesis using assms(2,3) by (auto simp: sorted_wrt_append simp del: append_take_drop_id)
qed

end

section \<open>Go maps\<close>

text \<open>
  \<open>gget\<close>, \<open>gput\<close>, \<open>gdel\<close> are \<^verbatim>\<open>m[k]\<close>, \<^verbatim>\<open>m[k] = v\<close> and \<^verbatim>\<open>delete(m, k)\<close>; \<open>length\<close> is \<^verbatim>\<open>len(m)\<close>.
\<close>

type_synonym ('k, 'v) gomap = "('k \<times> 'v) list"

definition gget :: "('k, 'v) gomap \<Rightarrow> 'k \<Rightarrow> 'v option" where
  "gget m k = map_of m k"

definition gput :: "'k \<Rightarrow> 'v \<Rightarrow> ('k, 'v) gomap \<Rightarrow> ('k, 'v) gomap" where
  "gput k v m = AList.update k v m"

definition gdel :: "'k \<Rightarrow> ('k, 'v) gomap \<Rightarrow> ('k, 'v) gomap" where
  "gdel k m = filter (\<lambda>e. fst e \<noteq> k) m"

definition gmap_ok :: "('k, 'v) gomap \<Rightarrow> bool" where
  "gmap_ok m \<longleftrightarrow> distinct (map fst m)"

lemma gget_Nil [simp]: "gget [] k = None"
  by (simp add: gget_def)

lemma gmap_ok_Nil [simp]: "gmap_ok []"
  by (simp add: gmap_ok_def)

lemma gget_gput [simp]: "gget (gput k v m) j = (if j = k then Some v else gget m j)"
  by (simp add: gget_def gput_def update_conv)

lemma gget_gdel [simp]: "gget (gdel k m) j = (if j = k then None else gget m j)"
  by (induction m) (auto simp: gget_def gdel_def)

lemma gdel_gput [simp]: "gdel k (gput k v m) = gdel k m"
  by (induction m) (auto simp: gdel_def gput_def)

lemma gmap_ok_gput [simp]: "gmap_ok m \<Longrightarrow> gmap_ok (gput k v m)"
  by (simp add: gmap_ok_def gput_def distinct_update)

lemma gmap_ok_gdel [simp]: "gmap_ok m \<Longrightarrow> gmap_ok (gdel k m)"
  by (auto simp: gmap_ok_def gdel_def distinct_map_filter)

lemma gget_None_iff: "gget m k = None \<longleftrightarrow> k \<notin> fst ` set m"
  by (simp add: gget_def map_of_eq_None_iff)

lemma gget_Some_iff: "gmap_ok m \<Longrightarrow> gget m k = Some v \<longleftrightarrow> (k, v) \<in> set m"
  by (simp add: gget_def gmap_ok_def)

lemma gget_SomeD: "gget m k = Some v \<Longrightarrow> (k, v) \<in> set m"
  by (simp add: gget_def map_of_SomeD)

lemma length_gput:
  "length (gput k v m) = (if gget m k = None then Suc (length m) else length m)"
  by (induction m) (auto simp: gget_def gput_def)

lemma length_gdel:
  "gmap_ok m \<Longrightarrow> length (gdel k m) = (if gget m k = None then length m else length m - 1)"
proof (induction m)
  case Nil
  then show ?case by (simp add: gdel_def)
next
  case (Cons e m)
  have ok: "gmap_ok m" and fresh: "fst e \<notin> fst ` set m"
    using Cons.prems by (simp_all add: gmap_ok_def)
  show ?case
  proof (cases "fst e = k")
    case True
    then have "gget m k = None" using fresh by (simp add: gget_None_iff)
    with True Cons.IH [OF ok] show ?thesis
      by (cases e) (simp add: gdel_def gget_def)
  next
    case False
    have "0 < length m" if "gget m k \<noteq> None"
      using that by (cases m) simp_all
    with False Cons.IH [OF ok] show ?thesis
      by (cases e) (auto simp: gdel_def gget_def)
  qed
qed

lemma length_filter_gmap_le: "length (filter P m) \<le> length m"
  by simp

lemma set_gdel: "set (gdel k m) = {e \<in> set m. fst e \<noteq> k}"
  by (auto simp: gdel_def)

lemma set_gput_subset: "set (gput k v m) \<subseteq> insert (k, v) (set m)"
  by (induction m) (auto simp: gput_def)

lemma gmap_ok_filter [simp]: "gmap_ok m \<Longrightarrow> gmap_ok (filter P m)"
  by (auto simp: gmap_ok_def distinct_map_filter)

text \<open>
  The order in which \<^verbatim>\<open>range\<close> visits a map is not fixed: definitions that depend on it take it as an
  argument, a function that gives a permutation of the entries.
\<close>

definition range_order :: "('a list \<Rightarrow> 'a list) \<Rightarrow> bool" where
  "range_order iter \<longleftrightarrow> (\<forall>m. mset (iter m) = mset m)"

lemma range_order_set: "range_order iter \<Longrightarrow> set (iter m) = set m"
  unfolding range_order_def by (metis set_mset_mset)

lemma range_order_length: "range_order iter \<Longrightarrow> length (iter m) = length m"
  unfolding range_order_def by (metis size_mset)

lemma range_order_id [simp]: "range_order (\<lambda>m. m)"
  by (simp add: range_order_def)

text \<open>
  The interface of a table with a size: what a client that keeps a table bounded relies on. The
  client lemmas are the two ways the sources bound a table: make room first and insert, or insert
  first and evict.
\<close>

locale sized_table =
  fixes get :: "'m \<Rightarrow> 'k \<Rightarrow> 'v option"
    and put :: "'k \<Rightarrow> 'v \<Rightarrow> 'm \<Rightarrow> 'm"
    and del :: "'k \<Rightarrow> 'm \<Rightarrow> 'm"
    and len :: "'m \<Rightarrow> nat"
    and ok :: "'m \<Rightarrow> bool"
  assumes get_put: "ok m \<Longrightarrow> get (put k v m) j = (if j = k then Some v else get m j)"
    and get_del: "ok m \<Longrightarrow> get (del k m) j = (if j = k then None else get m j)"
    and len_put: "ok m \<Longrightarrow> len (put k v m) = (if get m k = None then Suc (len m) else len m)"
    and len_del: "ok m \<Longrightarrow> len (del k m) = (if get m k = None then len m else len m - 1)"
    and ok_put: "ok m \<Longrightarrow> ok (put k v m)"
    and ok_del: "ok m \<Longrightarrow> ok (del k m)"
begin

lemma put_with_room: "ok m \<Longrightarrow> len m < n \<Longrightarrow> len (put k v m) \<le> n"
  by (simp add: len_put)

lemma put_existing: "ok m \<Longrightarrow> get m k \<noteq> None \<Longrightarrow> len (put k v m) = len m"
  by (simp add: len_put)

lemma put_then_evict:
  assumes "ok m" and "len m \<le> n" and "get (put k v m) j \<noteq> None"
  shows "len (del j (put k v m)) \<le> n"
  using assms by (auto simp: len_del len_put ok_put)

lemma evict_makes_room:
  assumes "ok m" and "len m \<le> n" and "0 < n" and "get m j \<noteq> None"
  shows "len (del j m) < n"
  using assms by (auto simp: len_del)

end

interpretation gm: sized_table gget gput gdel length gmap_ok
  by unfold_locales (simp_all add: length_gput length_gdel)

end
