(* ===== verification/Packet.thy ===== *)
theory Packet
  imports Prelude
begin

text \<open>
  The wire packet of \<^verbatim>\<open>internal/protocol/packet.go\<close>: the packet record, its binary encoding and
  decoding, length-prefixed framing on a stream, the bytes a signature covers, signing and
  verification, and the payload of a per-hop routed packet.

  A timestamp is its \<^verbatim>\<open>UnixNano\<close> value, the 64 bits that travel on the wire. Ed25519 and SHA-256
  are parameters (a record of functions and a function); the predicate \<open>signature_scheme\<close> states what the
  documentation of the signature scheme promises.
\<close>

section \<open>Packet types\<close>

type_synonym packetType = byte

definition PacketTypeData :: packetType where "PacketTypeData = 0"
definition PacketTypeDiscovery :: packetType where "PacketTypeDiscovery = 1"
definition PacketTypeLatencyCheck :: packetType where "PacketTypeLatencyCheck = 2"
definition PacketTypeLatencyReply :: packetType where "PacketTypeLatencyReply = 3"
definition PacketTypeAcknowledgement :: packetType where "PacketTypeAcknowledgement = 4"
definition PacketTypePeerExchange :: packetType where "PacketTypePeerExchange = 5"
definition PacketTypeRelay :: packetType where "PacketTypeRelay = 6"
definition PacketTypeReservation :: packetType where "PacketTypeReservation = 7"
definition PacketTypeFindNode :: packetType where "PacketTypeFindNode = 8"
definition PacketTypeFindNodeReply :: packetType where "PacketTypeFindNodeReply = 9"
definition PacketTypeReachabilityCheck :: packetType where "PacketTypeReachabilityCheck = 10"
definition PacketTypeReachabilityResult :: packetType where "PacketTypeReachabilityResult = 11"
definition PacketTypeAnnounce :: packetType where "PacketTypeAnnounce = 12"
definition PacketTypePathRequest :: packetType where "PacketTypePathRequest = 13"
definition PacketTypeLinkRequest :: packetType where "PacketTypeLinkRequest = 14"
definition PacketTypeLinkProof :: packetType where "PacketTypeLinkProof = 15"
definition PacketTypeLinkData :: packetType where "PacketTypeLinkData = 16"
definition PacketTypeRouted :: packetType where "PacketTypeRouted = 17"
definition PacketTypeRoutedDiscovery :: packetType where "PacketTypeRoutedDiscovery = 18"

lemmas packet_type_defs =
  PacketTypeData_def PacketTypeDiscovery_def PacketTypeLatencyCheck_def PacketTypeLatencyReply_def
  PacketTypeAcknowledgement_def PacketTypePeerExchange_def PacketTypeRelay_def
  PacketTypeReservation_def PacketTypeFindNode_def PacketTypeFindNodeReply_def
  PacketTypeReachabilityCheck_def PacketTypeReachabilityResult_def PacketTypeAnnounce_def
  PacketTypePathRequest_def PacketTypeLinkRequest_def PacketTypeLinkProof_def
  PacketTypeLinkData_def PacketTypeRouted_def PacketTypeRoutedDiscovery_def

section \<open>The packet\<close>

record packet =
  pID :: bytes \<comment> \<open>a [32]byte array: \<open>packet_ok\<close> says that it has 32 elements\<close>
  pType :: packetType
  pTimestamp :: u64
  pSourceNode :: string
  pDestGroup :: string
  pDestNode :: string
  pTotalChunks :: u32
  pChunkNumber :: u32
  pSubIndex :: u32
  pSubTotal :: u32
  pStreaming :: bool
  pBlockIndex :: u32
  pBlockLen :: u32
  pFinal :: bool
  pHybridSealed :: bool
  pPQ :: bool
  pResumable :: bool
  pDataShards :: u32
  pParityShards :: u32
  pOriginalLen :: u64
  pVariable :: bool
  pReplyBlock :: bytes
  pDecoy :: bool
  pPad :: bytes
  pPayloadSize :: u32
  pPayload :: bytes
  pSignerKey :: bytes
  pSignature :: bytes

text \<open>The zero value \<^verbatim>\<open>Packet{}\<close>.\<close>

definition zero_packet :: packet where
  "zero_packet = \<lparr>pID = replicate 32 0, pType = 0, pTimestamp = 0, pSourceNode = [], pDestGroup = [],
     pDestNode = [], pTotalChunks = 0, pChunkNumber = 0, pSubIndex = 0, pSubTotal = 0,
     pStreaming = False, pBlockIndex = 0, pBlockLen = 0, pFinal = False, pHybridSealed = False,
     pPQ = False, pResumable = False, pDataShards = 0, pParityShards = 0, pOriginalLen = 0,
     pVariable = False, pReplyBlock = [], pDecoy = False, pPad = [], pPayloadSize = 0,
     pPayload = [], pSignerKey = [], pSignature = []\<rparr>"

text \<open>The ID is an array of 32 bytes, and every variable-length field has a 32-bit length.\<close>

definition packet_ok :: "packet \<Rightarrow> bool" where
  "packet_ok p \<longleftrightarrow> length (pID p) = 32 \<and>
     (\<forall>f \<in> {pSourceNode p, pDestGroup p, pDestNode p}. length f < 2 ^ 32) \<and>
     (\<forall>f \<in> {pPayload p, pSignerKey p, pSignature p, pReplyBlock p, pPad p}. length f < 2 ^ 32)"

section \<open>Encoding\<close>

definition appendU32 :: "bytes \<Rightarrow> u32 \<Rightarrow> bytes" where
  "appendU32 b v = b @ put_u32 v"

definition appendU64 :: "bytes \<Rightarrow> u64 \<Rightarrow> bytes" where
  "appendU64 b v = b @ put_u64 v"

definition appendBytes :: "bytes \<Rightarrow> bytes \<Rightarrow> bytes" where
  "appendBytes b v = appendU32 b (u32_len v) @ v"

definition boolByte :: "bool \<Rightarrow> byte" where
  "boolByte v = (if v then 1 else 0)"

definition MarshalBinary :: "packet \<Rightarrow> bytes" where
  "MarshalBinary p =
     (let buf = pID p;
          buf = buf @ [pType p];
          buf = appendU64 buf (pTimestamp p);
          buf = appendBytes buf (str_bytes (pSourceNode p));
          buf = appendBytes buf (str_bytes (pDestGroup p));
          buf = appendBytes buf (str_bytes (pDestNode p));
          buf = appendU32 buf (pTotalChunks p);
          buf = appendU32 buf (pChunkNumber p);
          buf = appendU32 buf (pSubIndex p);
          buf = appendU32 buf (pSubTotal p);
          buf = buf @ [boolByte (pStreaming p)];
          buf = appendU32 buf (pBlockIndex p);
          buf = appendU32 buf (pBlockLen p);
          buf = buf @ [boolByte (pFinal p)];
          buf = buf @ [boolByte (pHybridSealed p)];
          buf = buf @ [boolByte (pPQ p)];
          buf = buf @ [boolByte (pResumable p)];
          buf = appendU32 buf (pDataShards p);
          buf = appendU32 buf (pParityShards p);
          buf = appendU64 buf (pOriginalLen p);
          buf = buf @ [boolByte (pVariable p), boolByte (pDecoy p)];
          buf = appendU32 buf (pPayloadSize p);
          buf = appendBytes buf (pPayload p);
          buf = appendBytes buf (pSignerKey p);
          buf = appendBytes buf (pSignature p);
          buf = appendBytes buf (pReplyBlock p);
          buf = appendBytes buf (pPad p)
      in buf)"

section \<open>Decoding: a bounds-checked cursor\<close>

record reader =
  rb :: bytes
  rerr :: bool \<comment> \<open>the cursor has one error, \<^verbatim>\<open>errMalformedPacket\<close>\<close>

definition take_r :: "int \<Rightarrow> reader \<Rightarrow> bytes \<times> reader" where
  "take_r n r =
     (if rerr r then ([], r)
      else if n < 0 \<or> int (length (rb r)) < n then ([], r\<lparr>rerr := True\<rparr>)
      else (take (nat n) (rb r), r\<lparr>rb := drop (nat n) (rb r)\<rparr>))"

definition u8_r :: "reader \<Rightarrow> byte \<times> reader" where
  "u8_r r = (let (d, r) = take_r 1 r in if length d = 1 then (d ! 0, r) else (0, r))"

definition u32_r :: "reader \<Rightarrow> u32 \<times> reader" where
  "u32_r r = (let (d, r) = take_r 4 r in if length d = 4 then (get_u32 d, r) else (0, r))"

definition u64_r :: "reader \<Rightarrow> u64 \<times> reader" where
  "u64_r r = (let (d, r) = take_r 8 r in if length d = 8 then (get_u64 d, r) else (0, r))"

definition bytes_r :: "reader \<Rightarrow> bytes \<times> reader" where
  "bytes_r r = (let (n, r) = u32_r r in take_r (uint n) r)"

text \<open>\<^verbatim>\<open>copy(dst, src)\<close> over a fixed array: the copied prefix, then what was there.\<close>

definition copy_into :: "bytes \<Rightarrow> bytes \<Rightarrow> bytes" where
  "copy_into dst src = take (length dst) src @ drop (length src) dst"

definition UnmarshalBinary :: "packet \<Rightarrow> bytes \<Rightarrow> packet \<times> bool" where
  "UnmarshalBinary p data =
     (let r = \<lparr>rb = data, rerr = False\<rparr>;
          (d, r) = take_r 32 r; p = p\<lparr>pID := copy_into (pID p) d\<rparr>;
          (v, r) = u8_r r; p = p\<lparr>pType := v\<rparr>;
          (v, r) = u64_r r; p = p\<lparr>pTimestamp := v\<rparr>;
          (v, r) = bytes_r r; p = p\<lparr>pSourceNode := bytes_str v\<rparr>;
          (v, r) = bytes_r r; p = p\<lparr>pDestGroup := bytes_str v\<rparr>;
          (v, r) = bytes_r r; p = p\<lparr>pDestNode := bytes_str v\<rparr>;
          (v, r) = u32_r r; p = p\<lparr>pTotalChunks := v\<rparr>;
          (v, r) = u32_r r; p = p\<lparr>pChunkNumber := v\<rparr>;
          (v, r) = u32_r r; p = p\<lparr>pSubIndex := v\<rparr>;
          (v, r) = u32_r r; p = p\<lparr>pSubTotal := v\<rparr>;
          (v, r) = u8_r r; p = p\<lparr>pStreaming := (v = 1)\<rparr>;
          (v, r) = u32_r r; p = p\<lparr>pBlockIndex := v\<rparr>;
          (v, r) = u32_r r; p = p\<lparr>pBlockLen := v\<rparr>;
          (v, r) = u8_r r; p = p\<lparr>pFinal := (v = 1)\<rparr>;
          (v, r) = u8_r r; p = p\<lparr>pHybridSealed := (v = 1)\<rparr>;
          (v, r) = u8_r r; p = p\<lparr>pPQ := (v = 1)\<rparr>;
          (v, r) = u8_r r; p = p\<lparr>pResumable := (v = 1)\<rparr>;
          (v, r) = u32_r r; p = p\<lparr>pDataShards := v\<rparr>;
          (v, r) = u32_r r; p = p\<lparr>pParityShards := v\<rparr>;
          (v, r) = u64_r r; p = p\<lparr>pOriginalLen := v\<rparr>;
          (v, r) = u8_r r; p = p\<lparr>pVariable := (v = 1)\<rparr>;
          (v, r) = u8_r r; p = p\<lparr>pDecoy := (v = 1)\<rparr>;
          (v, r) = u32_r r; p = p\<lparr>pPayloadSize := v\<rparr>;
          (v, r) = bytes_r r; p = p\<lparr>pPayload := v\<rparr>;
          (v, r) = bytes_r r; p = p\<lparr>pSignerKey := v\<rparr>;
          (v, r) = bytes_r r; p = p\<lparr>pSignature := v\<rparr>;
          (v, r) = bytes_r r; p = p\<lparr>pReplyBlock := v\<rparr>;
          (v, r) = bytes_r r; p = p\<lparr>pPad := v\<rparr>
      in (p, rerr r))"

section \<open>Frames on a stream\<close>

datatype read_error = EOF | ErrUnexpectedEOF | ErrMalformedPacket

definition maxFrameSize :: nat where
  "maxFrameSize = 8 * 2 ^ 20"

text \<open>\<^verbatim>\<open>io.ReadFull\<close> on what is left of the stream before it ends.\<close>

definition read_full :: "nat \<Rightarrow> bytes \<Rightarrow> read_error + bytes \<times> bytes" where
  "read_full n s =
     (if n \<le> length s then Inr (take n s, drop n s)
      else if s = [] then Inl EOF else Inl ErrUnexpectedEOF)"

text \<open>\<open>WritePacket\<close> gives the bytes written; the reader returns the packet and the rest.\<close>

definition WritePacket :: "packet \<Rightarrow> bytes" where
  "WritePacket p = (let body = MarshalBinary p in put_u32 (u32_len body) @ body)"

definition ReadPacket :: "bytes \<Rightarrow> read_error + packet \<times> bytes" where
  "ReadPacket s =
     (case read_full 4 s of
        Inl e \<Rightarrow> Inl e
      | Inr (hdr, s) \<Rightarrow>
          let n = get_u32 hdr in
          if unat n > maxFrameSize then Inl ErrMalformedPacket
          else (case read_full (unat n) s of
                  Inl e \<Rightarrow> Inl e
                | Inr (body, s) \<Rightarrow>
                    let (p, err) = UnmarshalBinary zero_packet body in
                    if err then Inl ErrMalformedPacket else Inr (p, s)))"

section \<open>Construction and identifiers\<close>

text \<open>\<^verbatim>\<open>NewPacket\<close>: the clock is read once; \<open>now\<close> is its nanoseconds and \<open>nowStr\<close> its text.\<close>

definition NewPacket ::
  "(bytes \<Rightarrow> bytes) \<Rightarrow> u64 \<Rightarrow> string \<Rightarrow> packetType \<Rightarrow> bytes \<Rightarrow> string \<Rightarrow> string \<Rightarrow> packet" where
  "NewPacket sha256 now nowStr t payload destGroup destNode =
     (let idSource = payload @ str_bytes nowStr;
          i = sha256 idSource
      in zero_packet\<lparr>pID := i, pType := t, pTimestamp := now, pDestGroup := destGroup,
           pDestNode := destNode, pPayloadSize := u32_len payload, pPayload := payload\<rparr>)"

definition HexID :: "bytes \<Rightarrow> string" where
  "HexID i = concat (map (\<lambda>b. [''0123456789abcdef'' ! unat (drop_bit 4 b),
                             ''0123456789abcdef'' ! unat (b AND 15)]) i)"

section \<open>Signatures\<close>

definition appendLenString :: "bytes \<Rightarrow> bytes \<Rightarrow> bytes" where
  "appendLenString buf s = (buf @ put_u32 (u32_len s)) @ s"

definition flagByte :: "bool \<Rightarrow> bytes" where
  "flagByte b = (if b then [1] else [0])"

definition canonicalBytes :: "packet \<Rightarrow> bytes" where
  "canonicalBytes p =
     (let buf = [];
          buf = buf @ [pType p];
          buf = buf @ pID p;
          buf = appendLenString buf (str_bytes (pSourceNode p));
          buf = appendLenString buf (str_bytes (pDestGroup p));
          buf = appendLenString buf (str_bytes (pDestNode p));
          buf = buf @ put_u32 (pChunkNumber p);
          buf = buf @ put_u32 (pTotalChunks p);
          buf = buf @ put_u32 (pPayloadSize p);
          buf = buf @ put_u32 (pDataShards p);
          buf = buf @ put_u32 (pParityShards p);
          buf = buf @ put_u64 (pOriginalLen p);
          buf = buf @ put_u32 (pSubIndex p);
          buf = buf @ put_u32 (pSubTotal p);
          buf = buf @ flagByte (pStreaming p);
          buf = buf @ put_u32 (pBlockIndex p);
          buf = buf @ put_u32 (pBlockLen p);
          buf = buf @ flagByte (pFinal p);
          buf = buf @ flagByte (pHybridSealed p);
          buf = buf @ flagByte (pPQ p);
          buf = buf @ flagByte (pResumable p);
          buf = buf @ flagByte (pVariable p);
          buf = appendLenString buf (pSignerKey p);
          buf = appendLenString buf (pReplyBlock p);
          buf = buf @ flagByte (pDecoy p);
          buf = buf @ pPayload p
      in buf)"

text \<open>
  Package \<^verbatim>\<open>crypto/ed25519\<close> is a parameter: the private key of a seed, the public half of a private key,
  signing, and verification. \<^verbatim>\<open>PrivateKeySize\<close>, \<^verbatim>\<open>PublicKeySize\<close> and \<^verbatim>\<open>SignatureSize\<close> are its constants.
\<close>

record ed25519 =
  edKeyFromSeed :: "bytes \<Rightarrow> bytes"
  edPublic :: "bytes \<Rightarrow> bytes"
  edSign :: "bytes \<Rightarrow> bytes \<Rightarrow> bytes"
  edVerify :: "bytes \<Rightarrow> bytes \<Rightarrow> bytes \<Rightarrow> bool"

text \<open>
  What the package documents: key and signature sizes, and that a signature made with a generated key
  verifies. A private key is the seed followed by the public half, so other 64 bytes need not sign validly.
\<close>

definition generated_key :: "ed25519 \<Rightarrow> bytes \<Rightarrow> bool" where
  "generated_key ed priv \<longleftrightarrow> (\<exists>seed. length seed = 32 \<and> priv = edKeyFromSeed ed seed)"

definition signature_scheme :: "ed25519 \<Rightarrow> bool" where
  "signature_scheme ed \<longleftrightarrow>
     (\<forall>priv. generated_key ed priv \<longrightarrow> length priv = 64) \<and>
     (\<forall>priv m. length priv = 64 \<longrightarrow> length (edPublic ed priv) = 32 \<and> length (edSign ed priv m) = 64) \<and>
     (\<forall>priv m. generated_key ed priv \<longrightarrow> edVerify ed (edPublic ed priv) m (edSign ed priv m))"

definition PrivateKeySize :: nat where "PrivateKeySize = 64"
definition PublicKeySize :: nat where "PublicKeySize = 32"
definition SignatureSize :: nat where "SignatureSize = 64"

definition Sign :: "ed25519 \<Rightarrow> bytes \<Rightarrow> packet \<Rightarrow> packet" where
  "Sign ed priv p =
     (if length priv \<noteq> PrivateKeySize then p
      else let p = p\<lparr>pSignerKey := edPublic ed priv\<rparr>
           in p\<lparr>pSignature := edSign ed priv (canonicalBytes p)\<rparr>)"

definition Verify :: "ed25519 \<Rightarrow> packet \<Rightarrow> bool" where
  "Verify ed p =
     (if length (pSignerKey p) \<noteq> PublicKeySize \<or> length (pSignature p) \<noteq> SignatureSize then False
      else edVerify ed (pSignerKey p) (canonicalBytes p) (pSignature p))"

definition DeriveNodeID :: "(bytes \<Rightarrow> bytes) \<Rightarrow> bytes \<Rightarrow> string" where
  "DeriveNodeID sha256 signPub =
     (if signPub = [] then [] else hex_EncodeToString (take 16 (sha256 signPub)))"

definition SignerID :: "(bytes \<Rightarrow> bytes) \<Rightarrow> packet \<Rightarrow> string" where
  "SignerID sha256 p = DeriveNodeID sha256 (pSignerKey p)"

section \<open>Routed payloads\<close>

definition EncodeRouted :: "byte \<Rightarrow> bytes \<Rightarrow> bytes" where
  "EncodeRouted hopLimit inner = [hopLimit] @ inner"

definition RoutedHopLimit :: "bytes \<Rightarrow> byte" where
  "RoutedHopLimit payload = (if length payload = 0 then 0 else payload ! 0)"

definition RoutedInner :: "bytes \<Rightarrow> bytes" where
  "RoutedInner payload = (if length payload = 0 then [] else drop 1 payload)"

section \<open>Lemmas on the encoding\<close>

lemma MarshalBinary_fields:
  "MarshalBinary p @ rest =
     pID p @ [pType p] @ put_u64 (pTimestamp p) @ len_field (str_bytes (pSourceNode p)) @
     len_field (str_bytes (pDestGroup p)) @ len_field (str_bytes (pDestNode p)) @
     put_u32 (pTotalChunks p) @ put_u32 (pChunkNumber p) @ put_u32 (pSubIndex p) @
     put_u32 (pSubTotal p) @ [boolByte (pStreaming p)] @ put_u32 (pBlockIndex p) @
     put_u32 (pBlockLen p) @ [boolByte (pFinal p)] @ [boolByte (pHybridSealed p)] @
     [boolByte (pPQ p)] @ [boolByte (pResumable p)] @ put_u32 (pDataShards p) @
     put_u32 (pParityShards p) @ put_u64 (pOriginalLen p) @ [boolByte (pVariable p)] @
     [boolByte (pDecoy p)] @ put_u32 (pPayloadSize p) @ len_field (pPayload p) @
     len_field (pSignerKey p) @ len_field (pSignature p) @ len_field (pReplyBlock p) @
     len_field (pPad p) @ rest"
  by (simp add: MarshalBinary_def appendU32_def appendU64_def appendBytes_def len_field_def Let_def)

abbreviation rd :: "bytes \<Rightarrow> reader" where
  "rd b \<equiv> \<lparr>rb = b, rerr = False\<rparr>"

lemma take_r_front: "length d = n \<Longrightarrow> take_r (int n) (rd (d @ x)) = (d, rd x)"
  by (simp add: take_r_def)

lemma take_r_32: "length d = 32 \<Longrightarrow> take_r 32 (rd (d @ x)) = (d, rd x)"
  using take_r_front [of d 32 x] by simp

lemma u8_r_front: "u8_r (rd ([b] @ x)) = (b, rd x)"
  by (simp add: u8_r_def take_r_def)

lemma u32_r_front: "u32_r (rd (put_u32 v @ x)) = (v, rd x)"
  using take_r_front [of "put_u32 v" 4 x] by (simp add: u32_r_def)

lemma u64_r_front: "u64_r (rd (put_u64 v @ x)) = (v, rd x)"
  using take_r_front [of "put_u64 v" 8 x] by (simp add: u64_r_def)

lemma bytes_r_front: "length v < 2 ^ 32 \<Longrightarrow> bytes_r (rd (len_field v @ x)) = (v, rd x)"
proof -
  assume v: "length v < 2 ^ 32"
  then have "uint (u32_len v) = int (length v)"
    using unat_u32_len [OF v] by (metis uint_nat)
  then show ?thesis
    using take_r_front [of v "length v" x]
    by (simp add: bytes_r_def len_field_def u32_r_front)
qed

lemmas reader_front = take_r_32 u8_r_front u32_r_front u64_r_front bytes_r_front

lemma boolByte_eq_1 [simp]: "boolByte b = 1 \<longleftrightarrow> b"
  by (simp add: boolByte_def)

lemma copy_into_full: "length d = length dst \<Longrightarrow> copy_into dst d = d"
  by (simp add: copy_into_def)

lemma Unmarshal_Marshal:
  assumes "packet_ok p" and "length (pID q) = 32"
  shows "UnmarshalBinary q (MarshalBinary p @ rest) = (p, False)"
proof -
  have len: "length (pID p) = 32"
    "length (str_bytes (pSourceNode p)) < 2 ^ 32" "length (str_bytes (pDestGroup p)) < 2 ^ 32"
    "length (str_bytes (pDestNode p)) < 2 ^ 32" "length (pPayload p) < 2 ^ 32"
    "length (pSignerKey p) < 2 ^ 32" "length (pSignature p) < 2 ^ 32"
    "length (pReplyBlock p) < 2 ^ 32" "length (pPad p) < 2 ^ 32"
    using assms(1) by (simp_all add: packet_ok_def)
  have idq: "copy_into (pID q) (pID p) = pID p"
    using len(1) assms(2) by (simp add: copy_into_full)
  show ?thesis
    unfolding UnmarshalBinary_def MarshalBinary_fields Let_def
    by (simp only: reader_front len idq prod.case packet.simps reader.simps
        bytes_str_str_bytes boolByte_eq_1)
      simp
qed

lemma packet_ok_zero [simp]: "packet_ok zero_packet"
  by (simp add: packet_ok_def zero_packet_def)

lemma length_zero_ID [simp]: "length (pID zero_packet) = 32"
  by (simp add: zero_packet_def)

lemma read_full_append: "length d = n \<Longrightarrow> read_full n (d @ s) = Inr (d, s)"
  by (simp add: read_full_def)

lemma read_full_short:
  "length s < n \<Longrightarrow> read_full n s = Inl (if s = [] then EOF else ErrUnexpectedEOF)"
  by (simp add: read_full_def)

lemma ReadPacket_header:
  assumes "length body < 2 ^ 32"
  shows "ReadPacket (put_u32 (u32_len body) @ s) =
    (if length body > maxFrameSize then Inl ErrMalformedPacket
     else case read_full (length body) s of
            Inl e \<Rightarrow> Inl e
          | Inr (b, s) \<Rightarrow> let (p, err) = UnmarshalBinary zero_packet b in
                         if err then Inl ErrMalformedPacket else Inr (p, s))"
  using assms by (simp add: ReadPacket_def read_full_append unat_u32_len split: sum.split)

lemma take_frame:
  assumes "n < length (hdr @ body)" "length hdr = 4"
  shows "take n (hdr @ body) = take n hdr \<and> n < 4 \<or>
         (\<exists>m < length body. take n (hdr @ body) = hdr @ take m body \<and> n = 4 + m)"
proof (cases "n < 4")
  case False
  then have "take n (hdr @ body) = hdr @ take (n - 4) body \<and> n - 4 < length body \<and> n = 4 + (n - 4)"
    using assms by simp
  then show ?thesis by blast
qed (use assms in simp)

lemma canonicalBytes_fields:
  "canonicalBytes p =
     [pType p] @ pID p @ len_field (str_bytes (pSourceNode p)) @
     len_field (str_bytes (pDestGroup p)) @ len_field (str_bytes (pDestNode p)) @
     put_u32 (pChunkNumber p) @ put_u32 (pTotalChunks p) @ put_u32 (pPayloadSize p) @
     put_u32 (pDataShards p) @ put_u32 (pParityShards p) @ put_u64 (pOriginalLen p) @
     put_u32 (pSubIndex p) @ put_u32 (pSubTotal p) @ [boolByte (pStreaming p)] @
     put_u32 (pBlockIndex p) @ put_u32 (pBlockLen p) @ [boolByte (pFinal p)] @
     [boolByte (pHybridSealed p)] @ [boolByte (pPQ p)] @ [boolByte (pResumable p)] @
     [boolByte (pVariable p)] @ len_field (pSignerKey p) @ len_field (pReplyBlock p) @
     [boolByte (pDecoy p)] @ pPayload p"
  by (simp add: canonicalBytes_def appendLenString_def flagByte_def boolByte_def len_field_def Let_def)

lemma boolByte_inject [simp]: "boolByte a = boolByte b \<longleftrightarrow> a = b"
  by (simp add: boolByte_def)

text \<open>What a signature covers: the packet without its timestamp, its padding and the signature.\<close>

definition signed_view :: "packet \<Rightarrow> packet" where
  "signed_view p = p\<lparr>pTimestamp := 0, pPad := [], pSignature := []\<rparr>"

lemma canonicalBytes_signed_view [simp]: "canonicalBytes (signed_view p) = canonicalBytes p"
  by (simp add: canonicalBytes_fields signed_view_def)

lemma canonicalBytes_inj:
  assumes "packet_ok p" "packet_ok q" "canonicalBytes p = canonicalBytes q"
  shows "signed_view p = signed_view q"
  using assms unfolding canonicalBytes_fields packet_ok_def
  by (simp add: wire_inj signed_view_def)

lemma ReadPacket_WritePacket:
  assumes "packet_ok p" and "length (MarshalBinary p) < 2 ^ 32"
  shows "ReadPacket (WritePacket p @ rest) =
           (if length (MarshalBinary p) \<le> maxFrameSize then Inr (p, rest)
            else Inl ErrMalformedPacket)"
  using Unmarshal_Marshal [OF assms(1), of zero_packet "[]"]
  by (simp add: WritePacket_def Let_def ReadPacket_header [OF assms(2)] read_full_append)

lemma ReadPacket_cut:
  assumes "length (MarshalBinary p) \<le> maxFrameSize" and "n < length (WritePacket p)"
  shows "ReadPacket (take n (WritePacket p)) \<in> {Inl EOF, Inl ErrUnexpectedEOF}"
proof -
  have small: "length (MarshalBinary p) < 2 ^ 32"
    using assms(1) by (simp add: maxFrameSize_def)
  define hdr where "hdr = put_u32 (u32_len (MarshalBinary p))"
  have frame: "WritePacket p = hdr @ MarshalBinary p" and hdr: "length hdr = 4"
    by (simp_all add: WritePacket_def Let_def hdr_def)
  from take_frame [OF assms(2) [unfolded frame] hdr] show ?thesis
  proof (elim disjE conjE exE)
    assume "take n (hdr @ MarshalBinary p) = take n hdr" "n < 4"
    then show ?thesis
      using hdr by (simp add: frame ReadPacket_def read_full_short)
  next
    fix m
    assume "m < length (MarshalBinary p)" "take n (hdr @ MarshalBinary p) = hdr @ take m (MarshalBinary p)"
    then show ?thesis
      using assms(1) by (simp add: frame hdr_def ReadPacket_header [OF small] read_full_short)
  qed
qed

lemma Sign_simps:
  assumes "length priv = 64"
  shows "pSignerKey (Sign ed priv p) = edPublic ed priv"
    and "canonicalBytes (Sign ed priv p) = canonicalBytes (p\<lparr>pSignerKey := edPublic ed priv\<rparr>)"
    and "pSignature (Sign ed priv p) = edSign ed priv (canonicalBytes (p\<lparr>pSignerKey := edPublic ed priv\<rparr>))"
  using assms by (simp_all add: Sign_def PrivateKeySize_def Let_def canonicalBytes_fields)

lemma generated_length: "signature_scheme ed \<Longrightarrow> generated_key ed priv \<Longrightarrow> length priv = 64"
  by (simp add: signature_scheme_def)

lemma Verify_Sign:
  assumes "signature_scheme ed" "generated_key ed priv"
  shows "Verify ed (Sign ed priv p)"
  using assms generated_length [OF assms]
  by (simp add: Verify_def Sign_simps PublicKeySize_def SignatureSize_def signature_scheme_def)

lemma packet_ok_Sign:
  assumes "signature_scheme ed" "packet_ok p"
  shows "packet_ok (Sign ed priv p)"
  using assms by (simp add: Sign_def Let_def packet_ok_def signature_scheme_def PrivateKeySize_def)

lemma take_r_length: "take_r n r = (d, r') \<Longrightarrow> int (length d) \<le> max 0 n"
  by (auto simp: take_r_def split: if_splits)

lemma bytes_r_length: "bytes_r r = (v, r') \<Longrightarrow> length v < 2 ^ 32"
proof -
  assume a: "bytes_r r = (v, r')"
  obtain n r1 where n: "u32_r r = (n, r1)" by (cases "u32_r r")
  have "int (length v) \<le> max 0 (uint n)" using a n take_r_length [of "uint n" r1 v r'] by (simp add: bytes_r_def)
  moreover have "uint n < 2 ^ 32" using uint_lt2p [of n] by simp
  ultimately have "int (length v) < 2 ^ 32" by simp
  then show ?thesis by simp
qed

lemma length_copy_into [simp]: "length (copy_into dst src) = length dst"
  by (simp add: copy_into_def)

lemma packet_ok_decoded:
  assumes "length (pID q) = 32"
  shows "packet_ok (fst (UnmarshalBinary q data))"
proof -
  obtain q' err where u: "UnmarshalBinary q data = (q', err)" by (cases "UnmarshalBinary q data")
  have b: "length (bytes_str v) = length v" for v by (simp add: bytes_str_def)
  from u show ?thesis
    unfolding UnmarshalBinary_def Let_def
    using assms by (simp add: packet_ok_def b split: prod.splits) (auto dest!: bytes_r_length simp: b)
qed
section \<open>Properties\<close>

text \<open>
  C15. Decoding what \<^verbatim>\<open>MarshalBinary\<close> produced gives every field back, with no error, whatever the
  receiving packet held before; bytes after the encoding are ignored.
\<close>

theorem marshal_roundtrip:
  "packet_ok p \<Longrightarrow> length (pID q) = 32 \<Longrightarrow>
   UnmarshalBinary q (MarshalBinary p @ rest) = (p, False)"
  by (rule Unmarshal_Marshal)

definition sample_packet :: packet where
  "sample_packet = zero_packet\<lparr>pType := PacketTypeRelay, pTimestamp := 7, pSourceNode := ''ab'',
     pTotalChunks := 3, pFinal := True, pPayload := [1, 2, 3], pPad := [0, 0]\<rparr>"

lemma packet_ok_sample [simp]: "packet_ok sample_packet"
  by (simp add: packet_ok_def sample_packet_def zero_packet_def)

lemma length_sample_ID [simp]: "length (pID sample_packet) = 32"
  by (simp add: sample_packet_def)

theorem marshal_roundtrip_witness:
  "UnmarshalBinary zero_packet (MarshalBinary sample_packet @ [9]) = (sample_packet, False)"
  by (rule marshal_roundtrip) simp_all

text \<open>
  C16. A frame written by \<^verbatim>\<open>WritePacket\<close> and read by \<^verbatim>\<open>ReadPacket\<close> gives the packet and leaves the
  stream at the next frame when the body is within \<^verbatim>\<open>maxFrameSize\<close>, is refused as malformed when it
  is larger, and a connection cut anywhere inside the frame is an end-of-file error, never a packet.
\<close>

theorem frame_roundtrip:
  assumes "packet_ok p" and "length (MarshalBinary p) < 2 ^ 32"
  shows "ReadPacket (WritePacket p @ rest) =
           (if length (MarshalBinary p) \<le> maxFrameSize then Inr (p, rest)
            else Inl ErrMalformedPacket) \<and>
         (length (MarshalBinary p) \<le> maxFrameSize \<and> n < length (WritePacket p) \<longrightarrow>
            ReadPacket (take n (WritePacket p)) \<in> {Inl EOF, Inl ErrUnexpectedEOF})"
  using ReadPacket_WritePacket [OF assms] ReadPacket_cut by blast

lemma length_Marshal_sample: "length (MarshalBinary sample_packet) = 131"
  by (simp add: MarshalBinary_def appendU32_def appendU64_def appendBytes_def Let_def
      sample_packet_def zero_packet_def)

theorem frame_roundtrip_witness:
  "ReadPacket (WritePacket sample_packet @ [4, 2]) = Inr (sample_packet, [4, 2]) \<and>
   ReadPacket (take 5 (WritePacket sample_packet)) \<in> {Inl EOF, Inl ErrUnexpectedEOF}"
  using frame_roundtrip [of sample_packet "[4, 2]" 5]
  by (simp add: length_Marshal_sample maxFrameSize_def WritePacket_def Let_def)

text \<open>
  C17. Two packets have the same signed bytes exactly when they agree on every field but the
  timestamp, the padding and the signature: no two different headers or payloads encode alike, and
  the timestamp and the padding are not authenticated.
\<close>

theorem signed_bytes_determine_packet:
  assumes "packet_ok p" and "packet_ok q"
  shows "canonicalBytes p = canonicalBytes q \<longleftrightarrow>
         p\<lparr>pTimestamp := 0, pPad := [], pSignature := []\<rparr> =
         q\<lparr>pTimestamp := 0, pPad := [], pSignature := []\<rparr>"
  using canonicalBytes_inj [OF assms] canonicalBytes_signed_view
  unfolding signed_view_def by metis

theorem signed_bytes_determine_packet_witness:
  "canonicalBytes sample_packet = canonicalBytes (sample_packet\<lparr>pTimestamp := 99\<rparr>) \<and>
   canonicalBytes sample_packet \<noteq> canonicalBytes zero_packet"
proof -
  have "packet_ok (sample_packet\<lparr>pTimestamp := 99\<rparr>)"
    by (simp add: packet_ok_def sample_packet_def zero_packet_def)
  moreover have "sample_packet\<lparr>pTimestamp := 0, pPad := [], pSignature := []\<rparr> \<noteq>
      zero_packet\<lparr>pTimestamp := 0, pPad := [], pSignature := []\<rparr>"
    by (simp add: sample_packet_def zero_packet_def)
  ultimately show ?thesis
    by (simp add: signed_bytes_determine_packet)
qed

text \<open>
  A signed packet verifies after it has crossed the wire, and its signer's identifier is the
  one derived from the signing key.
\<close>

lemma sign_survives_wire:
  assumes "signature_scheme ed" and "packet_ok p" and priv: "generated_key ed priv"
  shows "case UnmarshalBinary zero_packet (MarshalBinary (Sign ed priv p)) of
           (q, err) \<Rightarrow> \<not> err \<and> Verify ed q \<and>
              SignerID sha256 q = DeriveNodeID sha256 (edPublic ed priv) \<and>
              pPayload q = pPayload p"
proof -
  have "UnmarshalBinary zero_packet (MarshalBinary (Sign ed priv p)) = (Sign ed priv p, False)"
    using Unmarshal_Marshal [OF packet_ok_Sign [OF assms(1,2)], of zero_packet priv "[]"] by simp
  moreover have "pPayload (Sign ed priv p) = pPayload p"
    by (simp add: Sign_def Let_def)
  ultimately show ?thesis
    using Verify_Sign [OF assms(1) priv] by (simp add: SignerID_def Sign_simps [OF generated_length [OF assms(1) priv]])
qed

definition sample_ed25519 :: ed25519 where
  "sample_ed25519 = \<lparr>edKeyFromSeed = (\<lambda>s. s @ s), edPublic = drop 32, edSign = (\<lambda>k m. drop 32 k @ take 32 (m @ replicate 32 0)),
     edVerify = (\<lambda>pk m s. s = pk @ take 32 (m @ replicate 32 0))\<rparr>"

lemma signature_scheme_sample [simp]: "signature_scheme sample_ed25519"
  by (auto simp: signature_scheme_def sample_ed25519_def generated_key_def)

lemma generated_key_sample [simp]: "generated_key sample_ed25519 (replicate 64 b)"
proof -
  have "replicate 64 b = replicate 32 b @ replicate 32 b" by (simp flip: replicate_add)
  then show ?thesis unfolding generated_key_def by (intro exI [of _ "replicate 32 b"]) (simp add: sample_ed25519_def)
qed

text \<open>
  Whatever bytes arrive, the packet the decoder fills in is well formed: a 32-byte identifier and no field
  longer than a length prefix can say. So what one node decodes and encodes again, the next decodes to the same
  packet.
\<close>

lemma decoded_packet_well_formed:
  "let p = fst (UnmarshalBinary zero_packet data)
   in packet_ok p \<and> UnmarshalBinary zero_packet (MarshalBinary p) = (p, False)"
  using packet_ok_decoded [of zero_packet data] Unmarshal_Marshal [of "fst (UnmarshalBinary zero_packet data)" zero_packet "[]"]
  by (simp add: Let_def)

text \<open>\<^verbatim>\<open>HexID\<close> is the standard lower-case hexadecimal encoding, so identifiers do not collide.\<close>

lemma HexID_injective: "HexID a = HexID b \<longleftrightarrow> a = b"
proof -
  have "HexID i = hex_EncodeToString i" for i
    unfolding HexID_def hex_EncodeToString_def hex_byte_def hex_table_def ..
  then show ?thesis by (simp add: hex_EncodeToString_inject)
qed

end
