(* ===== verification/Announce.thy ===== *)
theory Announce
  imports Packet
begin

text \<open>
  The announce of \<^verbatim>\<open>internal/protocol/announce.go\<close>: a node's signed advertisement, flooded hop by
  hop. The bytes its own signature covers, signing, verification and the check that binds the
  destination hash to the signing key.
\<close>

section \<open>Payloads\<close>

record announcePayload =
  aDestHash :: string
  aSignKey :: bytes
  aPubKey :: bytes
  aMLKEMPub :: bytes
  aPort :: u16
  aCapabilities :: "string list"
  aRelayIDs :: "string list"
  aAppData :: bytes
  aTimestamp :: u64 \<comment> \<open>an int64 in the source; these are its 64 bits\<close>
  aNonce :: u64
  aHopCount :: byte
  aSignature :: bytes

record pathRequestPayload =
  rqDestHash :: string
  rqNonce :: u64
  rqHopCount :: byte

definition announce_ok :: "announcePayload \<Rightarrow> bool" where
  "announce_ok a \<longleftrightarrow> length (aDestHash a) < 2 ^ 32 \<and>
     (\<forall>f \<in> {aSignKey a, aPubKey a, aMLKEMPub a, aAppData a}. length f < 2 ^ 32) \<and>
     length (aCapabilities a) < 2 ^ 32 \<and> length (aRelayIDs a) < 2 ^ 32 \<and>
     (\<forall>s \<in> set (aCapabilities a) \<union> set (aRelayIDs a). length s < 2 ^ 32)"

section \<open>The signed bytes\<close>

definition putLen :: "nat \<Rightarrow> bytes \<Rightarrow> bytes" where
  "putLen n b = b @ put_u32 (word_of_nat n)"

definition putBytes :: "bytes \<Rightarrow> bytes \<Rightarrow> bytes" where
  "putBytes p b = putLen (length p) b @ p"

definition putStr :: "string \<Rightarrow> bytes \<Rightarrow> bytes" where
  "putStr s b = putBytes (str_bytes s) b"

definition signedBytes :: "announcePayload \<Rightarrow> bytes" where
  "signedBytes a =
     (let b = [];
          b = putStr (aDestHash a) b;
          b = putBytes (aSignKey a) b;
          b = putBytes (aPubKey a) b;
          b = putBytes (aMLKEMPub a) b;
          b = b @ put_u16 (aPort a);
          b = putLen (length (aCapabilities a)) b;
          b = fold putStr (aCapabilities a) b;
          b = putBytes (aAppData a) b;
          b = (if length (aRelayIDs a) > 0
               then fold putStr (aRelayIDs a) (putLen (length (aRelayIDs a)) b)
               else b);
          b = b @ put_u64 (aTimestamp a);
          b = b @ put_u64 (aNonce a)
      in b)"

section \<open>Signing and verification\<close>

definition announce_Sign :: "ed25519 \<Rightarrow> bytes \<Rightarrow> announcePayload \<Rightarrow> announcePayload" where
  "announce_Sign ed priv a =
     (if length priv \<noteq> PrivateKeySize then a
      else let a = a\<lparr>aSignKey := edPublic ed priv\<rparr>
           in a\<lparr>aSignature := edSign ed priv (signedBytes a)\<rparr>)"

definition VerifySig :: "ed25519 \<Rightarrow> announcePayload \<Rightarrow> bool" where
  "VerifySig ed a =
     (if length (aSignKey a) \<noteq> PublicKeySize \<or> length (aSignature a) \<noteq> SignatureSize then False
      else edVerify ed (aSignKey a) (signedBytes a) (aSignature a))"

definition VerifyBound :: "ed25519 \<Rightarrow> (bytes \<Rightarrow> bytes) \<Rightarrow> announcePayload \<Rightarrow> bool" where
  "VerifyBound ed sha256 a \<longleftrightarrow>
     aDestHash a \<noteq> [] \<and> DeriveNodeID sha256 (aSignKey a) = aDestHash a \<and> VerifySig ed a"

section \<open>Lemmas\<close>

definition str_fields :: "string list \<Rightarrow> bytes" where
  "str_fields xs = concat (map (\<lambda>s. len_field (str_bytes s)) xs)"

lemma putBytes_field: "putBytes p b = b @ len_field p"
  by (simp add: putBytes_def putLen_def len_field_def u32_len_def)

lemma putStr_field: "putStr s b = b @ len_field (str_bytes s)"
  by (simp add: putStr_def putBytes_field)

lemma fold_putStr: "fold putStr xs b = b @ str_fields xs"
  by (induction xs arbitrary: b) (simp_all add: putStr_field str_fields_def)

definition announce_tail :: "announcePayload \<Rightarrow> bytes" where
  "announce_tail a =
     (if aRelayIDs a = [] then [] else put_u32 (u32_len (aRelayIDs a)) @ str_fields (aRelayIDs a)) @
     put_u64 (aTimestamp a) @ put_u64 (aNonce a)"

lemma signedBytes_fields:
  "signedBytes a = len_field (str_bytes (aDestHash a)) @ len_field (aSignKey a) @
     len_field (aPubKey a) @ len_field (aMLKEMPub a) @ put_u16 (aPort a) @
     put_u32 (u32_len (aCapabilities a)) @ str_fields (aCapabilities a) @
     len_field (aAppData a) @ announce_tail a"
  by (simp add: signedBytes_def Let_def putBytes_field putStr_field fold_putStr putLen_def
      announce_tail_def u32_len_def)

lemma str_fields_tail:
  assumes "\<forall>s \<in> set xs. length s < 2 ^ 32" "\<forall>s \<in> set ys. length s < 2 ^ 32"
    and "length xs = length ys"
  shows "str_fields xs @ a = str_fields ys @ b \<longleftrightarrow> xs = ys \<and> a = b"
  using assms(3,1,2)
  by (induction xs ys rule: list_induct2) (auto simp: str_fields_def wire_inj)

lemma announce_tail_cases:
  assumes "announce_tail a = announce_tail b"
    and "length (aRelayIDs a) < 2 ^ 32" "length (aRelayIDs b) < 2 ^ 32"
    and "\<forall>s \<in> set (aRelayIDs a). length s < 2 ^ 32" "\<forall>s \<in> set (aRelayIDs b). length s < 2 ^ 32"
  shows "aRelayIDs a = aRelayIDs b \<and> aTimestamp a = aTimestamp b \<and> aNonce a = aNonce b"
proof (cases "aRelayIDs a = [] \<longleftrightarrow> aRelayIDs b = []")
  case True
  then show ?thesis
    using assms u32_len_eq_length [OF assms(2,3)] str_fields_tail [OF assms(4,5)]
    by (auto simp: announce_tail_def wire_inj split: if_splits)
next
  case False
  have "length (announce_tail a) = length (announce_tail b)" using assms(1) by simp
  with False show ?thesis by (auto simp: announce_tail_def split: if_splits)
qed

lemma signedBytes_inj:
  assumes "announce_ok a" "announce_ok b" and eq: "signedBytes a = signedBytes b"
  shows "a\<lparr>aHopCount := 0, aSignature := []\<rparr> = b\<lparr>aHopCount := 0, aSignature := []\<rparr>"
proof -
  have caps: "\<forall>s \<in> set (aCapabilities a). length s < 2 ^ 32" "\<forall>s \<in> set (aCapabilities b). length s < 2 ^ 32"
    "length (aCapabilities a) < 2 ^ 32" "length (aCapabilities b) < 2 ^ 32"
    using assms(1,2) by (simp_all add: announce_ok_def)
  have head: "aDestHash a = aDestHash b \<and> aSignKey a = aSignKey b \<and> aPubKey a = aPubKey b \<and>
      aMLKEMPub a = aMLKEMPub b \<and> aPort a = aPort b \<and>
      u32_len (aCapabilities a) = u32_len (aCapabilities b) \<and>
      str_fields (aCapabilities a) @ len_field (aAppData a) @ announce_tail a =
      str_fields (aCapabilities b) @ len_field (aAppData b) @ announce_tail b"
    using assms unfolding signedBytes_fields announce_ok_def by (simp add: wire_inj)
  then have "aCapabilities a = aCapabilities b \<and>
      len_field (aAppData a) @ announce_tail a = len_field (aAppData b) @ announce_tail b"
    using str_fields_tail [OF caps(1,2)] u32_len_eq_length [OF caps(3,4)] by simp
  moreover from this have "aAppData a = aAppData b \<and> announce_tail a = announce_tail b"
    using assms(1,2) by (simp add: announce_ok_def wire_inj)
  ultimately show ?thesis
    using head announce_tail_cases [of a b] assms(1,2)
    by (auto simp: announce_ok_def intro!: announcePayload.equality)
qed

lemma signedBytes_mutable [simp]:
  "signedBytes (a\<lparr>aHopCount := h\<rparr>) = signedBytes a"
  "signedBytes (a\<lparr>aSignature := s\<rparr>) = signedBytes a"
  by (simp_all add: signedBytes_fields announce_tail_def)

lemma VerifyBound_HopCount [simp]: "VerifyBound ed sha (a\<lparr>aHopCount := h\<rparr>) = VerifyBound ed sha a"
  by (simp add: VerifyBound_def VerifySig_def)

lemma VerifyBound_announce_Sign:
  assumes "signature_scheme ed" "generated_key ed priv"
    and "aDestHash a = DeriveNodeID sha256 (edPublic ed priv)" "aDestHash a \<noteq> []"
  shows "VerifyBound ed sha256 (announce_Sign ed priv a)"
  using assms generated_length [OF assms(1,2)]
  by (simp add: VerifyBound_def VerifySig_def announce_Sign_def Let_def PrivateKeySize_def
      PublicKeySize_def SignatureSize_def signature_scheme_def)

section \<open>Properties\<close>

text \<open>
  C18. The bytes an announce signature covers determine every field except the hop count and the
  signature, although the relay list is present only when it is not empty: no announce can be
  reinterpreted as another one with a different key, port, capability or relay list.
\<close>

theorem announce_signed_bytes_unambiguous:
  assumes "announce_ok a" and "announce_ok b"
  shows "signedBytes a = signedBytes b \<longleftrightarrow>
         a\<lparr>aHopCount := 0, aSignature := []\<rparr> = b\<lparr>aHopCount := 0, aSignature := []\<rparr>"
  using signedBytes_inj [OF assms] signedBytes_mutable by metis

definition sample_announce :: announcePayload where
  "sample_announce = \<lparr>aDestHash = ''ab'', aSignKey = replicate 32 1, aPubKey = [2], aMLKEMPub = [],
     aPort = 9000, aCapabilities = [''relay''], aRelayIDs = [''r1''], aAppData = [], aTimestamp = 5,
     aNonce = 6, aHopCount = 0, aSignature = []\<rparr>"

theorem announce_signed_bytes_unambiguous_witness:
  "signedBytes sample_announce = signedBytes (sample_announce\<lparr>aHopCount := 3\<rparr>) \<and>
   signedBytes sample_announce \<noteq> signedBytes (sample_announce\<lparr>aRelayIDs := []\<rparr>)"
proof -
  have ok: "announce_ok sample_announce" "announce_ok (sample_announce\<lparr>aHopCount := 3\<rparr>)"
    "announce_ok (sample_announce\<lparr>aRelayIDs := []\<rparr>)"
    by (simp_all add: announce_ok_def sample_announce_def)
  show ?thesis
    using announce_signed_bytes_unambiguous [OF ok(1,2)] announce_signed_bytes_unambiguous [OF ok(1,3)]
    by (simp add: sample_announce_def)
qed

text \<open>
  C19. A node that announces under its own identifier produces an announce every peer accepts after
  any number of hops; and an announce that \<^verbatim>\<open>VerifyBound\<close> accepts names the identifier derived from
  the key whose signature it carries.
\<close>

theorem announce_bound_to_key:
  assumes "signature_scheme ed" and "generated_key ed priv"
    and "aDestHash a = DeriveNodeID sha256 (edPublic ed priv)"
    and "16 \<le> length (sha256 (edPublic ed priv))"
  shows "VerifyBound ed sha256 ((announce_Sign ed priv a)\<lparr>aHopCount := h\<rparr>) \<and>
         (VerifyBound ed sha256 b \<longrightarrow>
            aDestHash b = hex_EncodeToString (take 16 (sha256 (aSignKey b))) \<and>
            edVerify ed (aSignKey b) (signedBytes b) (aSignature b))"
proof -
  have "length (edPublic ed priv) = 32"
    using assms(1) generated_length [OF assms(1,2)] by (simp add: signature_scheme_def)
  then have "edPublic ed priv \<noteq> []" by auto
  then have "aDestHash a \<noteq> []"
    using assms(3,4) length_hex_EncodeToString [of "take 16 (sha256 (edPublic ed priv))"]
    by (auto simp: DeriveNodeID_def simp del: length_hex_EncodeToString)
  then have "VerifyBound ed sha256 (announce_Sign ed priv a)"
    using VerifyBound_announce_Sign assms by blast
  then show ?thesis
    by (auto simp: VerifyBound_def VerifySig_def DeriveNodeID_def PublicKeySize_def split: if_splits)
qed

theorem announce_bound_to_key_witness:
  "VerifyBound sample_ed25519 id ((announce_Sign sample_ed25519 (replicate 64 5)
     (sample_announce\<lparr>aDestHash := DeriveNodeID id (replicate 32 5)\<rparr>))\<lparr>aHopCount := 4\<rparr>)"
  using announce_bound_to_key [of sample_ed25519 "replicate 64 5"
      "sample_announce\<lparr>aDestHash := DeriveNodeID id (replicate 32 5)\<rparr>" id 4]
  by (simp add: sample_ed25519_def [THEN arg_cong, of edPublic])

end
