(* ===== verification/Fragment.thy ===== *)
theory Fragment
  imports Prelude
begin

text \<open>
  Package \<^verbatim>\<open>internal/fragment\<close>: splitting a payload into chunks, sealing every chunk with its position
  as associated data, and collecting sealed chunks until the payload can be rebuilt
  (\<^verbatim>\<open>fragment.go\<close>); and the erasure-coded form in which any \<^verbatim>\<open>dataShards\<close> of the shards suffice
  (\<^verbatim>\<open>rs.go\<close>).

  A \<^verbatim>\<open>Sealer\<close> is a pair of functions; sealing takes the random bytes it draws as an argument. The
  Reed-Solomon package is a parameter. Both collectors meet one contract, the locale \<open>collector\<close>:
  the first fragment of an index is kept, whatever the order of arrival.
\<close>

section \<open>Fragments\<close>

record fragment =
  fTransferID :: bytes
  fIndex :: u32
  fTotal :: u32
  fPayload :: bytes
  fSubIndex :: u32
  fSubTotal :: u32
  fStreaming :: bool
  fBlockIndex :: u32
  fBlockLen :: u32
  fFinal :: bool

definition mk_fragment :: "bytes \<Rightarrow> u32 \<Rightarrow> u32 \<Rightarrow> bytes \<Rightarrow> fragment" where
  "mk_fragment tid index tot payload = \<lparr>fTransferID = tid, fIndex = index, fTotal = tot,
     fPayload = payload, fSubIndex = 0, fSubTotal = 0, fStreaming = False, fBlockIndex = 0,
     fBlockLen = 0, fFinal = False\<rparr>"

datatype frag_error = ErrNilSealer | ErrChunkSize | ErrIndexRange | ErrTotalMismatch | ErrIncomplete
  | ErrSealing nat | ErrOpening nat | ErrShardCount | ErrShortData | ErrTooFewShards
  | ErrNewEncoder | ErrRSSplit | ErrRSEncode | ErrRSReconstruct | ErrRSJoin

record sealer =
  sSeal :: "bytes \<Rightarrow> bytes \<Rightarrow> bytes \<Rightarrow> bytes option" \<comment> \<open>randomness, plaintext, associated data\<close>
  sOpen :: "bytes \<Rightarrow> bytes \<Rightarrow> bytes option" \<comment> \<open>ciphertext, associated data\<close>

section \<open>Plain chunking\<close>

text \<open>The loop of \<^verbatim>\<open>Split\<close>; it is entered with a positive chunk size only.\<close>

function Split_loop :: "bytes \<Rightarrow> nat \<Rightarrow> nat \<Rightarrow> bytes list" where
  "Split_loop data chunkSize i =
     (if i < length data \<and> 0 < chunkSize
      then let e = i + chunkSize;
               e = (if e > length data then length data else e)
           in take (e - i) (drop i data) # Split_loop data chunkSize (i + chunkSize)
      else [])"
  by pat_completeness auto

termination
  by (relation "measure (\<lambda>(d, c, i). length d - i)") auto

declare Split_loop.simps [simp del]

definition Split :: "bytes \<Rightarrow> int \<Rightarrow> bytes list" where
  "Split data chunkSize =
     (if chunkSize \<le> 0 \<or> length data = 0 then [] else Split_loop data (nat chunkSize) 0)"

definition Join :: "bytes list \<Rightarrow> bytes" where
  "Join chunks = fold (\<lambda>c out. out @ c) chunks []"

definition aad :: "bytes \<Rightarrow> u32 \<Rightarrow> u32 \<Rightarrow> bytes" where
  "aad transferID index tot = (transferID @ put_u32 index) @ put_u32 tot"

section \<open>The sealed pipeline\<close>

record fragmenter =
  fmSealer :: sealer
  fmChunkSize :: int

definition NewFragmenter :: "sealer option \<Rightarrow> int \<Rightarrow> frag_error + fragmenter" where
  "NewFragmenter so chunkSize =
     (case so of
        None \<Rightarrow> Inl ErrNilSealer
      | Some s \<Rightarrow> if chunkSize \<le> 0 then Inl ErrChunkSize
                  else Inr \<lparr>fmSealer = s, fmChunkSize = chunkSize\<rparr>)"

text \<open>The sealing loop shared by both fragmenters; \<open>rnd i\<close> is what the i-th seal draws.\<close>

fun seal_loop :: "sealer \<Rightarrow> (nat \<Rightarrow> bytes) \<Rightarrow> bytes \<Rightarrow> u32 \<Rightarrow> nat \<Rightarrow> bytes list \<Rightarrow> frag_error + fragment list" where
  "seal_loop s rnd tid tot i [] = Inr []"
| "seal_loop s rnd tid tot i (chunk # chunks) =
     (let index = word_of_nat i in
      case sSeal s (rnd i) chunk (aad tid index tot) of
        None \<Rightarrow> Inl (ErrSealing i)
      | Some sealed \<Rightarrow>
          (case seal_loop s rnd tid tot (Suc i) chunks of
             Inl e \<Rightarrow> Inl e
           | Inr frags \<Rightarrow> Inr (mk_fragment tid index tot sealed # frags)))"

definition Fragmenter_Fragment :: "fragmenter \<Rightarrow> (nat \<Rightarrow> bytes) \<Rightarrow> bytes \<Rightarrow> bytes \<Rightarrow> frag_error + fragment list" where
  "Fragmenter_Fragment f rnd tid data =
     (let chunks = Split data (fmChunkSize f); tot = u32_len chunks
      in seal_loop (fmSealer f) rnd tid tot 0 chunks)"

record reassembler =
  rsSealer :: sealer
  rsTotal :: u32
  rsParts :: "(u32, fragment) gomap"

definition NewReassembler :: "sealer \<Rightarrow> u32 \<Rightarrow> reassembler" where
  "NewReassembler s tot = \<lparr>rsSealer = s, rsTotal = tot, rsParts = []\<rparr>"

definition Add :: "reassembler \<Rightarrow> fragment \<Rightarrow> reassembler \<times> frag_error option" where
  "Add r fr =
     (if fTotal fr \<noteq> rsTotal r then (r, Some ErrTotalMismatch)
      else if fIndex fr \<ge> rsTotal r then (r, Some ErrIndexRange)
      else case gget (rsParts r) (fIndex fr) of
             Some _ \<Rightarrow> (r, None)
           | None \<Rightarrow> (r\<lparr>rsParts := gput (fIndex fr) fr (rsParts r)\<rparr>, None))"

definition Complete :: "reassembler \<Rightarrow> bool" where
  "Complete r \<longleftrightarrow> word_of_nat (length (rsParts r)) = rsTotal r"

text \<open>\<^verbatim>\<open>r.parts[i]\<close> of a missing index is the zero fragment.\<close>

definition Assemble_open :: "reassembler \<Rightarrow> bytes \<Rightarrow> nat \<Rightarrow> bytes option" where
  "Assemble_open r tid i =
     (let payload = (case gget (rsParts r) (word_of_nat i) of Some fr \<Rightarrow> fPayload fr | None \<Rightarrow> [])
      in sOpen (rsSealer r) payload (aad tid (word_of_nat i) (rsTotal r)))"

fun Assemble_loop :: "reassembler \<Rightarrow> bytes \<Rightarrow> nat list \<Rightarrow> frag_error + bytes list" where
  "Assemble_loop r tid [] = Inr []"
| "Assemble_loop r tid (i # is) =
     (case Assemble_open r tid i of
        None \<Rightarrow> Inl (ErrOpening i)
      | Some plain \<Rightarrow> (case Assemble_loop r tid is of Inl e \<Rightarrow> Inl e | Inr ps \<Rightarrow> Inr (plain # ps)))"

definition Assemble :: "reassembler \<Rightarrow> bytes \<Rightarrow> frag_error + bytes" where
  "Assemble r tid =
     (if \<not> Complete r then Inl ErrIncomplete
      else case Assemble_loop r tid [0..<unat (rsTotal r)] of
             Inl e \<Rightarrow> Inl e
           | Inr chunks \<Rightarrow> Inr (Join chunks))"

section \<open>The erasure-coded pipeline\<close>

text \<open>
  What \<^verbatim>\<open>rs.go\<close> calls of the Reed-Solomon package, for a number of data and parity shards: whether
  the constructor accepts them, \<^verbatim>\<open>Split\<close>, \<^verbatim>\<open>Encode\<close>, \<^verbatim>\<open>Reconstruct\<close> (an empty shard is a missing one)
  and \<^verbatim>\<open>Join\<close>.
\<close>

record reedsolomon =
  rdNew :: "int \<Rightarrow> int \<Rightarrow> bool"
  rdSplit :: "int \<Rightarrow> int \<Rightarrow> bytes \<Rightarrow> bytes list option"
  rdEncode :: "int \<Rightarrow> int \<Rightarrow> bytes list \<Rightarrow> bytes list option"
  rdReconstruct :: "int \<Rightarrow> int \<Rightarrow> bytes list \<Rightarrow> bytes list option"
  rdJoin :: "int \<Rightarrow> int \<Rightarrow> bytes list \<Rightarrow> int \<Rightarrow> bytes option"

record rsFragmenter =
  rfSealer :: sealer
  rfData :: int
  rfParity :: int

definition NewRSFragmenter :: "sealer option \<Rightarrow> int \<Rightarrow> int \<Rightarrow> frag_error + rsFragmenter" where
  "NewRSFragmenter so dataShards parityShards =
     (case so of
        None \<Rightarrow> Inl ErrNilSealer
      | Some s \<Rightarrow> if dataShards \<le> 0 \<or> parityShards \<le> 0 then Inl ErrShardCount
                  else Inr \<lparr>rfSealer = s, rfData = dataShards, rfParity = parityShards\<rparr>)"

definition RSFragmenter_Fragment ::
  "reedsolomon \<Rightarrow> rsFragmenter \<Rightarrow> (nat \<Rightarrow> bytes) \<Rightarrow> bytes \<Rightarrow> bytes \<Rightarrow> frag_error + fragment list \<times> int" where
  "RSFragmenter_Fragment rs f rnd tid data =
     (if int (length data) < rfData f then Inl ErrShortData
      else if \<not> rdNew rs (rfData f) (rfParity f) then Inl ErrNewEncoder
      else case rdSplit rs (rfData f) (rfParity f) data of
             None \<Rightarrow> Inl ErrRSSplit
           | Some shards \<Rightarrow>
               (case rdEncode rs (rfData f) (rfParity f) shards of
                  None \<Rightarrow> Inl ErrRSEncode
                | Some shards \<Rightarrow>
                    (case seal_loop (rfSealer f) rnd tid (u32_len shards) 0 shards of
                       Inl e \<Rightarrow> Inl e
                     | Inr frags \<Rightarrow> Inr (frags, int (length data)))))"

record rsReassembler =
  rrSealer :: sealer
  rrData :: int
  rrParity :: int
  rrOriginalLen :: int
  rrTotal :: u32
  rrParts :: "(u32, bytes) gomap"

definition NewRSReassembler :: "sealer \<Rightarrow> int \<Rightarrow> int \<Rightarrow> int \<Rightarrow> rsReassembler" where
  "NewRSReassembler s dataShards parityShards originalLen =
     \<lparr>rrSealer = s, rrData = dataShards, rrParity = parityShards, rrOriginalLen = originalLen,
      rrTotal = word_of_int (dataShards + parityShards), rrParts = []\<rparr>"

definition RS_Add :: "rsReassembler \<Rightarrow> fragment \<Rightarrow> rsReassembler \<times> frag_error option" where
  "RS_Add r fr =
     (if fTotal fr \<noteq> rrTotal r then (r, Some ErrTotalMismatch)
      else if fIndex fr \<ge> rrTotal r then (r, Some ErrIndexRange)
      else case gget (rrParts r) (fIndex fr) of
             Some _ \<Rightarrow> (r, None)
           | None \<Rightarrow> (r\<lparr>rrParts := gput (fIndex fr) (fPayload fr) (rrParts r)\<rparr>, None))"

definition Count :: "rsReassembler \<Rightarrow> nat" where
  "Count r = length (rrParts r)"

definition Enough :: "rsReassembler \<Rightarrow> bool" where
  "Enough r \<longleftrightarrow> int (length (rrParts r)) \<ge> rrData r"

text \<open>One round of the opening loop: \<^verbatim>\<open>Some plain\<close> where the shard is present and opens.\<close>

definition Reconstruct_open :: "rsReassembler \<Rightarrow> bytes \<Rightarrow> nat \<Rightarrow> bytes option" where
  "Reconstruct_open r tid i =
     (case gget (rrParts r) (word_of_nat i) of
        None \<Rightarrow> None
      | Some sealed \<Rightarrow> sOpen (rrSealer r) sealed (aad tid (word_of_nat i) (rrTotal r)))"

definition Reconstruct :: "reedsolomon \<Rightarrow> rsReassembler \<Rightarrow> bytes \<Rightarrow> frag_error + bytes" where
  "Reconstruct rs r tid =
     (if \<not> rdNew rs (rrData r) (rrParity r) then Inl ErrNewEncoder
      else let opened = map (Reconstruct_open r tid) [0..<unat (rrTotal r)];
               valid = length (filter (\<lambda>p. p \<noteq> None) opened);
               shards = map (\<lambda>p. case p of Some plain \<Rightarrow> plain | None \<Rightarrow> []) opened
           in if int valid < rrData r then Inl ErrTooFewShards
              else case rdReconstruct rs (rrData r) (rrParity r) shards of
                     None \<Rightarrow> Inl ErrRSReconstruct
                   | Some shards \<Rightarrow>
                       (case rdJoin rs (rrData r) (rrParity r) shards (rrOriginalLen r) of
                          None \<Rightarrow> Inl ErrRSJoin
                        | Some out \<Rightarrow> Inr out))"

section \<open>The collector contract\<close>

locale collector =
  fixes add :: "'r \<Rightarrow> fragment \<Rightarrow> 'r \<times> frag_error option"
    and parts :: "'r \<Rightarrow> (u32, 'v) gomap"
    and tot :: "'r \<Rightarrow> u32"
    and keep :: "fragment \<Rightarrow> 'v"
  assumes add_error: "fTotal fr \<noteq> tot r \<or> \<not> fIndex fr < tot r \<Longrightarrow>
        fst (add r fr) = r \<and> snd (add r fr) \<noteq> None"
    and add_parts: "fTotal fr = tot r \<Longrightarrow> fIndex fr < tot r \<Longrightarrow>
        snd (add r fr) = None \<and>
        parts (fst (add r fr)) =
          (if gget (parts r) (fIndex fr) = None then gput (fIndex fr) (keep fr) (parts r) else parts r)"
    and add_total: "tot (fst (add r fr)) = tot r"
begin

definition add_all :: "'r \<Rightarrow> fragment list \<Rightarrow> 'r" where
  "add_all r frs = fold (\<lambda>fr r. fst (add r fr)) frs r"

definition fits :: "'r \<Rightarrow> fragment \<Rightarrow> bool" where
  "fits r fr \<longleftrightarrow> fTotal fr = tot r \<and> fIndex fr < tot r"

definition inv :: "'r \<Rightarrow> bool" where
  "inv r \<longleftrightarrow> gmap_ok (parts r) \<and> (\<forall>i \<in> fst ` set (parts r). i < tot r)"

lemma parts_add:
  "parts (fst (add r fr)) = (if fits r fr \<and> gget (parts r) (fIndex fr) = None
     then gput (fIndex fr) (keep fr) (parts r) else parts r)"
  using add_error [of fr r] add_parts [of fr r] by (cases "fits r fr") (auto simp: fits_def)

lemma add_lookup:
  "gget (parts (fst (add r fr))) i =
     (case gget (parts r) i of Some v \<Rightarrow> Some v
      | None \<Rightarrow> if fits r fr \<and> fIndex fr = i then Some (keep fr) else None)"
  by (auto simp: parts_add split: option.split)

lemma add_inv: "inv r \<Longrightarrow> inv (fst (add r fr))"
  using set_gput_subset [of "fIndex fr" "keep fr" "parts r"]
  by (fastforce simp: inv_def fits_def parts_add add_total)

lemma add_all_simps:
  "add_all r [] = r" "add_all r (fr # frs) = add_all (fst (add r fr)) frs"
  by (simp_all add: add_all_def)

lemma add_all_total: "tot (add_all r frs) = tot r"
  by (induction frs arbitrary: r) (simp_all add: add_all_simps add_total)

lemma add_all_inv: "inv r \<Longrightarrow> inv (add_all r frs)"
  by (induction frs arbitrary: r) (simp_all add: add_all_simps add_inv)

lemma add_all_lookup:
  "gget (parts (add_all r frs)) i =
     (case gget (parts r) i of Some v \<Rightarrow> Some v
      | None \<Rightarrow> map_option keep (find (\<lambda>fr. fits r fr \<and> fIndex fr = i) frs))"
proof (induction frs arbitrary: r)
  case (Cons fr frs)
  have "fits (fst (add r fr)) = fits r"
    by (simp add: fits_def add_total fun_eq_iff)
  then show ?case
    by (simp add: add_all_simps Cons.IH add_lookup split: option.split)
qed (simp add: add_all_simps split: option.split)

lemma lookup_determined:
  assumes "parts r = []" and "fr \<in> set frs" "fits r fr" "fIndex fr = i"
    and "\<And>x. x \<in> set frs \<Longrightarrow> fits r x \<Longrightarrow> fIndex x = i \<Longrightarrow> keep x = v"
  shows "gget (parts (add_all r frs)) i = Some v"
proof -
  obtain x where x: "find (\<lambda>fr. fits r fr \<and> fIndex fr = i) frs = Some x"
    using assms(2-4) by (metis (mono_tags, lifting) find_None_iff option.exhaust)
  then have "x \<in> set frs" "fits r x" "fIndex x = i"
    by (auto simp: find_Some_iff in_set_conv_nth)
  then show ?thesis using assms(1,5) x by (simp add: add_all_lookup)
qed

text \<open>A collector is full exactly when every index below the total is present.\<close>

lemma keys_below: "inv r \<Longrightarrow> unat ` fst ` set (parts r) \<subseteq> {..<unat (tot r)}"
  by (auto simp: inv_def word_less_nat_alt)

lemma card_keys: "inv r \<Longrightarrow> card (unat ` fst ` set (parts r)) = length (parts r)"
proof -
  assume "inv r"
  then have "card (fst ` set (parts r)) = length (parts r)"
    using distinct_card [of "map fst (parts r)"] by (simp add: inv_def gmap_ok_def)
  moreover have "inj_on unat (fst ` set (parts r))" by (simp add: inj_on_def word_unat_eq_iff)
  ultimately show ?thesis by (simp add: card_image)
qed

lemma length_parts: "inv r \<Longrightarrow> length (parts r) \<le> unat (tot r)"
  using card_mono [OF _ keys_below] card_keys by fastforce

lemma full_iff:
  assumes "inv r"
  shows "length (parts r) = unat (tot r) \<longleftrightarrow>
         (\<forall>i < unat (tot r). gget (parts r) (word_of_nat i) \<noteq> None)"
proof -
  let ?K = "unat ` fst ` set (parts r)"
  have in_K: "i \<in> ?K \<longleftrightarrow> gget (parts r) (word_of_nat i) \<noteq> None" if "i < unat (tot r)" for i
  proof -
    have "unat (word_of_nat i :: u32) = i"
      using that by (rule unat_u32_below)
    then show ?thesis
      by (auto simp: gget_None_iff image_iff word_unat_eq_iff)
  qed
  have "length (parts r) = unat (tot r) \<longleftrightarrow> ?K = {..<unat (tot r)}"
    using card_keys [OF assms] card_subset_eq [OF _ keys_below [OF assms]] by auto
  also have "\<dots> \<longleftrightarrow> (\<forall>i < unat (tot r). i \<in> ?K)"
    using keys_below [OF assms] by auto
  finally show ?thesis using in_K by auto
qed

end

interpretation ra: collector Add rsParts rsTotal "\<lambda>fr. fr"
  by unfold_locales (auto simp: Add_def split: option.split)

interpretation rr: collector RS_Add rrParts rrTotal fPayload
  by unfold_locales (auto simp: RS_Add_def split: option.split)

section \<open>Lemmas\<close>

lemma Join_concat: "Join chunks = concat chunks"
proof -
  have "fold (\<lambda>c out. out @ c) chunks acc = acc @ concat chunks" for acc
    by (induction chunks arbitrary: acc) simp_all
  then show ?thesis by (simp add: Join_def)
qed

lemma concat_Split_loop: "0 < c \<Longrightarrow> concat (Split_loop d c i) = drop i d"
proof (induction d c i rule: Split_loop.induct)
  case (1 d c i)
  show ?case
  proof (cases "i < length d")
    case True
    then have "take (min (i + c) (length d) - i) (drop i d) @ drop (i + c) d = drop i d"
      by (cases "i + c \<le> length d") (simp_all add: min_def add.commute flip: drop_drop)
    with True 1 show ?thesis
      by (simp add: Split_loop.simps [of d c i] Let_def min_def split: if_splits)
  qed (simp add: Split_loop.simps)
qed

lemma Split_loop_chunks: "x \<in> set (Split_loop d c i) \<Longrightarrow> x \<noteq> [] \<and> length x \<le> c"
  by (induction d c i rule: Split_loop.induct)
    (subst (asm) (2) Split_loop.simps, auto simp: Let_def split: if_splits)

lemma length_Split_loop: "0 < c \<Longrightarrow> length (Split_loop d c i) = (length d - i + c - 1) div c"
proof (induction d c i rule: Split_loop.induct)
  case (1 d c i)
  consider "length d \<le> i" | "i < length d" "length d \<le> i + c" | "i + c < length d"
    by linarith
  then show ?case
  proof cases
    case 1
    then show ?thesis using "1.prems" by (simp add: Split_loop.simps)
  next
    case 2
    then have "(length d - i + c - 1) div c = 1" by (intro div_nat_eqI) simp_all
    with 2 show ?thesis using 1 by (simp add: Split_loop.simps [of d c i] Let_def)
  next
    case 3
    then have "length d - i + c - 1 = c + (length d - (i + c) + c - 1)" by simp
    then have "(length d - i + c - 1) div c = Suc ((length d - (i + c) + c - 1) div c)"
      using "1.prems" by (simp only: div_add_self1)
    with 3 show ?thesis using 1 by (simp add: Split_loop.simps [of d c i] Let_def)
  qed
qed

lemma Join_Split: "0 < n \<Longrightarrow> Join (Split d n) = d"
  by (simp add: Join_concat Split_def concat_Split_loop)

lemma aad_inject:
  "length t = 32 \<Longrightarrow> length u = 32 \<Longrightarrow> aad t i n = aad u j m \<longleftrightarrow> t = u \<and> i = j \<and> n = m"
  by (auto simp: aad_def wire_inj)

text \<open>A sealer opens what it sealed, under the same associated data.\<close>

definition sealer_law :: "sealer \<Rightarrow> bool" where
  "sealer_law s \<longleftrightarrow> (\<forall>r p ad c. sSeal s r p ad = Some c \<longrightarrow> sOpen s c ad = Some p)"

lemma seal_loop_nth:
  "seal_loop s rnd tid n i chunks = Inr frags \<Longrightarrow>
   length frags = length chunks \<and>
   (\<forall>j < length chunks. \<exists>ct. sSeal s (rnd (i + j)) (chunks ! j) (aad tid (word_of_nat (i + j)) n) = Some ct \<and>
      frags ! j = mk_fragment tid (word_of_nat (i + j)) n ct)"
proof (induction chunks arbitrary: i frags)
  case (Cons c cs)
  then obtain ct fs where ct: "sSeal s (rnd i) c (aad tid (word_of_nat i) n) = Some ct"
    and fs: "seal_loop s rnd tid n (Suc i) cs = Inr fs"
    and frags: "frags = mk_fragment tid (word_of_nat i) n ct # fs"
    by (auto simp: Let_def split: option.splits sum.splits)
  show ?case
  proof (intro conjI allI impI)
    fix j assume "j < length (c # cs)"
    then show "\<exists>ct. sSeal s (rnd (i + j)) ((c # cs) ! j) (aad tid (word_of_nat (i + j)) n) = Some ct \<and>
        frags ! j = mk_fragment tid (word_of_nat (i + j)) n ct"
      using Cons.IH [OF fs] ct frags by (cases j) (auto simp: add.commute)
  qed (use Cons.IH [OF fs] frags in simp)
qed simp

text \<open>What both reassemblers use of a sealed sequence: the fragment at a position opens there.\<close>

lemma sealed_position:
  assumes "sealer_law s" "seal_loop s rnd tid n 0 chunks = Inr frags" "length chunks < 2 ^ 32"
    and "fr \<in> set frags"
  shows "\<exists>j < length chunks. fr = frags ! j \<and> unat (fIndex fr) = j \<and> fTotal fr = n \<and>
           sOpen s (fPayload fr) (aad tid (fIndex fr) n) = Some (chunks ! j)"
proof -
  note nth = seal_loop_nth [OF assms(2), simplified]
  obtain j where j: "j < length chunks" "fr = frags ! j"
    using assms(4) nth by (metis in_set_conv_nth)
  then obtain ct where "sSeal s (rnd j) (chunks ! j) (aad tid (word_of_nat j) n) = Some ct"
    "fr = mk_fragment tid (word_of_nat j) n ct" using nth by blast
  then show ?thesis
    using j assms(1,3) by (intro exI [of _ j]) (auto simp: sealer_law_def mk_fragment_def)
qed

lemma sealed_index:
  assumes "sealer_law s" "seal_loop s rnd tid n 0 chunks = Inr frags" "length chunks < 2 ^ 32"
    and "fr \<in> set frags" "fIndex fr = word_of_nat i" "i < length chunks"
  shows "fr = frags ! i \<and> fTotal fr = n \<and> sOpen s (fPayload fr) (aad tid (word_of_nat i) n) = Some (chunks ! i)"
  using sealed_position [OF assms(1-4)] assms(3,5,6) by auto

lemma sealed_nth_index:
  assumes "seal_loop s rnd tid n 0 chunks = Inr frags" "i < length chunks"
  shows "frags ! i \<in> set frags \<and> fIndex (frags ! i) = word_of_nat i \<and> fTotal (frags ! i) = n"
  using seal_loop_nth [OF assms(1)] assms(2) by (auto simp: mk_fragment_def)

lemma Assemble_loop_Inr:
  "Assemble_loop r tid js = Inr ps \<longleftrightarrow> map (Assemble_open r tid) js = map Some ps"
proof (induction js arbitrary: ps)
  case (Cons j js)
  show ?case
    by (cases "Assemble_open r tid j"; cases "Assemble_loop r tid js"; cases ps)
      (auto simp flip: Cons.IH)
qed auto

lemma Complete_iff:
  assumes "ra.inv r"
  shows "Complete r \<longleftrightarrow> length (rsParts r) = unat (rsTotal r)"
proof -
  have "unat (rsTotal r) < 2 ^ 32" using unsigned_less [of "rsTotal r"] by simp
  then have "unat (word_of_nat (length (rsParts r)) :: u32) = length (rsParts r)"
    using ra.length_parts [OF assms] by simp
  then show ?thesis by (simp add: Complete_def word_unat_eq_iff)
qed

lemma inv_NewReassembler [simp]: "ra.inv (NewReassembler s n)"
  by (simp add: ra.inv_def NewReassembler_def)

lemma add_all_sealer [simp]: "rsSealer (ra.add_all r frs) = rsSealer r"
proof (induction frs arbitrary: r)
  case (Cons fr frs)
  have "rsSealer (fst (Add r fr)) = rsSealer r" by (simp add: Add_def split: option.split)
  with Cons show ?case by (simp add: ra.add_all_simps)
qed (simp add: ra.add_all_simps)

lemma reassemble_any_order:
  assumes "sealer_law s" "seal_loop s rnd tid (u32_len chunks) 0 chunks = Inr frags"
    and small: "length chunks < 2 ^ 32" and frs: "set frs = set frags"
  shows "Assemble (ra.add_all (NewReassembler s (u32_len chunks)) frs) tid = Inr (concat chunks)"
proof -
  let ?n = "u32_len chunks" and ?r = "ra.add_all (NewReassembler s (u32_len chunks)) frs"
  have n: "unat ?n = length chunks" using small by (rule unat_u32_len)
  have tot: "rsTotal ?r = ?n" by (simp add: ra.add_all_total NewReassembler_def)
  have at: "gget (rsParts ?r) (word_of_nat i) = Some (frags ! i)" if i: "i < length chunks" for i
  proof (rule ra.lookup_determined [where fr = "frags ! i"])
    show "frags ! i \<in> set frs" "fIndex (frags ! i) = word_of_nat i"
      using sealed_nth_index [OF assms(2) i] frs by simp_all
    show "ra.fits (NewReassembler s ?n) (frags ! i)"
      using sealed_nth_index [OF assms(2) i] i n small
      by (simp add: ra.fits_def NewReassembler_def word_less_nat_alt)
  next
    fix x assume "x \<in> set frs" "fIndex x = word_of_nat i"
    then show "x = frags ! i" using sealed_index [OF assms(1-3)] frs i by blast
  qed (simp add: NewReassembler_def)
  have "Complete ?r"
    using at ra.full_iff [of ?r] Complete_iff [of ?r] by (simp add: ra.add_all_inv tot n)
  moreover have "Assemble_open ?r tid i = Some (chunks ! i)" if i: "i < length chunks" for i
  proof -
    have "sOpen s (fPayload (frags ! i)) (aad tid (word_of_nat i) ?n) = Some (chunks ! i)"
      using sealed_index [OF assms(1-3) _ _ i] sealed_nth_index [OF assms(2) i] by blast
    moreover have "rsSealer ?r = s" by (simp add: NewReassembler_def)
    ultimately show ?thesis by (simp add: Assemble_open_def at [OF i] tot)
  qed
  then have "Assemble_loop ?r tid [0..<length chunks] = Inr chunks"
    unfolding Assemble_loop_Inr by (intro nth_equalityI) simp_all
  ultimately show ?thesis by (simp add: Assemble_def tot n Join_concat)
qed

text \<open>
  What a sender has sealed: for every transfer it sent, with the data and the random bytes drawn for it, the payload of every
  fragment together with the associated data of its position.
\<close>

definition sealed_log :: "fragmenter \<Rightarrow> (bytes \<rightharpoonup> bytes \<times> (nat \<Rightarrow> bytes)) \<Rightarrow> (bytes \<times> bytes) set" where
  "sealed_log f sent = {(fPayload fr, aad (fTransferID fr) (fIndex fr) (fTotal fr)) | fr.
     \<exists>t d rnd frags. sent t = Some (d, rnd) \<and> Fragmenter_Fragment f rnd t d = Inr frags \<and> fr \<in> set frags}"

lemma sealed_logD:
  assumes "sealer_law (fmSealer f)" and "(c, ad) \<in> sealed_log f sent"
    and "\<And>t d rnd. sent t = Some (d, rnd) \<Longrightarrow> length (Split d (fmChunkSize f)) < 2 ^ 32"
  obtains t d rnd j where "sent t = Some (d, rnd)" "j < length (Split d (fmChunkSize f))"
    "ad = aad t (word_of_nat j) (u32_len (Split d (fmChunkSize f)))" "sOpen (fmSealer f) c ad = Some (Split d (fmChunkSize f) ! j)"
proof -
  obtain t d rnd frags fr where t: "sent t = Some (d, rnd)" "Fragmenter_Fragment f rnd t d = Inr frags" "fr \<in> set frags"
    "c = fPayload fr" "ad = aad (fTransferID fr) (fIndex fr) (fTotal fr)"
    using assms(2) by (auto simp: sealed_log_def)
  let ?cs = "Split d (fmChunkSize f)"
  have loop: "seal_loop (fmSealer f) rnd t (u32_len ?cs) 0 ?cs = Inr frags" using t(2) by (simp add: Fragmenter_Fragment_def Let_def)
  note nth = seal_loop_nth [OF loop, simplified]
  obtain j where j: "j < length ?cs" "fr = frags ! j" "unat (fIndex fr) = j" "fTotal fr = u32_len ?cs"
    "sOpen (fmSealer f) (fPayload fr) (aad t (fIndex fr) (u32_len ?cs)) = Some (?cs ! j)"
    using sealed_position [OF assms(1) loop assms(3) [OF t(1)] t(3)] by blast
  have "fTransferID fr = t" using nth j(1,2) by (auto simp: mk_fragment_def)
  moreover have "fIndex fr = word_of_nat j" using j(3) [symmetric] by simp
  ultimately show ?thesis using that [of t d rnd j] t j by simp
qed

lemma held_arrived:
  assumes "gget (rsParts (ra.add_all (NewReassembler s tot) frs)) i = Some fr"
  shows "fr \<in> set frs"
  using assms by (auto simp: ra.add_all_lookup NewReassembler_def find_Some_iff)

lemma Assemble_authentic:
  assumes law: "sealer_law (fmSealer f)" and n: "0 < fmChunkSize f"
    and sent: "\<And>t d rnd. sent t = Some (d, rnd) \<Longrightarrow> length t = 32 \<and> length (Split d (fmChunkSize f)) < 2 ^ 32"
    and auth: "\<And>fr i p. fr \<in> set frs \<Longrightarrow> sOpen (fmSealer f) (fPayload fr) (aad tid i tot) = Some p \<Longrightarrow>
        (fPayload fr, aad tid i tot) \<in> sealed_log f sent"
    and "tot \<noteq> 0" "length tid = 32" and out: "Assemble (ra.add_all (NewReassembler (fmSealer f) tot) frs) tid = Inr out"
  shows "\<exists>rnd. sent tid = Some (out, rnd)"
proof -
  let ?r = "ra.add_all (NewReassembler (fmSealer f) tot) frs"
  have cfg: "rsTotal ?r = tot" "rsSealer ?r = fmSealer f" by (simp_all add: ra.add_all_total NewReassembler_def)
  have inv: "ra.inv ?r" by (simp add: ra.add_all_inv)
  obtain ps where loop: "Assemble_loop ?r tid [0..<unat tot] = Inr ps" and ps: "out = Join ps" and "Complete ?r"
    using out cfg by (auto simp: Assemble_def split: if_splits sum.splits)
  have opened: "map (Assemble_open ?r tid) [0..<unat tot] = map Some ps" using loop by (simp add: Assemble_loop_Inr)
  then have len: "length ps = unat tot" by (metis length_map length_upt diff_zero)
  have at: "\<exists>d rnd. sent tid = Some (d, rnd) \<and> length (Split d (fmChunkSize f)) = length ps \<and> ps ! i = Split d (fmChunkSize f) ! i"
    if i: "i < length ps" for i
  proof -
    have "gget (rsParts ?r) (word_of_nat i) \<noteq> None"
      using \<open>Complete ?r\<close> ra.full_iff [OF inv] Complete_iff [OF inv] i len cfg(1) by simp
    then obtain fr where fr: "gget (rsParts ?r) (word_of_nat i) = Some fr" by blast
    have "Assemble_open ?r tid i = Some (ps ! i)" using arg_cong [OF opened, of "\<lambda>l. l ! i"] i len by simp
    then have o: "sOpen (fmSealer f) (fPayload fr) (aad tid (word_of_nat i) tot) = Some (ps ! i)"
      by (simp only: Assemble_open_def Let_def fr option.case cfg)
    obtain t d rnd j where t: "sent t = Some (d, rnd)" "j < length (Split d (fmChunkSize f))"
      "aad tid (word_of_nat i) tot = aad t (word_of_nat j) (u32_len (Split d (fmChunkSize f)))"
      "sOpen (fmSealer f) (fPayload fr) (aad tid (word_of_nat i) tot) = Some (Split d (fmChunkSize f) ! j)"
      using sealed_logD [OF law auth [OF held_arrived [OF fr] o]] sent by metis
    have eq: "t = tid" "(word_of_nat i :: u32) = word_of_nat j" "tot = u32_len (Split d (fmChunkSize f))"
      using t(3) sent [OF t(1)] assms(6) by (auto simp: aad_inject)
    have "unat tot = length (Split d (fmChunkSize f))" using eq(3) sent [OF t(1)] by (simp add: unat_u32_len)
    moreover from this have "i = j" using eq(2) sent [OF t(1)] t(2) i len by (metis unat_u32_of_nat order_less_trans)
    ultimately show ?thesis using t(1,4) o eq(1) len by auto
  qed
  have "0 < length ps" using len assms(5) by (simp add: unat_gt_0)
  then obtain d rnd where d: "sent tid = Some (d, rnd)" "length (Split d (fmChunkSize f)) = length ps" using at by blast
  then have "ps = Split d (fmChunkSize f)" using at by (intro nth_equalityI) auto
  then show ?thesis using d(1) ps n by (simp add: Join_Split)
qed

text \<open>
  What the Reed-Solomon package documents for k data and m parity shards: splitting and encoding
  gives k + m non-empty shards; from any k of them, the others empty, reconstruction gives all of
  them; joining gives as many bytes of the data as are asked for.
\<close>

definition rs_joins :: "reedsolomon \<Rightarrow> int \<Rightarrow> int \<Rightarrow> bytes list \<Rightarrow> bytes \<Rightarrow> bool" where
  "rs_joins rs k m shards data \<longleftrightarrow> (\<forall>n \<le> length data. rdJoin rs k m shards (int n) = Some (take n data))"

definition rs_law :: "reedsolomon \<Rightarrow> int \<Rightarrow> int \<Rightarrow> bool" where
  "rs_law rs k m \<longleftrightarrow> rdNew rs k m \<and>
     (\<forall>data. data \<noteq> [] \<longrightarrow> (\<exists>s0 shards.
        rdSplit rs k m data = Some s0 \<and> rdEncode rs k m s0 = Some shards \<and>
        int (length shards) = k + m \<and> [] \<notin> set shards \<and>
        (\<forall>present. length present = length shards \<and>
           (\<forall>i < length shards. present ! i = [] \<or> present ! i = shards ! i) \<and>
           k \<le> int (length (filter (\<lambda>p. p \<noteq> []) present)) \<longrightarrow>
           rdReconstruct rs k m present = Some shards) \<and>
        rs_joins rs k m shards data))"

lemma RS_add_all_config [simp]:
  "rrSealer (rr.add_all r frs) = rrSealer r \<and> rrData (rr.add_all r frs) = rrData r \<and>
   rrParity (rr.add_all r frs) = rrParity r \<and> rrOriginalLen (rr.add_all r frs) = rrOriginalLen r"
proof (induction frs arbitrary: r)
  case (Cons fr frs)
  have "rrSealer (fst (RS_Add r fr)) = rrSealer r \<and> rrData (fst (RS_Add r fr)) = rrData r \<and>
    rrParity (fst (RS_Add r fr)) = rrParity r \<and> rrOriginalLen (fst (RS_Add r fr)) = rrOriginalLen r"
    by (simp add: RS_Add_def split: option.split)
  with Cons show ?case by (simp add: rr.add_all_simps)
qed (simp add: rr.add_all_simps)

text \<open>The first fragment that arrived for a position, among those with the transfer's total.\<close>

definition first_at :: "fragment list \<Rightarrow> u32 \<Rightarrow> u32 \<Rightarrow> fragment option" where
  "first_at frs n i = find (\<lambda>x. fTotal x = n \<and> fIndex x = i) frs"

lemma first_atD: "first_at frs n i = Some x \<Longrightarrow> x \<in> set frs \<and> fTotal x = n \<and> fIndex x = i"
  by (auto simp: first_at_def find_Some_iff)

lemma Reconstruct_open_first:
  assumes "i < unat n" "rrTotal r = n" "rrParts r = []"
  shows "Reconstruct_open (rr.add_all r frs) tid i =
    (case first_at frs n (word_of_nat i) of None \<Rightarrow> None
     | Some x \<Rightarrow> sOpen (rrSealer r) (fPayload x) (aad tid (word_of_nat i) n))"
proof -
  have "(word_of_nat i :: u32) < n"
    using assms(1) by (simp add: word_less_nat_alt unat_u32_below)
  then have "(\<lambda>fr. rr.fits r fr \<and> fIndex fr = word_of_nat i) = (\<lambda>x. fTotal x = n \<and> fIndex x = word_of_nat i)"
    using assms(2) by (auto simp: rr.fits_def)
  then show ?thesis
    using assms(2,3)
    by (simp add: Reconstruct_open_def rr.add_all_lookup first_at_def rr.add_all_total split: option.split)
qed

lemma opened_shards:
  assumes law: "sealer_law s" and seal: "seal_loop s rnd tid n 0 shards = Inr frags"
    and small: "length shards < 2 ^ 32" and n: "n = u32_len shards" and i: "i < length shards"
    and r: "rrTotal r = n" "rrParts r = []" "rrSealer r = s"
    and bad: "\<And>x. x \<in> set frs \<Longrightarrow> x \<notin> set frags \<Longrightarrow> sOpen s (fPayload x) (aad tid (fIndex x) n) = None"
  shows "Reconstruct_open (rr.add_all r frs) tid i =
    (if first_at frs n (word_of_nat i) = Some (frags ! i) then Some (shards ! i) else None)"
proof -
  have ui: "i < unat n" using small n i by (simp add: unat_u32_len)
  show ?thesis
  proof (cases "first_at frs n (word_of_nat i)")
    case None
    then show ?thesis using Reconstruct_open_first [OF ui r(1,2)] by simp
  next
    case (Some x)
    note x = first_atD [OF Some]
    show ?thesis
    proof (cases "x \<in> set frags")
      case True
      then show ?thesis
        using sealed_index [OF law seal small True _ i] x Some Reconstruct_open_first [OF ui r(1,2)] r(3)
        by auto
    next
      case False
      then have "x \<noteq> frags ! i" using sealed_nth_index [OF seal i] by auto
      then show ?thesis
        using False x Some Reconstruct_open_first [OF ui r(1,2)] r(3) bad [of x] by simp
    qed
  qed
qed

lemma length_filter_upt: "length (filter P [0..<n]) = card {i. i < n \<and> P i}"
proof -
  have "length (filter P [0..<n]) = card (set (filter P [0..<n]))"
    by (rule distinct_card [symmetric]) simp
  also have "set (filter P [0..<n]) = {i. i < n \<and> P i}" by auto
  finally show ?thesis .
qed

lemma Reconstruct_prefix:
  assumes law: "sealer_law s" and rs: "rs_law rs k m" and "data \<noteq> []" and km: "0 < k" "0 < m" "k + m < 2 ^ 32"
    and frag: "RSFragmenter_Fragment rs \<lparr>rfSealer = s, rfData = k, rfParity = m\<rparr> rnd tid data = Inr (frags, len)"
    and bad: "\<And>x. x \<in> set frs \<Longrightarrow> x \<notin> set frags \<Longrightarrow>
        sOpen s (fPayload x) (aad tid (fIndex x) (word_of_int (k + m))) = None"
    and enough: "k \<le> int (card {i. i < length frags \<and>
        first_at frs (word_of_int (k + m)) (word_of_nat i) = Some (frags ! i)})"
    and l: "l \<le> length data"
  shows "Reconstruct rs (rr.add_all (NewRSReassembler s k m (int l)) frs) tid = Inr (take l data)"
proof -
  obtain s0 shards where sh: "rdSplit rs k m data = Some s0" "rdEncode rs k m s0 = Some shards"
    "int (length shards) = k + m" "[] \<notin> set shards"
    and recon: "\<And>present. length present = length shards \<Longrightarrow>
        \<forall>i < length shards. present ! i = [] \<or> present ! i = shards ! i \<Longrightarrow>
        k \<le> int (length (filter (\<lambda>p. p \<noteq> []) present)) \<Longrightarrow> rdReconstruct rs k m present = Some shards"
    and join: "rs_joins rs k m shards data"
    using rs \<open>data \<noteq> []\<close> unfolding rs_law_def by blast
  define n where "n = u32_len shards"
  have n': "n = word_of_int (k + m)" by (simp add: n_def u32_len_def flip: sh(3))
  have small: "length shards < 2 ^ 32" using sh(3) km(3) by simp
  have un: "unat n = length shards" unfolding n_def using small by (rule unat_u32_len)
  have seal: "seal_loop s rnd tid n 0 shards = Inr frags"
    using frag rs sh by (auto simp: RSFragmenter_Fragment_def rs_law_def n_def split: if_splits sum.splits)
  have lf: "length frags = length shards" using seal_loop_nth [OF seal] by simp
  let ?new = "NewRSReassembler s k m (int l)" and ?ok = "\<lambda>i. first_at frs n (word_of_nat i) = Some (frags ! i)"
  let ?r = "rr.add_all ?new frs" and ?present = "map (\<lambda>i. if ?ok i then shards ! i else []) [0..<length shards]"
  have r0: "rrTotal ?new = n" "rrParts ?new = []" "rrSealer ?new = s"
    by (simp_all add: NewRSReassembler_def n')
  have opened: "map (Reconstruct_open ?r tid) [0..<unat (rrTotal ?r)] =
      map (\<lambda>i. if ?ok i then Some (shards ! i) else None) [0..<length shards]"
    using opened_shards [OF law seal small n_def _ r0 bad [folded n']]
    by (simp add: rr.add_all_total r0 un)
  have valid: "k \<le> int (length (filter (\<lambda>i. ?ok i) [0..<length shards]))"
    using enough lf by (simp add: length_filter_upt n')
  have ne: "shards ! i \<noteq> []" if "i < length shards" for i
    using that sh(4) by (metis nth_mem)
  have "length (filter (\<lambda>p. p \<noteq> []) ?present) = length (filter (\<lambda>i. ?ok i) [0..<length shards])"
    using ne by (auto simp: filter_map o_def intro!: arg_cong [where f = length] filter_cong)
  then have "rdReconstruct rs k m ?present = Some shards"
    using valid by (intro recon) simp_all
  moreover have "length (filter (\<lambda>p. p \<noteq> None) (map (Reconstruct_open ?r tid) [0..<unat (rrTotal ?r)])) =
      length (filter (\<lambda>i. ?ok i) [0..<length shards])"
    unfolding opened by (auto simp: filter_map o_def intro!: arg_cong [where f = length] filter_cong)
  moreover have "map (\<lambda>p. case p of Some plain \<Rightarrow> plain | None \<Rightarrow> [])
      (map (Reconstruct_open ?r tid) [0..<unat (rrTotal ?r)]) = ?present"
    unfolding opened by simp
  moreover have "rrData ?r = k" "rrParity ?r = m" "rrOriginalLen ?r = int l"
    by (simp_all add: NewRSReassembler_def)
  moreover have "rdNew rs k m" using rs by (simp add: rs_law_def)
  moreover have "rdJoin rs k m shards (int l) = Some (take l data)" using join l by (simp add: rs_joins_def)
  ultimately show ?thesis using valid by (simp only: Reconstruct_def Let_def) simp
qed

lemma Reconstruct_enough:
  assumes "sealer_law s" and "rs_law rs k m" and "data \<noteq> []" and "0 < k" "0 < m" "k + m < 2 ^ 32"
    and "RSFragmenter_Fragment rs \<lparr>rfSealer = s, rfData = k, rfParity = m\<rparr> rnd tid data = Inr (frags, len)"
    and "\<And>x. x \<in> set frs \<Longrightarrow> x \<notin> set frags \<Longrightarrow>
        sOpen s (fPayload x) (aad tid (fIndex x) (word_of_int (k + m))) = None"
    and "k \<le> int (card {i. i < length frags \<and>
        first_at frs (word_of_int (k + m)) (word_of_nat i) = Some (frags ! i)})"
  shows "Reconstruct rs (rr.add_all (NewRSReassembler s k m len) frs) tid = Inr data"
proof -
  have "len = int (length data)"
    using assms(7) by (auto simp: RSFragmenter_Fragment_def split: if_splits sum.splits option.splits)
  then show ?thesis using Reconstruct_prefix [OF assms, of "length data"] by simp
qed

section \<open>Properties\<close>

text \<open>
  Splitting and joining gives the data back; every chunk is non-empty and at most the chunk size,
  and there are as many as the division rounded up says.
\<close>

lemma split_join:
  assumes "0 < n"
  shows "Join (Split d n) = d \<and> (\<forall>c \<in> set (Split d n). c \<noteq> [] \<and> length c \<le> nat n) \<and>
         length (Split d n) = (length d + nat n - 1) div nat n"
proof -
  have "length (Split d n) = (length d + nat n - 1) div nat n"
    using assms by (cases "d = []") (simp_all add: Split_def length_Split_loop)
  moreover have "\<forall>c \<in> set (Split d n). c \<noteq> [] \<and> length c \<le> nat n"
    using Split_loop_chunks by (auto simp: Split_def)
  ultimately show ?thesis using assms by (simp add: Join_Split)
qed

text \<open>
  Whatever the order in which the sealed fragments of a transfer arrive, and however often each
  is repeated, the reassembler that has seen all of them returns the original data.
\<close>

lemma sealed_transfer_reassembles:
  assumes "sealer_law (fmSealer f)" and "0 < fmChunkSize f"
    and "Fragmenter_Fragment f rnd tid data = Inr frags"
    and "length (Split data (fmChunkSize f)) < 2 ^ 32" and "set frs = set frags"
  shows "Assemble (fold (\<lambda>fr r. fst (Add r fr)) frs
           (NewReassembler (fmSealer f) (u32_len (Split data (fmChunkSize f))))) tid = Inr data"
  using reassemble_any_order [OF assms(1) _ assms(4,5)] assms(2,3) Join_Split
  by (simp add: Fragmenter_Fragment_def Let_def ra.add_all_def Join_concat)

definition sample_sealer :: sealer where
  "sample_sealer = \<lparr>sSeal = (\<lambda>r p ad. Some (len_field ad @ p)),
     sOpen = (\<lambda>c ad. if take (4 + length ad) c = len_field ad then Some (drop (4 + length ad) c) else None)\<rparr>"

lemma sealer_law_sample [simp]: "sealer_law sample_sealer"
  by (simp add: sealer_law_def sample_sealer_def)

lemma sample_fragments:
  "\<exists>a b. Fragmenter_Fragment \<lparr>fmSealer = sample_sealer, fmChunkSize = 2\<rparr> (\<lambda>i. []) tid [7, 8, 9] = Inr [a, b]"
  by (simp add: Fragmenter_Fragment_def Split_def Split_loop.simps sample_sealer_def Let_def)

text \<open>
  C8. Fragments injected, reordered, relabelled or replayed from other transfers cannot change a result. A sender splits
  and seals its transfers; any fragments at all arrive at a reassembler, in any order. If no arrived payload opens under an
  associated data of this transfer that the sender did not seal it under (what an authenticated cipher
  promises against anyone without the key), a reassembly that succeeds returns exactly the data sent under that transfer identifier:
  no chunk of another transfer, no chunk at another position, no prefix.
\<close>

theorem assembled_data_is_authentic:
  assumes "sealer_law (fmSealer f)" and "0 < fmChunkSize f"
    and "\<And>t d rnd. sent t = Some (d, rnd) \<Longrightarrow> length t = 32 \<and> length (Split d (fmChunkSize f)) < 2 ^ 32"
    and "\<And>fr i p. fr \<in> set frs \<Longrightarrow> sOpen (fmSealer f) (fPayload fr) (aad tid i tot) = Some p \<Longrightarrow>
        (fPayload fr, aad tid i tot) \<in> sealed_log f sent"
    and "tot \<noteq> 0" "length tid = 32"
    and "Assemble (fold (\<lambda>fr r. fst (Add r fr)) frs (NewReassembler (fmSealer f) tot)) tid = Inr out"
  shows "\<exists>rnd. sent tid = Some (out, rnd)"
  by (rule Assemble_authentic [OF assms(1-6) assms(7) [folded ra.add_all_def]])

text \<open>
  Two transfers of two chunks each. The fragments of the first arrive in reverse order, followed by one of the
  second transfer that claims to belong to the first.
\<close>

definition sample_transfers :: "bytes \<rightharpoonup> bytes \<times> (nat \<Rightarrow> bytes)" where
  "sample_transfers = [replicate 32 1 \<mapsto> ([7, 8, 9], \<lambda>_. []), replicate 32 2 \<mapsto> ([4, 5, 6], \<lambda>_. [])]"

definition sample_fragmenter :: fragmenter where
  "sample_fragmenter = \<lparr>fmSealer = sample_sealer, fmChunkSize = 2\<rparr>"

definition sample_sealed :: "byte \<Rightarrow> u32 \<Rightarrow> bytes \<Rightarrow> fragment" where
  "sample_sealed b i p = mk_fragment (replicate 32 b) i 2 (len_field (aad (replicate 32 b) i 2) @ p)"

lemma sample_transfers_fragments:
  "Fragmenter_Fragment sample_fragmenter (\<lambda>_. []) (replicate 32 b) [x, y, z] = Inr [sample_sealed b 0 [x, y], sample_sealed b 1 [z]]"
  by (simp add: Fragmenter_Fragment_def sample_fragmenter_def Split_def Split_loop.simps sample_sealer_def sample_sealed_def
      u32_len_def Let_def)

definition sample_arrivals :: "fragment list" where
  "sample_arrivals = [sample_sealed 1 1 [9], sample_sealed 1 0 [7, 8], (sample_sealed 2 0 [4, 5])\<lparr>fTransferID := replicate 32 1\<rparr>]"

lemma sample_opens:
  "sOpen sample_sealer (fPayload (sample_sealed b i q)) (aad (replicate 32 c) j 2) = Some p \<longleftrightarrow> b = c \<and> i = j \<and> p = q"
proof -
  have len: "length (aad (replicate 32 c) j 2) = 40" for c j by (simp add: aad_def)
  have same: "len_field (aad (replicate 32 b) i 2) = len_field (aad (replicate 32 c) j 2) \<longleftrightarrow> b = c \<and> i = j"
    by (simp add: len_field_def u32_len_def len aad_inject)
  have "length (len_field (aad (replicate 32 b) i 2)) = 44" by (simp add: len)
  then show ?thesis using same by (auto simp: sample_sealer_def sample_sealed_def mk_fragment_def len)
qed

lemma sample_logged:
  "(fPayload (sample_sealed b i q), aad (replicate 32 b) i 2) \<in> sealed_log sample_fragmenter sample_transfers"
  if "sample_sealed b i q \<in> {sample_sealed 1 0 [7, 8], sample_sealed 1 1 [9]}" "b = 1"
proof -
  have "sample_transfers (replicate 32 1) = Some ([7, 8, 9], \<lambda>_. [])" by (simp add: sample_transfers_def numeral_eq_Suc)
  then have "fr \<in> {sample_sealed 1 0 [7, 8], sample_sealed 1 1 [9]} \<Longrightarrow>
      (fPayload fr, aad (fTransferID fr) (fIndex fr) (fTotal fr)) \<in> sealed_log sample_fragmenter sample_transfers" for fr
    using sample_transfers_fragments [of 1 7 8 9] unfolding sealed_log_def by fastforce
  from this [OF that(1)] show ?thesis by (simp add: sample_sealed_def mk_fragment_def)
qed

theorem assembled_data_is_authentic_witness:
  "\<exists>out rnd. Assemble (fold (\<lambda>fr r. fst (Add r fr)) sample_arrivals (NewReassembler sample_sealer 2)) (replicate 32 1) = Inr out \<and>
     sample_transfers (replicate 32 1) = Some (out, rnd) \<and> out = [7, 8, 9]"
proof -
  have f: "fmSealer sample_fragmenter = sample_sealer" "fmChunkSize sample_fragmenter = 2" by (simp_all add: sample_fragmenter_def)
  have "fTotal (sample_sealed b i q) = 2" "fIndex (sample_sealed b i q) = i" for b i q by (simp_all add: sample_sealed_def mk_fragment_def)
  moreover have "sOpen sample_sealer (fPayload (sample_sealed 1 i q)) (aad (replicate 32 1) i 2) = Some q" for i q by (simp only: sample_opens simp_thms)
  moreover have "\<not> (2 :: u32) \<le> 1" by (simp add: word_le_nat_alt)
  ultimately have r: "Assemble (fold (\<lambda>fr r. fst (Add r fr)) sample_arrivals (NewReassembler sample_sealer 2)) (replicate 32 1) = Inr [7, 8, 9]"
    by (simp add: sample_arrivals_def Add_def NewReassembler_def Assemble_def Complete_def Assemble_open_def Let_def gput_def gget_def
        upt_conv_Cons Join_def)
  have law: "sealer_law (fmSealer sample_fragmenter)" "0 < fmChunkSize sample_fragmenter" by (simp_all add: f)
  have sent: "length t = 32 \<and> length (Split d (fmChunkSize sample_fragmenter)) < 2 ^ 32" if "sample_transfers t = Some (d, rnd)" for t d rnd
  proof -
    have "t = replicate 32 2 \<or> t = replicate 32 1" "length d = 3"
      using that unfolding sample_transfers_def by (simp_all split: if_splits) auto
    then show ?thesis using split_join [of 2 d] by (auto simp: f)
  qed
  have auth: "(fPayload fr, aad (replicate 32 1) i 2) \<in> sealed_log sample_fragmenter sample_transfers"
    if arr: "fr \<in> set sample_arrivals" "sOpen (fmSealer sample_fragmenter) (fPayload fr) (aad (replicate 32 1) i 2) = Some p" for fr i p
  proof -
    have pay: "fPayload ((sample_sealed 2 0 [4, 5])\<lparr>fTransferID := t\<rparr>) = fPayload (sample_sealed 2 0 [4, 5])" for t by simp
    consider "fr = sample_sealed 1 1 [9]" | "fr = sample_sealed 1 0 [7, 8]" | "fPayload fr = fPayload (sample_sealed 2 0 [4, 5])"
      using arr(1) pay unfolding sample_arrivals_def list.set by blast
    then show ?thesis
    proof cases
      case 1
      then show ?thesis using sample_logged [of 1 1 "[9]"] arr(2) sample_opens [of 1 1 "[9]" 1 i p] by (simp add: f)
    next
      case 2
      then show ?thesis using sample_logged [of 1 0 "[7, 8]"] arr(2) sample_opens [of 1 0 "[7, 8]" 1 i p] by (simp add: f)
    next
      case 3
      then show ?thesis using arr(2) sample_opens [of 2 0 "[4, 5]" 1 i p] by (simp add: f)
    qed
  qed
  have "\<exists>rnd. sample_transfers (replicate 32 1) = Some ([7, 8, 9], rnd)"
    by (rule assembled_data_is_authentic [OF law sent auth _ _ r [folded f]]) simp_all
  then show ?thesis using r by blast
qed

text \<open>
  C20. Any \<^verbatim>\<open>dataShards\<close> genuine shards rebuild the payload: shards may be lost, arrive in any order,
  be repeated, or be replaced by garbage that does not open, as long as for \<^verbatim>\<open>dataShards\<close> positions the
  first shard to arrive is the genuine one.
\<close>

theorem any_data_shards_suffice:
  assumes "sealer_law s" and "rs_law rs k m" and "data \<noteq> []" and "0 < k" "0 < m" "k + m < 2 ^ 32"
    and "RSFragmenter_Fragment rs \<lparr>rfSealer = s, rfData = k, rfParity = m\<rparr> rnd tid data = Inr (frags, len)"
    and "\<And>x. x \<in> set frs \<Longrightarrow> x \<notin> set frags \<Longrightarrow>
        sOpen s (fPayload x) (aad tid (fIndex x) (word_of_int (k + m))) = None"
    and "k \<le> int (card {i. i < length frags \<and>
        first_at frs (word_of_int (k + m)) (word_of_nat i) = Some (frags ! i)})"
  shows "Reconstruct rs (fold (\<lambda>fr r. fst (RS_Add r fr)) frs (NewRSReassembler s k m len)) tid = Inr data"
  using Reconstruct_enough [OF assms] by (simp add: rr.add_all_def)

text \<open>A replication code: one data shard and one parity shard that is a copy of it.\<close>

definition sample_rs :: reedsolomon where
  "sample_rs = \<lparr>rdNew = (\<lambda>k m. k = 1 \<and> m = 1), rdSplit = (\<lambda>k m d. Some [d, []]),
     rdEncode = (\<lambda>k m s. Some [hd s, hd s]),
     rdReconstruct = (\<lambda>k m s. Some (if s ! 0 = [] then [s ! 1, s ! 1] else [s ! 0, s ! 0])),
     rdJoin = (\<lambda>k m s n. Some (take (nat n) (hd s)))\<rparr>"

lemma rs_law_sample: "rs_law sample_rs 1 1"
  unfolding rs_law_def
proof (intro conjI allI impI)
  fix data :: bytes assume d: "data \<noteq> []"
  have "sample_rs = sample_rs \<Longrightarrow> rdReconstruct sample_rs 1 1 p = Some [data, data]"
    if "length p = 2" "\<forall>i < 2. p ! i = [] \<or> p ! i = [data, data] ! i"
      "1 \<le> length (filter (\<lambda>p. p \<noteq> []) p)" for p
  proof -
    obtain a b where "p = [a, b]" using \<open>length p = 2\<close>
      by (metis (no_types) Suc_length_conv length_0_conv numeral_2_eq_2)
    with that show ?thesis
      by (auto simp: sample_rs_def less_2_cases_iff split: if_splits)
  qed
  then show "\<exists>s0 shards. rdSplit sample_rs 1 1 data = Some s0 \<and> rdEncode sample_rs 1 1 s0 = Some shards \<and>
      int (length shards) = 1 + 1 \<and> [] \<notin> set shards \<and>
      (\<forall>present. length present = length shards \<and>
         (\<forall>i < length shards. present ! i = [] \<or> present ! i = shards ! i) \<and>
         1 \<le> int (length (filter (\<lambda>p. p \<noteq> []) present)) \<longrightarrow>
         rdReconstruct sample_rs 1 1 present = Some shards) \<and>
      rs_joins sample_rs 1 1 shards data"
    using d by (intro exI [of _ "[data, []]"] exI [of _ "[data, data]"]) (simp add: sample_rs_def rs_joins_def numeral_2_eq_2)
qed (simp add: sample_rs_def)

theorem any_data_shards_suffice_witness:
  "\<exists>frags. RSFragmenter_Fragment sample_rs \<lparr>rfSealer = sample_sealer, rfData = 1, rfParity = 1\<rparr>
       (\<lambda>i. []) (replicate 32 0) [7, 8] = Inr (frags, 2) \<and>
     Reconstruct sample_rs (fold (\<lambda>fr r. fst (RS_Add r fr)) [mk_fragment [] 0 2 [], frags ! 1]
       (NewRSReassembler sample_sealer 1 1 2)) (replicate 32 0) = Inr [7, 8]"
proof -
  define a where "a = aad (replicate 32 0) 0 2"
  define b where "b = aad (replicate 32 0) 1 2"
  define frags where "frags = [mk_fragment (replicate 32 0) 0 2 (len_field a @ [7, 8]),
    mk_fragment (replicate 32 0) 1 2 (len_field b @ [7, 8])]"
  have f: "RSFragmenter_Fragment sample_rs \<lparr>rfSealer = sample_sealer, rfData = 1, rfParity = 1\<rparr>
      (\<lambda>i. []) (replicate 32 0) [7, 8] = Inr (frags, 2)"
    by (simp add: RSFragmenter_Fragment_def sample_rs_def sample_sealer_def u32_len_def frags_def
        a_def b_def Let_def)
  have idx: "{i. i < length frags \<and> first_at [mk_fragment [] 0 2 [], frags ! 1] 2 (word_of_nat i) =
      Some (frags ! i)} = {1}"
    by (auto simp: frags_def first_at_def mk_fragment_def less_Suc_eq)
  show ?thesis
    using any_data_shards_suffice [OF sealer_law_sample rs_law_sample _ _ _ _ f, of "[mk_fragment [] 0 2 [], frags ! 1]"]
      f idx by (auto simp: sample_sealer_def mk_fragment_def len_field_def frags_def put_u32_def)
qed

end
