(* ===== verification/Kiss.thy ===== *)
theory Kiss
  imports Prelude "HOL-Library.Log_Nat" Complex_Main
begin

text \<open>
  The radio transport of \<^verbatim>\<open>internal/iface\<close>: KISS framing on a byte stream (\<^verbatim>\<open>kiss.go\<close>) and the
  transmit duty-cycle limiter (\<^verbatim>\<open>duty.go\<close>), composed in \<^verbatim>\<open>kissInterface.Send\<close>.

  A stream is the list of bytes read before it ends. Time is in nanoseconds and the clock is an
  argument. The two \<^verbatim>\<open>float64\<close> computations of the limiter are carried out on rationals with every
  operation rounded to 53 significant bits, ties to even.
\<close>

section \<open>KISS framing\<close>

definition kissFEND :: byte where "kissFEND = 0xC0"
definition kissFESC :: byte where "kissFESC = 0xDB"
definition kissTFEND :: byte where "kissTFEND = 0xDC"
definition kissTFESC :: byte where "kissTFESC = 0xDD"
definition kissCmdData :: byte where "kissCmdData = 0x00"

lemmas kiss_consts = kissFEND_def kissFESC_def kissTFEND_def kissTFESC_def kissCmdData_def

definition kiss_escape :: "byte \<Rightarrow> bytes" where
  "kiss_escape b =
     (if b = kissFEND then [kissFESC, kissTFEND]
      else if b = kissFESC then [kissFESC, kissTFESC]
      else [b])"

definition kissEncode :: "bytes \<Rightarrow> bytes" where
  "kissEncode payload =
     fold (\<lambda>b out. out @ kiss_escape b) payload [kissFEND, kissCmdData] @ [kissFEND]"

text \<open>The two loops of \<^verbatim>\<open>readKISSFrame\<close>: advance to a delimiter, then collect the frame.\<close>

fun kiss_sync :: "bytes \<Rightarrow> bytes option" where
  "kiss_sync [] = None"
| "kiss_sync (b # r) = (if b = kissFEND then Some r else kiss_sync r)"

fun kiss_body :: "bytes \<Rightarrow> bytes \<Rightarrow> (bytes \<times> bytes) option" where
  "kiss_body frame [] = None"
| "kiss_body frame (b # r) =
     (if b = kissFEND then
        (if length frame = 0 then kiss_body frame r else Some (drop 1 frame, r))
      else if b = kissFESC then
        (case r of
           [] \<Rightarrow> None
         | n # r \<Rightarrow>
             if n = kissTFEND then kiss_body (frame @ [kissFEND]) r
             else if n = kissTFESC then kiss_body (frame @ [kissFESC]) r
             else kiss_body (frame @ [n]) r)
      else kiss_body (frame @ [b]) r)"

definition readKISSFrame :: "bytes \<Rightarrow> (bytes \<times> bytes) option" where
  "readKISSFrame r = (case kiss_sync r of None \<Rightarrow> None | Some r \<Rightarrow> kiss_body [] r)"

lemma kiss_sync_shorter: "kiss_sync r = Some r' \<Longrightarrow> length r' < length r"
  by (induction r) (auto split: if_splits)

lemma kiss_body_shorter: "kiss_body f r = Some (x, r') \<Longrightarrow> length r' < length r"
  by (induction f r rule: kiss_body.induct) (force split: if_splits list.splits)+

lemma readKISSFrame_shorter: "readKISSFrame r = Some (x, r') \<Longrightarrow> length r' < length r"
  by (auto simp: readKISSFrame_def split: option.splits dest!: kiss_sync_shorter kiss_body_shorter)

text \<open>\<^verbatim>\<open>readLoop\<close>: the frames it puts on the channel until the stream ends.\<close>

function readLoop :: "bytes \<Rightarrow> bytes list" where
  "readLoop r = (case readKISSFrame r of None \<Rightarrow> [] | Some (frame, r) \<Rightarrow> frame # readLoop r)"
  by pat_completeness auto

termination
  by (relation "measure length") (auto dest: readKISSFrame_shorter)

declare readLoop.simps [simp del]

section \<open>Duty cycle\<close>

text \<open>Rounding a rational to the nearest \<^verbatim>\<open>float64\<close> of the normal range, ties to even.\<close>

definition half_even :: "rat \<Rightarrow> int" where
  "half_even m =
     (let f = floor m; d = m - of_int f in
      if d < 1 / 2 then f else if d > 1 / 2 then f + 1 else if even f then f else f + 1)"

definition two_pow :: "int \<Rightarrow> rat" where
  "two_pow e = (if 0 \<le> e then 2 ^ nat e else 1 / 2 ^ nat (- e))"

definition f64 :: "rat \<Rightarrow> rat" where
  "f64 x =
     (if x = 0 then 0
      else let (p, q) = quotient_of x;
               e = bitlen \<bar>p\<bar> - bitlen q - 53;
               e = (if \<bar>x\<bar> / two_pow e \<ge> 2 ^ 53 then e + 1 else e)
           in of_int (half_even (x / two_pow e)) * two_pow e)"

record dutyEvent =
  deAt :: int
  deAir :: int

record dutyLimiter =
  dlWindow :: int
  dlFraction :: rat
  dlBitrate :: int
  dlEvents :: "dutyEvent list"
  dlSpent :: int

definition time_Second :: int where "time_Second = 1000000000"
definition defaultDutyWindow :: int where "defaultDutyWindow = 3600 * time_Second"

definition newDutyLimiter :: "rat \<Rightarrow> int \<Rightarrow> int \<Rightarrow> dutyLimiter option" where
  "newDutyLimiter fraction bitrate window =
     (if fraction \<le> 0 \<or> bitrate \<le> 0 then None
      else let window = (if window \<le> 0 then defaultDutyWindow else window)
           in Some \<lparr>dlWindow = window, dlFraction = fraction, dlBitrate = bitrate, dlEvents = [], dlSpent = 0\<rparr>)"

text \<open>\<^verbatim>\<open>time.Duration(x)\<close> of a float discards the fraction.\<close>

definition to_duration :: "rat \<Rightarrow> int" where
  "to_duration x = (if 0 \<le> x then floor x else ceiling x)"

definition airtime :: "dutyLimiter \<Rightarrow> int \<Rightarrow> int" where
  "airtime d n = to_duration (f64 (f64 (f64 (of_int (n * 8)) / f64 (of_int (dlBitrate d))) * f64 (of_int time_Second)))"

definition budget :: "dutyLimiter \<Rightarrow> int" where
  "budget d = to_duration (f64 (f64 (of_int (dlWindow d)) * dlFraction d))"

fun prune_loop :: "int \<Rightarrow> int \<Rightarrow> dutyEvent list \<Rightarrow> int \<times> dutyEvent list" where
  "prune_loop cutoff spent [] = (spent, [])"
| "prune_loop cutoff spent (e # es) =
     (if deAt e > cutoff then (spent, e # es) else prune_loop cutoff (spent - deAir e) es)"

definition pruneLocked :: "int \<Rightarrow> dutyLimiter \<Rightarrow> dutyLimiter" where
  "pruneLocked now d =
     (let cutoff = now - dlWindow d;
          (spent, events) = prune_loop cutoff (dlSpent d) (dlEvents d);
          spent = (if spent < 0 then 0 else spent)
      in d\<lparr>dlEvents := events, dlSpent := spent\<rparr>)"

definition duty_allow :: "int \<Rightarrow> dutyLimiter \<Rightarrow> int \<Rightarrow> dutyLimiter \<times> bool" where
  "duty_allow now d n =
     (let d = pruneLocked now d; air = airtime d n in
      if dlSpent d + air > budget d then (d, False)
      else (d\<lparr>dlEvents := dlEvents d @ [\<lparr>deAt = now, deAir = air\<rparr>], dlSpent := dlSpent d + air\<rparr>, True))"

text \<open>The nil limiter allows everything.\<close>

definition allow :: "int \<Rightarrow> dutyLimiter option \<Rightarrow> int \<Rightarrow> dutyLimiter option \<times> bool" where
  "allow now dl n =
     (case dl of None \<Rightarrow> (None, True)
      | Some d \<Rightarrow> (let (d, ok) = duty_allow now d n in (Some d, ok)))"

section \<open>The framed interface\<close>

record caps =
  cMTU :: int
  cBitrate :: int
  cBroadcast :: bool
  cFullDuplex :: bool

record kissInterface =
  kCaps :: caps
  kDone :: bool \<comment> \<open>the done channel is closed\<close>
  kDuty :: "dutyLimiter option"
  kOut :: bytes \<comment> \<open>what has been written to the stream\<close>

datatype send_error = ErrExceedsMTU | ErrClosed | ErrDutyCycleExceeded | ErrWrite

definition newKISSInterface :: "caps \<Rightarrow> kissInterface" where
  "newKISSInterface c = \<lparr>kCaps = c, kDone = False, kDuty = None, kOut = []\<rparr>"

definition SetDutyCycle :: "rat \<Rightarrow> int \<Rightarrow> kissInterface \<Rightarrow> kissInterface" where
  "SetDutyCycle fraction window k = k\<lparr>kDuty := newDutyLimiter fraction (cBitrate (kCaps k)) window\<rparr>"

text \<open>
  \<open>wok\<close> says whether the write to the stream succeeds; \<open>closing\<close> whether the interface has been
  closed by the time a failed write is reported.
\<close>

definition kiss_Send :: "int \<Rightarrow> bool \<Rightarrow> bool \<Rightarrow> kissInterface \<Rightarrow> bytes \<Rightarrow> kissInterface \<times> send_error option" where
  "kiss_Send now wok closing k frame =
     (if int (length frame) > cMTU (kCaps k) then (k, Some ErrExceedsMTU)
      else if kDone k then (k, Some ErrClosed)
      else let encoded = kissEncode frame;
               (duty, ok) = allow now (kDuty k) (int (length encoded));
               k = k\<lparr>kDuty := duty\<rparr>
           in if \<not> ok then (k, Some ErrDutyCycleExceeded)
              else if \<not> wok then (k, Some (if closing then ErrClosed else ErrWrite))
              else (k\<lparr>kOut := kOut k @ encoded\<rparr>, None))"

definition kiss_Close :: "kissInterface \<Rightarrow> kissInterface" where
  "kiss_Close k = k\<lparr>kDone := True\<rparr>"

section \<open>Lemmas on frames\<close>

lemma kissEncode_concat: "kissEncode p = kissFEND # kissCmdData # concat (map kiss_escape p) @ [kissFEND]"
proof -
  have "fold (\<lambda>b out. out @ kiss_escape b) p acc = acc @ concat (map kiss_escape p)" for acc
    by (induction p arbitrary: acc) simp_all
  then show ?thesis by (simp add: kissEncode_def)
qed

lemma kiss_escape_no_FEND: "kissFEND \<notin> set (kiss_escape b)"
  by (simp add: kiss_escape_def kiss_consts)

lemma kiss_sync_skip: "kissFEND \<notin> set g \<Longrightarrow> kiss_sync (g @ kissFEND # r) = Some r"
  by (induction g) auto

lemma kiss_sync_none: "kissFEND \<notin> set g \<Longrightarrow> kiss_sync g = None"
  by (induction g) auto

lemma kiss_body_escape: "kiss_body f (kiss_escape b @ r) = kiss_body (f @ [b]) r"
  by (auto simp: kiss_escape_def kiss_consts)

lemma kiss_body_payload:
  "kiss_body f (concat (map kiss_escape p) @ r) = kiss_body (f @ p) r"
  by (induction p arbitrary: f) (simp_all add: kiss_body_escape)

lemma kiss_body_frame:
  "kiss_body [] (kissCmdData # concat (map kiss_escape p) @ kissFEND # r) = Some (p, r)"
proof -
  have "kiss_body [] (kissCmdData # x) = kiss_body [kissCmdData] x" for x
    by (simp add: kiss_consts)
  then show ?thesis by (simp add: kiss_body_payload)
qed

lemma kiss_body_empty: "kiss_body [] (kissFEND # r) = kiss_body [] r"
  by simp

lemmas kiss_frame_simps = readKISSFrame_def kissEncode_concat kiss_sync_skip kiss_body_frame kiss_body_empty

lemma readKISSFrame_encoded:
  "kissFEND \<notin> set g \<Longrightarrow> readKISSFrame (g @ kissEncode p @ r) = Some (p, r)"
  by (simp add: kiss_frame_simps del: kiss_body.simps)

text \<open>Starting inside a frame, its closing delimiter opens an empty frame and the next one follows.\<close>

lemma readKISSFrame_resync:
  "kissFEND \<notin> set g \<Longrightarrow> readKISSFrame (g @ kissFEND # kissEncode p @ r) = Some (p, r)"
  by (simp add: kiss_frame_simps del: kiss_body.simps)

lemma readLoop_frames:
  "kissFEND \<notin> set g \<Longrightarrow> readLoop (g @ concat (map kissEncode ps)) = ps"
proof (induction ps arbitrary: g)
  case Nil
  then show ?case by (simp add: readLoop.simps readKISSFrame_def kiss_sync_none)
next
  case (Cons p ps)
  then show ?case
    using Cons.IH [of "[]"] by (subst readLoop.simps) (simp add: readKISSFrame_encoded)
qed

lemma kissEncode_cut:
  assumes "0 < n" "n < length (kissEncode p)"
  shows "\<exists>g. drop n (kissEncode p) = g @ [kissFEND] \<and> kissFEND \<notin> set g"
proof -
  let ?g = "kissCmdData # concat (map kiss_escape p)"
  have "kissFEND \<notin> set ?g"
    using kiss_escape_no_FEND by (auto simp: kiss_consts)
  then have "kissFEND \<notin> set (drop (n - 1) ?g)" using in_set_dropD by fast
  moreover have "drop n (kissEncode p) = drop (n - 1) ?g @ [kissFEND]"
    using assms by (cases n) (auto simp: kissEncode_concat drop_Cons' split: if_splits)
  ultimately show ?thesis by blast
qed

lemma readLoop_cut:
  assumes "0 < n" "n < length (kissEncode p)"
  shows "readLoop (drop n (kissEncode p) @ concat (map kissEncode ps)) = ps"
proof -
  obtain g where g: "drop n (kissEncode p) = g @ [kissFEND]" "kissFEND \<notin> set g"
    using kissEncode_cut [OF assms] by blast
  show ?thesis
  proof (cases ps)
    case Nil
    then show ?thesis using g by (simp add: readLoop.simps readKISSFrame_def kiss_sync_skip)
  next
    case (Cons q qs)
    then show ?thesis
      using g readLoop_frames [of "[]" qs] by (subst readLoop.simps) (simp add: readKISSFrame_resync)
  qed
qed

section \<open>Lemmas on the limiter\<close>

lemma half_even_nonneg: "0 \<le> m \<Longrightarrow> 0 \<le> half_even m"
  by (auto simp: half_even_def Let_def)

lemma two_pow_nonneg [simp]: "0 \<le> two_pow e"
  by (simp add: two_pow_def)

lemma f64_nonneg: "0 \<le> x \<Longrightarrow> 0 \<le> f64 x"
  unfolding f64_def Let_def
  by (simp add: half_even_nonneg del: abs_ge_zero split: prod.split)

lemma airtime_nonneg:
  assumes "0 < dlBitrate d" "0 \<le> n"
  shows "0 \<le> airtime d n"
proof -
  have "0 \<le> f64 (f64 (f64 (of_int (n * 8)) / f64 (of_int (dlBitrate d))) * f64 (of_int time_Second))"
    using assms by (intro f64_nonneg mult_nonneg_nonneg divide_nonneg_nonneg) (simp_all add: time_Second_def)
  then show ?thesis by (simp add: airtime_def to_duration_def)
qed

definition air_sum :: "dutyEvent list \<Rightarrow> int" where
  "air_sum es = sum_list (map deAir es)"

lemma prune_loop_eq:
  "prune_loop cutoff spent es =
     (spent - air_sum (takeWhile (\<lambda>e. \<not> deAt e > cutoff) es), dropWhile (\<lambda>e. \<not> deAt e > cutoff) es)"
  by (induction es arbitrary: spent) (simp_all add: air_sum_def)

definition in_window :: "int \<Rightarrow> int \<Rightarrow> dutyEvent \<Rightarrow> bool" where
  "in_window w t e \<longleftrightarrow> t - w < deAt e \<and> deAt e \<le> t"

text \<open>The transmissions a sequence of calls, each with its time and frame size, was allowed.\<close>

fun duty_log :: "dutyLimiter \<Rightarrow> (int \<times> int) list \<Rightarrow> dutyEvent list" where
  "duty_log d [] = []"
| "duty_log d ((now, n) # calls) =
     (let (d', ok) = duty_allow now d n in
      (if ok then [\<lparr>deAt = now, deAir = airtime d n\<rparr>] else []) @ duty_log d' calls)"

text \<open>
  \<open>hist\<close> is everything transmitted so far, \<open>lt0\<close> the time of the latest call: the limiter holds the
  transmissions that can still matter, and no window is over budget.
\<close>

definition duty_inv :: "dutyEvent list \<Rightarrow> int \<Rightarrow> dutyLimiter \<Rightarrow> bool" where
  "duty_inv hist lt0 d \<longleftrightarrow> 0 < dlBitrate d \<and> 0 \<le> budget d \<and> 0 \<le> dlWindow d \<and>
     (\<exists>old. hist = old @ dlEvents d \<and> (\<forall>e \<in> set old. deAt e \<le> lt0 - dlWindow d)) \<and>
     sorted (map deAt (dlEvents d)) \<and> (\<forall>e \<in> set (dlEvents d). deAt e \<le> lt0) \<and>
     (\<forall>e \<in> set hist. 0 \<le> deAir e) \<and> dlSpent d = air_sum (dlEvents d) \<and> dlSpent d \<le> budget d \<and>
     (\<forall>t. air_sum (filter (in_window (dlWindow d) t) hist) \<le> budget d)"

lemma air_sum_simps [simp]:
  "air_sum [] = 0" "air_sum (e # es) = deAir e + air_sum es" "air_sum (es @ fs) = air_sum es + air_sum fs"
  by (simp_all add: air_sum_def)

lemma air_sum_nonneg: "\<forall>e \<in> set es. 0 \<le> deAir e \<Longrightarrow> 0 \<le> air_sum es"
  by (induction es) simp_all

lemma air_sum_filter_le: "\<forall>e \<in> set es. 0 \<le> deAir e \<Longrightarrow> air_sum (filter P es) \<le> air_sum es"
  by (induction es) (auto simp: add_increasing)

lemma duty_config:
  "dlWindow (fst (duty_allow now d n)) = dlWindow d \<and> budget (fst (duty_allow now d n)) = budget d \<and>
   dlBitrate (fst (duty_allow now d n)) = dlBitrate d"
  by (simp add: duty_allow_def pruneLocked_def Let_def budget_def split: prod.split)

lemma airtime_config: "airtime (pruneLocked now d) n = airtime d n" "budget (pruneLocked now d) = budget d"
  by (simp_all add: airtime_def budget_def pruneLocked_def Let_def split: prod.split)

lemma prune_inv:
  assumes inv: "duty_inv hist lt0 d" and "lt0 \<le> now"
  shows "duty_inv hist now (pruneLocked now d)"
proof -
  let ?W = "dlWindow d" and ?gone = "takeWhile (\<lambda>e. \<not> deAt e > now - dlWindow d) (dlEvents d)"
  let ?keep = "dropWhile (\<lambda>e. \<not> deAt e > now - dlWindow d) (dlEvents d)"
  obtain old where old: "hist = old @ dlEvents d" "\<forall>e \<in> set old. deAt e \<le> lt0 - ?W"
    using inv by (auto simp: duty_inv_def)
  have split: "air_sum (dlEvents d) = air_sum ?gone + air_sum ?keep"
    by (metis air_sum_simps(3) takeWhile_dropWhile_id)
  have pos: "\<forall>e \<in> set (dlEvents d). 0 \<le> deAir e" using inv old by (auto simp: duty_inv_def)
  have sum: "dlSpent d - air_sum ?gone = air_sum ?keep"
    using inv split unfolding duty_inv_def by linarith
  have keep_pos: "0 \<le> air_sum ?keep" and gone_pos: "0 \<le> air_sum ?gone"
    using pos by (auto intro!: air_sum_nonneg dest: set_dropWhileD set_takeWhileD)
  have d': "pruneLocked now d = d\<lparr>dlEvents := ?keep, dlSpent := air_sum ?keep\<rparr>"
    using sum keep_pos by (simp add: pruneLocked_def prune_loop_eq Let_def)
  have b: "budget (d\<lparr>dlEvents := ?keep, dlSpent := air_sum ?keep\<rparr>) = budget d"
    by (simp add: budget_def)
  show ?thesis
    unfolding d' duty_inv_def b
  proof (intro conjI)
    show "\<exists>old. hist = old @ dlEvents (d\<lparr>dlEvents := ?keep, dlSpent := air_sum ?keep\<rparr>) \<and>
        (\<forall>e \<in> set old. deAt e \<le> now - dlWindow (d\<lparr>dlEvents := ?keep, dlSpent := air_sum ?keep\<rparr>))"
    proof (intro exI [of _ "old @ ?gone"] conjI ballI)
      fix e assume "e \<in> set (old @ ?gone)"
      then show "deAt e \<le> now - dlWindow (d\<lparr>dlEvents := ?keep, dlSpent := air_sum ?keep\<rparr>)"
        using old(2) assms(2) by (auto dest!: set_takeWhileD)
    qed (use old(1) in simp)
    show "sorted (map deAt (dlEvents (d\<lparr>dlEvents := ?keep, dlSpent := air_sum ?keep\<rparr>)))"
      using inv by (simp add: duty_inv_def dropWhile_eq_drop sorted_wrt_drop flip: drop_map)
    show "\<forall>e \<in> set (dlEvents (d\<lparr>dlEvents := ?keep, dlSpent := air_sum ?keep\<rparr>)). deAt e \<le> now"
      using inv assms(2) by (fastforce simp: duty_inv_def dest: set_dropWhileD)
  qed (use inv sum gone_pos in \<open>simp_all add: duty_inv_def\<close>)
qed

lemma pruned_events_in_window:
  "sorted (map deAt (dlEvents d)) \<Longrightarrow> e \<in> set (dlEvents (pruneLocked now d)) \<Longrightarrow> now - dlWindow d < deAt e"
proof -
  assume s: "sorted (map deAt (dlEvents d))" and e: "e \<in> set (dlEvents (pruneLocked now d))"
  have "now - w < deAt e" if "sorted (map deAt es)" "e \<in> set (dropWhile (\<lambda>e. \<not> deAt e > now - w) es)" for es w
    using that by (induction es) (auto split: if_splits)
  then show ?thesis
    using s e by (simp add: pruneLocked_def prune_loop_eq Let_def)
qed

lemma allow_inv:
  assumes inv: "duty_inv hist lt0 d" and "lt0 \<le> now" and "0 \<le> n"
  shows "duty_inv (hist @ (if snd (duty_allow now d n) then [\<lparr>deAt = now, deAir = airtime d n\<rparr>] else []))
           now (fst (duty_allow now d n))"
proof (cases "dlSpent (pruneLocked now d) + airtime d n > budget d")
  case True
  then show ?thesis
    using prune_inv [OF assms(1,2)] by (simp add: duty_allow_def Let_def airtime_config)
next
  case False
  let ?e = "\<lparr>deAt = now, deAir = airtime d n\<rparr>" and ?d = "pruneLocked now d"
  note p = prune_inv [OF assms(1,2)]
  have W: "dlWindow ?d = dlWindow d" "dlBitrate ?d = dlBitrate d"
    by (simp_all add: pruneLocked_def Let_def split: prod.split)
  have air: "0 \<le> airtime d n" using inv assms(3) by (simp add: duty_inv_def airtime_nonneg)
  obtain old where old: "hist = old @ dlEvents ?d" "\<forall>e \<in> set old. deAt e \<le> now - dlWindow d"
    using p W by (auto simp: duty_inv_def)
  have windows: "air_sum (filter (in_window (dlWindow d) t) (hist @ [?e])) \<le> budget d" for t
  proof (cases "now \<le> t")
    case True
    then have "filter (in_window (dlWindow d) t) old = []"
      using old(2) by (fastforce simp: filter_empty_conv in_window_def)
    then have "air_sum (filter (in_window (dlWindow d) t) (hist @ [?e])) \<le> air_sum (dlEvents ?d @ [?e])"
      using old(1) p air air_sum_filter_le [of "dlEvents ?d @ [?e]" "in_window (dlWindow d) t"]
      by (auto simp: duty_inv_def)
    also have "\<dots> \<le> budget d" using False p by (simp add: duty_inv_def)
    finally show ?thesis .
  next
    case False
    then show ?thesis using p W by (auto simp: duty_inv_def in_window_def airtime_config)
  qed
  have d': "duty_allow now d n = (?d\<lparr>dlEvents := dlEvents ?d @ [?e], dlSpent := dlSpent ?d + airtime d n\<rparr>, True)"
    using False by (simp add: duty_allow_def Let_def airtime_config)
  have b: "budget (?d\<lparr>dlEvents := x, dlSpent := y\<rparr>) = budget d" for x y
    using airtime_config(2) [of now d] by (simp add: budget_def)
  have "hist @ [?e] = old @ dlEvents ?d @ [?e]" using old(1) by simp
  with windows old(2) p air False show ?thesis
    unfolding d' duty_inv_def by (auto simp: W b airtime_config sorted_append)
qed

lemma duty_log_windows:
  assumes "duty_inv hist lt0 d" "sorted (map fst calls)" "\<forall>c \<in> set calls. lt0 \<le> fst c \<and> 0 \<le> snd c"
  shows "air_sum (filter (in_window (dlWindow d) t) (hist @ duty_log d calls)) \<le> budget d"
  using assms
proof (induction calls arbitrary: hist lt0 d)
  case Nil
  then show ?case by (simp add: duty_inv_def)
next
  case (Cons c calls)
  obtain now n where c: "c = (now, n)" by (cases c)
  obtain d' ok where d': "duty_allow now d n = (d', ok)" by (cases "duty_allow now d n")
  have "duty_inv (hist @ (if ok then [\<lparr>deAt = now, deAir = airtime d n\<rparr>] else [])) now d'"
    using allow_inv [OF Cons.prems(1), of now n] Cons.prems(3) c d' by auto
  moreover have "sorted (map fst calls)" "\<forall>c \<in> set calls. now \<le> fst c \<and> 0 \<le> snd c"
    using Cons.prems(2,3) c by simp_all
  ultimately have "air_sum (filter (in_window (dlWindow d') t)
      ((hist @ (if ok then [\<lparr>deAt = now, deAir = airtime d n\<rparr>] else [])) @ duty_log d' calls)) \<le> budget d'"
    by (rule Cons.IH)
  moreover have "dlWindow d' = dlWindow d" "budget d' = budget d"
    using duty_config [of now d n] d' by simp_all
  ultimately show ?case by (simp add: c d')
qed

lemma newDutyLimiter_inv:
  assumes "newDutyLimiter fr br w = Some d"
  shows "duty_inv [] t d"
proof -
  have "0 < dlFraction d" "0 < dlBitrate d" "0 < dlWindow d" "dlEvents d = []" "dlSpent d = 0"
    using assms by (auto simp: newDutyLimiter_def Let_def defaultDutyWindow_def time_Second_def split: if_splits)
  moreover from this have "0 \<le> budget d"
    using f64_nonneg [of "f64 (of_int (dlWindow d)) * dlFraction d"] f64_nonneg [of "of_int (dlWindow d)"]
    by (simp add: budget_def to_duration_def)
  ultimately show ?thesis by (simp add: duty_inv_def)
qed

section \<open>Properties\<close>

text \<open>
  C21. The frames a receiver delivers are exactly the payloads sent, in order, whatever bytes they
  hold and whatever delimiter-free garbage precedes them; a receiver that starts in the middle of
  a frame loses that frame only.
\<close>

theorem kiss_stream_roundtrip:
  assumes "kissFEND \<notin> set garbage" and "0 < n" "n < length (kissEncode p)"
  shows "readLoop (garbage @ concat (map kissEncode ps)) = ps \<and>
         readLoop (drop n (kissEncode p) @ concat (map kissEncode ps)) = ps"
  using readLoop_frames [OF assms(1)] readLoop_cut [OF assms(2,3)] by blast

theorem kiss_stream_roundtrip_witness:
  "readLoop ([1, 2] @ concat (map kissEncode [[0xC0, 0xDB], [], [7]])) = [[0xC0, 0xDB], [], [7]] \<and>
   readLoop (drop 2 (kissEncode [0xC0, 5]) @ concat (map kissEncode [[0xC0, 0xDB], [], [7]])) =
     [[0xC0, 0xDB], [], [7]]"
  by (rule kiss_stream_roundtrip) (simp_all add: kissEncode_concat kiss_escape_def kiss_consts)

text \<open>
  C22. A duty-cycle limiter keeps every sliding window within its budget: for any sequence of
  transmission attempts at non-decreasing times, the airtime of the transmissions it allowed in
  \<open>(t - window, t]\<close> is at most the budget, for every time \<open>t\<close>.
\<close>

theorem duty_cycle_respected:
  assumes "newDutyLimiter fraction bitrate window = Some d"
    and "sorted (map fst calls)" and "\<forall>c \<in> set calls. 0 \<le> snd c"
  shows "(\<Sum>e \<leftarrow> filter (\<lambda>e. t - dlWindow d < deAt e \<and> deAt e \<le> t) (duty_log d calls). deAir e)
           \<le> budget d"
proof -
  define t0 where "t0 = (if calls = [] then 0 else fst (hd calls))"
  have "\<forall>c \<in> set calls. t0 \<le> fst c \<and> 0 \<le> snd c"
    using assms(2,3) by (cases calls) (auto simp: t0_def)
  from duty_log_windows [OF newDutyLimiter_inv [OF assms(1)] assms(2) this, of t] show ?thesis
    unfolding air_sum_def in_window_def by simp
qed

lemma sample_limiter:
  "newDutyLimiter (1 / 100) 5000 0 = Some \<lparr>dlWindow = 3600000000000, dlFraction = 1 / 100, dlBitrate = 5000,
     dlEvents = [], dlSpent = 0\<rparr>"
  by (simp add: newDutyLimiter_def defaultDutyWindow_def time_Second_def)

theorem duty_cycle_respected_witness:
  "\<exists>d. newDutyLimiter (1 / 100) 5000 0 = Some d \<and>
     (\<Sum>e \<leftarrow> filter (\<lambda>e. 30 - dlWindow d < deAt e \<and> deAt e \<le> 30) (duty_log d [(10, 500), (20, 500)]). deAir e)
       \<le> budget d"
  using duty_cycle_respected [OF sample_limiter, of "[(10, 500), (20, 500)]" 30] sample_limiter by auto

text \<open>
  What \<^verbatim>\<open>Send\<close> does: it writes exactly one encoded frame or nothing; it refuses a frame over the
  MTU, a closed interface and a frame over the duty budget, and only then leaves the stream as it
  was.
\<close>

lemma kiss_send_writes_one_frame_or_nothing:
  "case kiss_Send now wok closing k frame of (k', err) \<Rightarrow>
     kOut k' = (if err = None then kOut k @ kissEncode frame else kOut k) \<and>
     (err = None \<longleftrightarrow> int (length frame) \<le> cMTU (kCaps k) \<and> \<not> kDone k \<and> wok \<and>
        snd (allow now (kDuty k) (int (length (kissEncode frame))))) \<and>
     (err = None \<and> kDuty k = None \<longrightarrow> kDuty k' = None) \<and> kDone k' = kDone k"
  by (auto simp: kiss_Send_def Let_def allow_def split: prod.split)

end
