(* ===== verification/Dht.thy ===== *)
theory Dht
  imports Prelude
begin

text \<open>
  Package \<^verbatim>\<open>internal/dht\<close>: 128-bit node identifiers under the XOR metric, the k-bucket routing
  table and the iterative lookup.

  An ID is its 16 bytes; the loops over the array are loops over its 16 indices. The query callback
  of \<^verbatim>\<open>Lookup\<close> threads a state of its own, so that what it was asked is observable.
\<close>

section \<open>Identifiers\<close>

definition IDLen :: nat where "IDLen = 16"
definition IDBits :: nat where "IDBits = IDLen * 8"
definition DefaultK :: int where "DefaultK = 20"
definition DefaultAlpha :: int where "DefaultAlpha = 3"
definition DefaultMaxRounds :: int where "DefaultMaxRounds = 20"

type_synonym dhtID = bytes

definition ParseID :: "string \<Rightarrow> dhtID option" where
  "ParseID s =
     (case hex_DecodeString s of
        None \<Rightarrow> None
      | Some b \<Rightarrow> if length b \<noteq> IDLen then None else Some b)"

definition ID_String :: "dhtID \<Rightarrow> string" where
  "ID_String i = hex_EncodeToString i"

definition IsZero :: "dhtID \<Rightarrow> bool" where
  "IsZero i \<longleftrightarrow> list_all (\<lambda>b. b = 0) i"

definition id_xor :: "dhtID \<Rightarrow> dhtID \<Rightarrow> dhtID" where
  "id_xor a b = map (\<lambda>i. a ! i XOR b ! i) [0..<IDLen]"

fun less_loop :: "dhtID \<Rightarrow> dhtID \<Rightarrow> nat list \<Rightarrow> bool" where
  "less_loop a b [] = False"
| "less_loop a b (i # js) = (if a ! i \<noteq> b ! i then a ! i < b ! i else less_loop a b js)"

definition id_less :: "dhtID \<Rightarrow> dhtID \<Rightarrow> bool" where
  "id_less a b = less_loop a b [0..<IDLen]"

definition closer :: "dhtID \<Rightarrow> dhtID \<Rightarrow> dhtID \<Rightarrow> bool" where
  "closer target a b = id_less (id_xor a target) (id_xor b target)"

text \<open>\<^verbatim>\<open>bits.LeadingZeros8\<close> is 8 minus the number of bits needed for the value.\<close>

fun bits_Len :: "nat \<Rightarrow> nat" where
  "bits_Len n = (if n = 0 then 0 else Suc (bits_Len (n div 2)))"

declare bits_Len.simps [simp del]

definition LeadingZeros8 :: "byte \<Rightarrow> nat" where
  "LeadingZeros8 x = 8 - bits_Len (unat x)"

fun bucket_loop :: "dhtID \<Rightarrow> nat list \<Rightarrow> int" where
  "bucket_loop d [] = - 1"
| "bucket_loop d (i # js) =
     (if d ! i \<noteq> 0 then
        let msbInByte = 7 - int (LeadingZeros8 (d ! i));
            byteFromLSB = int IDLen - 1 - int i
        in byteFromLSB * 8 + msbInByte
      else bucket_loop d js)"

definition bucketIndex :: "dhtID \<Rightarrow> dhtID \<Rightarrow> int" where
  "bucketIndex self other = bucket_loop (id_xor self other) [0..<IDLen]"

section \<open>The routing table\<close>

record contact =
  cID :: dhtID
  cAddress :: string
  cPort :: u16

record routingTable =
  rtSelf :: dhtID
  rtK :: int
  rtBuckets :: "contact list list"

definition NewRoutingTable :: "dhtID \<Rightarrow> int \<Rightarrow> routingTable" where
  "NewRoutingTable self k =
     \<lparr>rtSelf = self, rtK = (if k \<le> 0 then DefaultK else k), rtBuckets = replicate IDBits []\<rparr>"

text \<open>The search loop of \<^verbatim>\<open>Update\<close>: on a match the contact moves to the newest position.\<close>

fun move_newest :: "contact \<Rightarrow> contact list \<Rightarrow> contact list \<Rightarrow> contact list option" where
  "move_newest c before [] = None"
| "move_newest c before (x # after) =
     (if cID x = cID c then Some ((before @ after) @ [c]) else move_newest c (before @ [x]) after)"

definition Update :: "routingTable \<Rightarrow> contact \<Rightarrow> routingTable" where
  "Update rt c =
     (if cID c = rtSelf rt \<or> IsZero (cID c) then rt
      else let bi = bucketIndex (rtSelf rt) (cID c) in
        if bi < 0 then rt
        else let b = rtBuckets rt ! nat bi in
          (case move_newest c [] b of
             Some b' \<Rightarrow> rt\<lparr>rtBuckets := (rtBuckets rt)[nat bi := b']\<rparr>
           | None \<Rightarrow>
               let b = (if int (length b) \<ge> rtK rt then drop 1 b else b)
               in rt\<lparr>rtBuckets := (rtBuckets rt)[nat bi := b @ [c]]\<rparr>))"

definition Closest :: "routingTable \<Rightarrow> dhtID \<Rightarrow> int \<Rightarrow> contact list" where
  "Closest rt target cnt =
     (let all = concat (rtBuckets rt);
          all = sort_by (\<lambda>x y. closer target (cID x) (cID y)) all
      in if cnt \<ge> 0 \<and> int (length all) > cnt then take (nat cnt) all else all)"

definition Len :: "routingTable \<Rightarrow> nat" where
  "Len rt = sum_list (map length (rtBuckets rt))"

section \<open>Iterative lookup\<close>

fun select_batch :: "int \<Rightarrow> dhtID set \<Rightarrow> contact list \<Rightarrow> contact list \<Rightarrow> contact list" where
  "select_batch alpha queried batch [] = batch"
| "select_batch alpha queried batch (c # cs) =
     (if int (length batch) \<ge> alpha then batch
      else select_batch alpha queried (if cID c \<notin> queried then batch @ [c] else batch) cs)"

fun merge_reply :: "contact list \<Rightarrow> dhtID set \<times> contact list \<Rightarrow> dhtID set \<times> contact list" where
  "merge_reply [] (seen, shortlist) = (seen, shortlist)"
| "merge_reply (r # rs) (seen, shortlist) =
     (if cID r \<in> seen then merge_reply rs (seen, shortlist)
      else merge_reply rs (insert (cID r) seen, shortlist @ [r]))"

record 's lookup =
  lkQueried :: "dhtID set"
  lkSeen :: "dhtID set"
  lkShortlist :: "contact list"
  lkEnv :: 's

fun probe_batch :: "('s \<Rightarrow> contact \<Rightarrow> contact list \<times> 's) \<Rightarrow> contact list \<Rightarrow> 's lookup \<Rightarrow> 's lookup" where
  "probe_batch query [] l = l"
| "probe_batch query (c # cs) l =
     (let l = l\<lparr>lkQueried := insert (cID c) (lkQueried l)\<rparr>;
          (reply, env) = query (lkEnv l) c;
          (seen, shortlist) = merge_reply reply (lkSeen l, lkShortlist l)
      in probe_batch query cs (l\<lparr>lkSeen := seen, lkShortlist := shortlist, lkEnv := env\<rparr>))"

definition trim_shortlist :: "dhtID \<Rightarrow> int \<Rightarrow> contact list \<Rightarrow> contact list" where
  "trim_shortlist target k shortlist =
     (let s = sort_by (\<lambda>x y. closer target (cID x) (cID y)) shortlist
      in if int (length s) > k then take (nat k) s else s)"

fun lookup_rounds ::
  "dhtID \<Rightarrow> int \<Rightarrow> int \<Rightarrow> ('s \<Rightarrow> contact \<Rightarrow> contact list \<times> 's) \<Rightarrow> nat \<Rightarrow> 's lookup \<Rightarrow> 's lookup" where
  "lookup_rounds target k alpha query 0 l = l"
| "lookup_rounds target k alpha query (Suc rounds) l =
     (let batch = select_batch alpha (lkQueried l) [] (lkShortlist l) in
      if length batch = 0 then l
      else let l = probe_batch query batch l
           in lookup_rounds target k alpha query rounds
                (l\<lparr>lkShortlist := trim_shortlist target k (lkShortlist l)\<rparr>))"

definition Lookup ::
  "routingTable \<Rightarrow> dhtID \<Rightarrow> int \<Rightarrow> int \<Rightarrow> int \<Rightarrow> ('s \<Rightarrow> contact \<Rightarrow> contact list \<times> 's) \<Rightarrow> 's
     \<Rightarrow> contact list \<times> 's" where
  "Lookup rt target k alpha maxRounds query env =
     (let k = (if k \<le> 0 then rtK rt else k);
          alpha = (if alpha \<le> 0 then DefaultAlpha else alpha);
          maxRounds = (if maxRounds \<le> 0 then DefaultMaxRounds else maxRounds);
          shortlist = Closest rt target k;
          l = lookup_rounds target k alpha query (nat maxRounds)
                \<lparr>lkQueried = {rtSelf rt}, lkSeen = insert (rtSelf rt) (set (map cID shortlist)),
                 lkShortlist = shortlist, lkEnv = env\<rparr>
      in (lkShortlist l, lkEnv l))"

section \<open>The metric as a number\<close>

text \<open>The big-endian value of an ID: the specification of \<open>id_less\<close> and \<open>bucketIndex\<close>.\<close>

fun val_at :: "dhtID \<Rightarrow> nat list \<Rightarrow> nat" where
  "val_at a [] = 0"
| "val_at a (i # js) = unat (a ! i) * 256 ^ length js + val_at a js"

definition id_val :: "dhtID \<Rightarrow> nat" where
  "id_val a = val_at a [0..<IDLen]"

definition distance :: "dhtID \<Rightarrow> dhtID \<Rightarrow> nat" where
  "distance a b = id_val (id_xor a b)"

lemma val_at_less: "val_at a js < 256 ^ length js"
proof (induction js)
  case (Cons i js)
  have "unat (a ! i) * 256 ^ length js + val_at a js < (unat (a ! i) + 1) * 256 ^ length js"
    using Cons by simp
  also have "\<dots> \<le> 256 * 256 ^ length js"
    using unat_byte_less [of "a ! i"] by (intro mult_right_mono) simp_all
  finally show ?case by simp
qed simp

lemma digit_less:
  fixes x y m :: nat
  assumes "x < y" "u < m" "v < m"
  shows "x * m + u < y * m + v"
proof -
  have "x * m + u < Suc x * m" using assms by simp
  also have "\<dots> \<le> y * m" using assms(1) by (intro mult_right_mono) simp_all
  finally show ?thesis by simp
qed

lemma less_loop_val: "less_loop a b js \<longleftrightarrow> val_at a js < val_at b js"
proof (induction js)
  case (Cons i js)
  show ?case
  proof (cases "a ! i = b ! i")
    case False
    then consider "unat (a ! i) < unat (b ! i)" | "unat (b ! i) < unat (a ! i)"
      by (metis nat_neq_iff word_unat_eq_iff)
    then show ?thesis
      using False digit_less [OF _ val_at_less [of a js] val_at_less [of b js]]
        digit_less [OF _ val_at_less [of b js] val_at_less [of a js]]
      by cases (auto simp: word_less_nat_alt order_less_not_sym)
  qed (simp add: Cons)
qed simp

lemma closer_distance: "closer t a b \<longleftrightarrow> distance a t < distance b t"
  by (simp add: closer_def id_less_def less_loop_val distance_def id_val_def)

interpretation near: comparison "\<lambda>x y. closer t (cID x) (cID y)" for t
  by unfold_locales (simp_all add: closer_distance)

lemma bits_Len_bounds: "0 < n \<Longrightarrow> 0 < bits_Len n \<and> 2 ^ (bits_Len n - 1) \<le> n \<and> n < 2 ^ bits_Len n"
proof (induction n rule: bits_Len.induct)
  case (1 n)
  show ?case
  proof (cases "n div 2 = 0")
    case True
    then have "n = 1" using 1 by simp
    then show ?thesis by (simp add: bits_Len.simps)
  next
    case False
    then have ih: "0 < bits_Len (n div 2)" "2 ^ (bits_Len (n div 2) - 1) \<le> n div 2" "n div 2 < 2 ^ bits_Len (n div 2)"
      using 1 by simp_all
    have l: "bits_Len n = Suc (bits_Len (n div 2))" using 1 by (subst bits_Len.simps) simp
    have "(2 :: nat) ^ bits_Len (n div 2) = 2 * 2 ^ (bits_Len (n div 2) - 1)"
      using ih(1) by (cases "bits_Len (n div 2)") simp_all
    moreover have "2 * (n div 2) \<le> n" "n < 2 * (n div 2) + 2" by simp_all
    ultimately show ?thesis using ih unfolding l by (simp only: power_Suc diff_Suc_1) linarith
  qed
qed

lemma bucket_loop_bounds:
  assumes "js = [m..<IDLen]" and "val_at d js \<noteq> 0"
  shows "0 \<le> bucket_loop d js \<and> 2 ^ nat (bucket_loop d js) \<le> val_at d js \<and>
         val_at d js < 2 ^ (nat (bucket_loop d js) + 1)"
  using assms
proof (induction js arbitrary: m)
  case (Cons i js)
  from Cons.prems(1) [symmetric] have i: "i = m" "m < IDLen" "js = [Suc m..<IDLen]"
    unfolding upt_eq_Cons_conv by auto
  show ?case
  proof (cases "d ! i = 0")
    case True
    then show ?thesis using Cons.IH [OF i(3)] Cons.prems(2) by simp
  next
    case False
    define n where "n = unat (d ! i)"
    have n: "0 < n" "n < 256" using False unat_byte_less [of "d ! i"] by (simp_all add: n_def unat_gt_0)
    note L = bits_Len_bounds [OF n(1)]
    have "bits_Len n \<le> 8"
    proof (rule ccontr)
      assume "\<not> bits_Len n \<le> 8"
      then have "(2 :: nat) ^ 8 \<le> 2 ^ (bits_Len n - 1)" by (intro power_increasing) simp_all
      with L n(2) show False by simp
    qed
    define e where "e = length js * 8 + (bits_Len n - 1)"
    have b: "bucket_loop d (i # js) = int e"
      using False L i \<open>bits_Len n \<le> 8\<close>
      by (simp add: Let_def LeadingZeros8_def n_def IDLen_def of_nat_diff e_def)
    have e: "(2 :: nat) ^ e = 2 ^ (bits_Len n - 1) * 256 ^ length js"
      by (simp add: e_def power_add mult.commute [of _ 8] power_mult)
    have "2 ^ (bits_Len n - 1) * 256 ^ length js \<le> n * 256 ^ length js + val_at d js"
      using L by (intro trans_le_add1 mult_right_mono) simp_all
    moreover have "n * 256 ^ length js + val_at d js < 2 ^ bits_Len n * 256 ^ length js"
      using digit_less [of n "2 ^ bits_Len n" "val_at d js" "256 ^ length js" 0] L val_at_less [of d js] by simp
    moreover have "2 ^ bits_Len n = 2 * (2 :: nat) ^ (bits_Len n - 1)"
      using L by (cases "bits_Len n") simp_all
    ultimately show ?thesis
      unfolding b nat_int power_add e by (simp add: n_def [symmetric])
  qed
qed simp

lemma val_at_zero_iff: "val_at d js = 0 \<longleftrightarrow> (\<forall>i \<in> set js. d ! i = 0)"
  by (induction js) (simp_all add: unat_eq_0)

lemma word_xor_eq_0: "(x :: byte) XOR y = 0 \<longleftrightarrow> x = y"
  by (auto simp: bit_eq_iff bit_simps)

lemma word_xor_cancel: "(x :: byte) XOR z = y XOR z \<longleftrightarrow> x = y"
  by (auto simp: bit_eq_iff bit_simps)

lemma distance_zero_iff:
  assumes "length a = IDLen" "length b = IDLen"
  shows "distance a b = 0 \<longleftrightarrow> a = b"
proof -
  have "distance a b = 0 \<longleftrightarrow> (\<forall>i < IDLen. a ! i XOR b ! i = 0)"
    by (auto simp: distance_def id_val_def val_at_zero_iff id_xor_def)
  also have "\<dots> \<longleftrightarrow> a = b" using assms by (auto simp: list_eq_iff_nth_eq word_xor_eq_0)
  finally show ?thesis .
qed

lemma distance_less: "distance a b < 2 ^ IDBits"
  using val_at_less [of "id_xor a b" "[0..<IDLen]"]
  by (simp add: distance_def id_val_def IDBits_def IDLen_def)

lemma bucketIndex_bounds:
  assumes "length a = IDLen" "length b = IDLen" "a \<noteq> b"
  shows "0 \<le> bucketIndex a b \<and> 2 ^ nat (bucketIndex a b) \<le> distance a b \<and>
         distance a b < 2 ^ (nat (bucketIndex a b) + 1)"
  using bucket_loop_bounds [of "[0..<IDLen]" 0 "id_xor a b"] assms distance_zero_iff [OF assms(1,2)]
  by (simp add: bucketIndex_def distance_def id_val_def)

lemma bucketIndex_self: "bucketIndex a a = - 1"
proof -
  have "bucket_loop (id_xor a a) js = - 1" if "set js \<subseteq> {..<IDLen}" for js
    using that by (induction js) (auto simp: id_xor_def)
  then show ?thesis by (simp add: bucketIndex_def lessThan_atLeast0)
qed

lemma bucketIndex_less: "bucketIndex a b < int IDBits"
proof -
  have "bucket_loop d js < int IDBits" for d js
    by (induction js) (auto simp: Let_def IDBits_def IDLen_def)
  then show ?thesis by (simp add: bucketIndex_def)
qed

lemma val_at_inj: "val_at a js = val_at b js \<Longrightarrow> \<forall>i \<in> set js. a ! i = b ! i"
proof (induction js)
  case (Cons i js)
  have "unat (a ! i) = unat (b ! i)"
    using Cons.prems digit_less [OF _ val_at_less [of a js] val_at_less [of b js]]
      digit_less [OF _ val_at_less [of b js] val_at_less [of a js]]
    by (metis nat_neq_iff val_at.simps(2))
  with Cons show ?case by (simp add: word_unat_eq_iff)
qed simp

lemma distance_inj:
  assumes "length a = IDLen" "length b = IDLen" "distance a t = distance b t"
  shows "a = b"
proof (rule nth_equalityI)
  fix i assume "i < length a"
  then have "a ! i XOR t ! i = b ! i XOR t ! i"
    using assms val_at_inj [of "id_xor a t" "[0..<IDLen]" "id_xor b t"]
    by (simp add: distance_def id_val_def id_xor_def)
  then show "a ! i = b ! i" by (simp add: word_xor_cancel)
qed (use assms in simp)

section \<open>The table invariant\<close>

definition bucket_ok :: "routingTable \<Rightarrow> nat \<Rightarrow> contact list \<Rightarrow> bool" where
  "bucket_ok rt i b \<longleftrightarrow> int (length b) \<le> rtK rt \<and> distinct (map cID b) \<and>
     list_all (\<lambda>c. length (cID c) = IDLen \<and> cID c \<noteq> rtSelf rt \<and> \<not> IsZero (cID c) \<and>
       bucketIndex (rtSelf rt) (cID c) = int i) b"

definition rt_ok :: "routingTable \<Rightarrow> bool" where
  "rt_ok rt \<longleftrightarrow> length (rtSelf rt) = IDLen \<and> 0 < rtK rt \<and> length (rtBuckets rt) = IDBits \<and>
     (\<forall>i < IDBits. bucket_ok rt i (rtBuckets rt ! i))"

text \<open>The contract of a bucket: a list of at most k contacts, oldest first.\<close>

definition lru_put :: "int \<Rightarrow> contact \<Rightarrow> contact list \<Rightarrow> contact list" where
  "lru_put k c b =
     (if cID c \<in> cID ` set b then filter (\<lambda>x. cID x \<noteq> cID c) b @ [c]
      else if int (length b) < k then b @ [c]
      else tl b @ [c])"

lemma move_newest_filter:
  assumes "distinct (map cID b)"
  shows "move_newest c pre b =
    (if cID c \<in> cID ` set b then Some (pre @ filter (\<lambda>x. cID x \<noteq> cID c) b @ [c]) else None)"
  using assms
proof (induction b arbitrary: pre)
  case (Cons x b)
  have "filter (\<lambda>y. cID y \<noteq> cID x) b = b"
    using Cons.prems by (auto simp: filter_id_conv image_iff)
  with Cons show ?case by auto
qed simp

lemma Update_lru:
  assumes "rt_ok rt" "length (cID c) = IDLen" "cID c \<noteq> rtSelf rt" "\<not> IsZero (cID c)"
  shows "Update rt c = rt\<lparr>rtBuckets := (rtBuckets rt)[nat (bucketIndex (rtSelf rt) (cID c)) :=
           lru_put (rtK rt) c (rtBuckets rt ! nat (bucketIndex (rtSelf rt) (cID c)))]\<rparr>"
proof -
  let ?i = "nat (bucketIndex (rtSelf rt) (cID c))"
  have "0 \<le> bucketIndex (rtSelf rt) (cID c)"
    using bucketIndex_bounds [of "rtSelf rt" "cID c"] assms by (simp add: rt_ok_def)
  moreover have "?i < IDBits" using bucketIndex_less [of "rtSelf rt" "cID c"] by (simp add: IDBits_def IDLen_def)
  then have "distinct (map cID (rtBuckets rt ! ?i))"
    using assms(1) by (simp add: rt_ok_def bucket_ok_def)
  ultimately show ?thesis
    using assms(3,4) by (auto simp: Update_def Let_def move_newest_filter lru_put_def drop_Suc)
qed

lemma bucket_ok_lru_put:
  assumes "bucket_ok rt i b" "0 < rtK rt" "length (cID c) = IDLen" "cID c \<noteq> rtSelf rt"
    "\<not> IsZero (cID c)" "bucketIndex (rtSelf rt) (cID c) = int i"
  shows "bucket_ok rt i (lru_put (rtK rt) c b)"
proof (cases "cID c \<in> cID ` set b")
  case True
  then obtain x where "x \<in> set b" "cID x = cID c" by auto
  then have "length (filter (\<lambda>x. cID x \<noteq> cID c) b) < length b"
    by (intro length_filter_less [of x]) auto
  moreover have "distinct (map cID (filter (\<lambda>x. cID x \<noteq> cID c) b))"
    using assms(1) by (simp add: bucket_ok_def distinct_map_filter)
  ultimately show ?thesis
    using assms True by (auto simp: bucket_ok_def lru_put_def list_all_iff)
next
  case False
  have "set (tl b) \<subseteq> set b" by (cases b) auto
  moreover have "distinct (map cID (tl b))"
    using assms(1) by (cases b) (simp_all add: bucket_ok_def)
  ultimately show ?thesis
    using assms False by (cases b) (auto simp: bucket_ok_def lru_put_def list_all_iff)
qed

lemma Update_ignored: "cID c = rtSelf rt \<or> IsZero (cID c) \<Longrightarrow> Update rt c = rt"
  by (simp add: Update_def)

lemma rt_ok_Update:
  assumes "rt_ok rt" "length (cID c) = IDLen"
  shows "rt_ok (Update rt c)"
proof (cases "cID c = rtSelf rt \<or> IsZero (cID c)")
  case False
  let ?i = "nat (bucketIndex (rtSelf rt) (cID c))"
  have i: "bucketIndex (rtSelf rt) (cID c) = int ?i" "?i < IDBits"
    using bucketIndex_bounds [of "rtSelf rt" "cID c"] bucketIndex_less [of "rtSelf rt" "cID c"] assms False
    by (auto simp: rt_ok_def IDBits_def IDLen_def)
  have "bucket_ok rt ?i (lru_put (rtK rt) c (rtBuckets rt ! ?i))"
    using assms i False by (intro bucket_ok_lru_put) (auto simp: rt_ok_def)
  then have "bucket_ok rt j ((rtBuckets rt)[?i := lru_put (rtK rt) c (rtBuckets rt ! ?i)] ! j)"
    if "j < IDBits" for j
    using that assms(1) by (cases "j = ?i") (auto simp: rt_ok_def)
  then show ?thesis
    using assms(1) Update_lru [OF assms] False by (simp add: rt_ok_def bucket_ok_def)
qed (use assms in \<open>simp add: Update_ignored\<close>)

lemma rt_ok_New: "length self = IDLen \<Longrightarrow> rt_ok (NewRoutingTable self k)"
  by (simp add: rt_ok_def NewRoutingTable_def bucket_ok_def DefaultK_def)

section \<open>Closest contacts\<close>

abbreviation contacts :: "routingTable \<Rightarrow> contact list" where
  "contacts rt \<equiv> concat (rtBuckets rt)"

lemma in_set_concat_nth: "y \<in> set (concat bs) \<Longrightarrow> \<exists>i < length bs. y \<in> set (bs ! i)"
  by (auto simp: in_set_conv_nth [of _ bs])

lemma distinct_map_concat:
  assumes "\<And>i. i < length bs \<Longrightarrow> distinct (map f (bs ! i)) \<and> (\<forall>x \<in> set (bs ! i). g (f x) = int (i + off))"
  shows "distinct (map f (concat bs))"
  using assms
proof (induction bs arbitrary: off)
  case (Cons b bs)
  have tail: "distinct (map f (concat bs))"
  proof (rule Cons.IH)
    fix i assume "i < length bs"
    then show "distinct (map f (bs ! i)) \<and> (\<forall>x \<in> set (bs ! i). g (f x) = int (i + Suc off))"
      using Cons.prems [of "Suc i"] by simp
  qed
  have "g (f x) = int off" if "x \<in> set b" for x using Cons.prems [of 0] that by simp
  moreover have "g (f y) > int off" if "y \<in> set (concat bs)" for y
  proof -
    from in_set_concat_nth [OF that] obtain i where "i < length bs" "y \<in> set (bs ! i)" by blast
    then show ?thesis using Cons.prems [of "Suc i"] by simp
  qed
  ultimately have "f x \<noteq> f y" if "x \<in> set b" "y \<in> set (concat bs)" for x y
    using that by (metis order_less_irrefl)
  then have "f ` set b \<inter> f ` set (concat bs) = {}" by blast
  with tail Cons.prems [of 0] show ?case by simp
qed simp

lemma contacts_ok:
  assumes "rt_ok rt"
  shows "distinct (map cID (contacts rt))"
    and "c \<in> set (contacts rt) \<Longrightarrow> length (cID c) = IDLen \<and> cID c \<noteq> rtSelf rt"
proof -
  have "bucket_ok rt i (rtBuckets rt ! i)" if "i < length (rtBuckets rt)" for i
    using that assms by (simp add: rt_ok_def)
  then show "distinct (map cID (contacts rt))"
    by (intro distinct_map_concat [where g = "bucketIndex (rtSelf rt)" and off = 0])
      (auto simp: bucket_ok_def list_all_iff)
  show "length (cID c) = IDLen \<and> cID c \<noteq> rtSelf rt" if "c \<in> set (contacts rt)"
  proof -
    from in_set_concat_nth [OF that] obtain i where "i < length (rtBuckets rt)" "c \<in> set (rtBuckets rt ! i)"
      by blast
    then show ?thesis using assms by (auto simp: rt_ok_def bucket_ok_def list_all_iff)
  qed
qed

lemma Closest_take:
  "0 \<le> n \<Longrightarrow> Closest rt t n = take (nat n) (sort_by (\<lambda>x y. closer t (cID x) (cID y)) (contacts rt))"
  by (auto simp: Closest_def Let_def)

lemma Len_contacts: "Len rt = length (contacts rt)"
  by (simp add: Len_def length_concat)

section \<open>Lookup\<close>

text \<open>A query that answers from what it has been asked so far and records every probe.\<close>

definition logged :: "(contact list \<Rightarrow> contact \<Rightarrow> contact list) \<Rightarrow> contact list \<Rightarrow> contact \<Rightarrow> contact list \<times> contact list" where
  "logged ans log c = (ans log c, log @ [c])"

lemma select_batch_take:
  assumes "0 \<le> alpha"
  shows "select_batch alpha q b cs = b @ take (nat alpha - length b) (filter (\<lambda>c. cID c \<notin> q) cs)"
proof (induction cs arbitrary: b)
  case (Cons c cs)
  show ?case
  proof (cases "alpha \<le> int (length b)")
    case False
    then have "nat alpha - length b = Suc (nat alpha - Suc (length b))" by linarith
    then show ?thesis using False Cons by simp
  qed (use assms in simp)
qed simp

definition lk_inv :: "dhtID \<Rightarrow> contact list lookup \<Rightarrow> bool" where
  "lk_inv self l \<longleftrightarrow> distinct (map cID (lkShortlist l)) \<and> cID ` set (lkShortlist l) \<subseteq> lkSeen l \<and>
     self \<in> lkSeen l \<and> self \<notin> cID ` set (lkShortlist l) \<and>
     distinct (map cID (lkEnv l)) \<and> lkQueried l = insert self (cID ` set (lkEnv l)) \<and>
     self \<notin> cID ` set (lkEnv l)"

lemma merge_reply_inv:
  assumes "merge_reply rs (seen, sl) = (seen', sl')"
    and "distinct (map cID sl)" "cID ` set sl \<subseteq> seen" "self \<in> seen" "self \<notin> cID ` set sl"
  shows "distinct (map cID sl') \<and> cID ` set sl' \<subseteq> seen' \<and> self \<in> seen' \<and> self \<notin> cID ` set sl'"
  using assms
proof (induction rs arbitrary: seen sl)
  case (Cons r rs)
  show ?case
  proof (cases "cID r \<in> seen")
    case True
    then show ?thesis using Cons by simp
  next
    case False
    then have "merge_reply rs (insert (cID r) seen, sl @ [r]) = (seen', sl')" using Cons.prems(1) by simp
    then show ?thesis
    proof (rule Cons.IH)
      show "distinct (map cID (sl @ [r]))" using Cons.prems(2,3) False by auto
    qed (use Cons.prems(3-5) False in auto)
  qed
qed simp

lemma probe_batch_inv:
  assumes "lk_inv self l" "distinct (map cID cs)" "cID ` set cs \<inter> lkQueried l = {}"
  shows "lk_inv self (probe_batch (logged ans) cs l) \<and> lkEnv (probe_batch (logged ans) cs l) = lkEnv l @ cs"
  using assms
proof (induction cs arbitrary: l)
  case (Cons c cs)
  obtain seen sl where m: "merge_reply (ans (lkEnv l) c) (lkSeen l, lkShortlist l) = (seen, sl)"
    by (cases "merge_reply (ans (lkEnv l) c) (lkSeen l, lkShortlist l)")
  define l' where "l' = l\<lparr>lkQueried := insert (cID c) (lkQueried l), lkSeen := seen,
    lkShortlist := sl, lkEnv := lkEnv l @ [c]\<rparr>"
  have step: "probe_batch (logged ans) (c # cs) l = probe_batch (logged ans) cs l'"
    using m by (simp add: Let_def logged_def l'_def)
  have "lk_inv self l'"
    using Cons.prems merge_reply_inv [OF m, of self] by (auto simp: lk_inv_def l'_def)
  moreover have "cID ` set cs \<inter> lkQueried l' = {}"
    using Cons.prems(2,3) by (auto simp: l'_def)
  ultimately show ?case
    using Cons.IH [of l'] Cons.prems(2) unfolding step by (simp add: l'_def)
qed simp

lemma trim_shortlist_props:
  assumes "0 \<le> k"
  shows "trim_shortlist t k sl = take (nat k) (sort_by (\<lambda>x y. closer t (cID x) (cID y)) sl)"
  using assms by (auto simp: trim_shortlist_def Let_def)

lemma set_take_sort: "set (take n (sort_by lt xs)) \<subseteq> set xs"
  by (metis set_sort_by set_take_subset)

lemma trim_inv: "0 \<le> k \<Longrightarrow> lk_inv self l \<Longrightarrow> lk_inv self (l\<lparr>lkShortlist := trim_shortlist t k (lkShortlist l)\<rparr>)"
  using set_take_sort [of "nat k" "\<lambda>x y. closer t (cID x) (cID y)" "lkShortlist l"]
  by (auto simp: lk_inv_def trim_shortlist_props distinct_take simp flip: take_map)

lemma lookup_rounds_inv:
  assumes "lk_inv self l" "0 < k" "0 < alpha"
    and "sorted_wrt (\<lambda>x y. \<not> closer t (cID y) (cID x)) (lkShortlist l)" "int (length (lkShortlist l)) \<le> k"
  shows "lk_inv self (lookup_rounds t k alpha (logged ans) n l) \<and>
     sorted_wrt (\<lambda>x y. \<not> closer t (cID y) (cID x)) (lkShortlist (lookup_rounds t k alpha (logged ans) n l)) \<and>
     int (length (lkShortlist (lookup_rounds t k alpha (logged ans) n l))) \<le> k \<and>
     length (lkEnv (lookup_rounds t k alpha (logged ans) n l)) \<le> length (lkEnv l) + nat alpha * n \<and>
     (cID ` set (lkShortlist (lookup_rounds t k alpha (logged ans) n l))
        \<subseteq> cID ` set (lkEnv (lookup_rounds t k alpha (logged ans) n l)) \<or>
      length (lkEnv l) + n \<le> length (lkEnv (lookup_rounds t k alpha (logged ans) n l)))"
  using assms
proof (induction n arbitrary: l)
  case (Suc n)
  define batch where "batch = take (nat alpha) (filter (\<lambda>c. cID c \<notin> lkQueried l) (lkShortlist l))"
  have sel: "select_batch alpha (lkQueried l) [] (lkShortlist l) = batch"
    using Suc.prems(3) by (simp add: select_batch_take batch_def)
  show ?case
  proof (cases "batch = []")
    case True
    then have "filter (\<lambda>c. cID c \<notin> lkQueried l) (lkShortlist l) = []"
      using Suc.prems(3) by (simp add: batch_def)
    then have "cID ` set (lkShortlist l) \<subseteq> cID ` set (lkEnv l)"
      using Suc.prems(1) by (auto simp: filter_empty_conv lk_inv_def)
    with True Suc.prems sel show ?thesis by simp
  next
    case False
    define l1 where "l1 = probe_batch (logged ans) batch l"
    define l2 where "l2 = l1\<lparr>lkShortlist := trim_shortlist t k (lkShortlist l1)\<rparr>"
    have step: "lookup_rounds t k alpha (logged ans) (Suc n) l = lookup_rounds t k alpha (logged ans) n l2"
      using False sel by (simp add: Let_def l1_def l2_def)
    have "distinct (map cID batch)" "cID ` set batch \<inter> lkQueried l = {}"
      using Suc.prems(1) by (auto simp: batch_def lk_inv_def distinct_map_filter distinct_take
          simp flip: take_map dest!: in_set_takeD)
    from probe_batch_inv [OF Suc.prems(1) this, of ans]
    have l1: "lk_inv self l1" "lkEnv l1 = lkEnv l @ batch" by (simp_all add: l1_def)
    have "lk_inv self l2" using trim_inv [OF _ l1(1)] Suc.prems(2) by (simp add: l2_def)
    moreover have "sorted_wrt (\<lambda>x y. \<not> closer t (cID y) (cID x)) (lkShortlist l2)" "int (length (lkShortlist l2)) \<le> k"
      using Suc.prems(2) near.ordered_sort_by [of t "lkShortlist l1"]
      by (simp_all add: l2_def trim_shortlist_props sorted_wrt_take)
    moreover have "length batch \<le> nat alpha" by (simp add: batch_def)
    then obtain b where "0 < b" "b \<le> nat alpha" "length (lkEnv l2) = length (lkEnv l) + b"
      using l1(2) False by (intro that [of "length batch"]) (simp_all add: l2_def)
    ultimately show ?thesis
      using Suc.IH [of l2] Suc.prems(2,3) unfolding step by auto
  qed
qed simp

section \<open>Properties\<close>

text \<open>
  \<^verbatim>\<open>bucketIndex\<close> is the position of the leading bit of the XOR distance: it is -1 exactly for the
  node itself, and otherwise the logarithm of the distance read as a 128-bit number; \<^verbatim>\<open>closer\<close>
  compares those numbers.
\<close>

lemma bucket_index_is_log_distance:
  assumes "length a = IDLen" and "length b = IDLen"
  shows "(bucketIndex a b = - 1 \<longleftrightarrow> a = b) \<and>
         (a \<noteq> b \<longrightarrow> 0 \<le> bucketIndex a b \<and> bucketIndex a b < int IDBits \<and>
            2 ^ nat (bucketIndex a b) \<le> distance a b \<and> distance a b < 2 ^ (nat (bucketIndex a b) + 1)) \<and>
         (closer t a b \<longleftrightarrow> distance a t < distance b t)"
  using bucketIndex_bounds [OF assms] bucketIndex_self [of a] bucketIndex_less [of a b]
  by (cases "a = b") (auto simp: closer_distance)

text \<open>
  C23. The routing table invariant (128 buckets of at most k contacts with distinct identifiers, each
  contact in the bucket of its distance, never the node itself) is established by the constructor
  and kept by every sighting; a sighting refines the contract of a bucket: the contact becomes the
  newest of its own bucket, the oldest one leaves when the bucket is full, nothing else changes.
\<close>

theorem routing_table_update:
  assumes "rt_ok rt" and "length (cID c) = IDLen" and "length self = IDLen"
  shows "rt_ok (NewRoutingTable self k) \<and> rt_ok (Update rt c) \<and>
         (cID c = rtSelf rt \<or> IsZero (cID c) \<longrightarrow> Update rt c = rt) \<and>
         (cID c \<noteq> rtSelf rt \<and> \<not> IsZero (cID c) \<longrightarrow>
            Update rt c = rt\<lparr>rtBuckets := (rtBuckets rt)[nat (bucketIndex (rtSelf rt) (cID c)) :=
              lru_put (rtK rt) c (rtBuckets rt ! nat (bucketIndex (rtSelf rt) (cID c)))]\<rparr>)"
  using rt_ok_New [OF assms(3)] rt_ok_Update [OF assms(1,2)] Update_lru [OF assms(1,2)] Update_ignored
  by blast

definition sample_contact :: contact where
  "sample_contact = \<lparr>cID = replicate 15 0 @ [1], cAddress = ''a:1'', cPort = 1\<rparr>"

theorem routing_table_update_witness:
  "rt_ok (Update (NewRoutingTable (replicate 16 0) 2) sample_contact)"
  using routing_table_update [OF rt_ok_New, of "replicate 16 0" sample_contact "replicate 16 0" 2 2]
  by (simp add: IDLen_def sample_contact_def)

text \<open>
  C24. \<^verbatim>\<open>Closest\<close> returns the contacts nearest to the target, strictly by increasing distance, as many as
  asked for or all of them; every contact it leaves out is farther than every contact it returns.
  Any sorted permutation of the contacts gives the same result, so the unstable library sort does
  not matter.
\<close>

theorem closest_is_nearest:
  assumes "rt_ok rt" and "0 \<le> n"
  shows "length (Closest rt t n) = min (nat n) (Len rt) \<and>
         sorted_wrt (\<lambda>x y. distance (cID x) t < distance (cID y) t) (Closest rt t n) \<and>
         set (Closest rt t n) \<subseteq> set (concat (rtBuckets rt)) \<and>
         (\<forall>x \<in> set (Closest rt t n). \<forall>y \<in> set (concat (rtBuckets rt)) - set (Closest rt t n).
            distance (cID x) t < distance (cID y) t) \<and>
         (\<forall>s. mset s = mset (concat (rtBuckets rt)) \<and>
            sorted_wrt (\<lambda>x y. \<not> closer t (cID y) (cID x)) s \<longrightarrow> Closest rt t n = take (nat n) s)"
proof -
  let ?s = "sort_by (\<lambda>x y. closer t (cID x) (cID y)) (contacts rt)"
  have strict: "distance (cID x) t < distance (cID y) t \<or> distance (cID y) t < distance (cID x) t"
    if "x \<in> set (contacts rt)" "y \<in> set (contacts rt)" "x \<noteq> y" for x y
  proof -
    have "cID x \<noteq> cID y" using that contacts_ok(1) [OF assms(1)] by (auto simp: distinct_map inj_on_def)
    then show ?thesis
      using distance_inj [of "cID x" "cID y" t] that contacts_ok(2) [OF assms(1)] by (metis nat_neq_iff)
  qed
  have dist: "distinct ?s" using contacts_ok(1) [OF assms(1)] by (simp add: distinct_map)
  have sorted: "sorted_wrt (\<lambda>x y. distance (cID x) t < distance (cID y) t) ?s"
    using near.ordered_strict [OF near.ordered_sort_by dist] strict by (simp add: closer_distance)
  have split: "sorted_wrt (\<lambda>x y. distance (cID x) t < distance (cID y) t) (take (nat n) ?s @ drop (nat n) ?s)"
    using sorted by simp
  have "\<forall>x \<in> set (take (nat n) ?s). \<forall>y \<in> set (contacts rt) - set (take (nat n) ?s).
      distance (cID x) t < distance (cID y) t"
  proof (intro ballI)
    fix x y assume x: "x \<in> set (take (nat n) ?s)" and y: "y \<in> set (contacts rt) - set (take (nat n) ?s)"
    then have "y \<in> set (take (nat n) ?s @ drop (nat n) ?s)" by simp
    then have "y \<in> set (drop (nat n) ?s)" using y by (auto simp del: append_take_drop_id)
    with x split show "distance (cID x) t < distance (cID y) t" by (simp only: sorted_wrt_append)
  qed
  moreover have "Closest rt t n = take (nat n) s"
    if "mset s = mset (contacts rt)" "sorted_wrt (\<lambda>x y. \<not> closer t (cID y) (cID x)) s" for s
  proof -
    have "?s = s"
    proof (rule near.sorted_perm_unique)
      show "closer t (cID x) (cID y) \<or> closer t (cID y) (cID x)"
        if "x \<in> set ?s" "y \<in> set ?s" "x \<noteq> y" for x y
        using strict that by (simp add: closer_distance)
    qed (use that near.ordered_sort_by in simp_all)
    then show ?thesis using assms(2) by (simp add: Closest_take)
  qed
  ultimately show ?thesis
    using sorted assms(2) set_take_sort [of "nat n" _ "contacts rt"]
    by (simp add: Closest_take Len_contacts sorted_wrt_take min.commute)
qed

theorem closest_is_nearest_witness:
  "length (Closest (Update (NewRoutingTable (replicate 16 0) 2) sample_contact) (replicate 16 9) 5) = 1"
proof -
  have "rt_ok (Update (NewRoutingTable (replicate 16 0) 2) sample_contact)"
    by (rule rt_ok_Update [OF rt_ok_New]) (simp_all add: IDLen_def sample_contact_def)
  moreover have "Len (Update (NewRoutingTable (replicate 16 0) 2) sample_contact) = 1" by code_simp
  ultimately show ?thesis using closest_is_nearest [of _ 5 "replicate 16 9"] by simp
qed

text \<open>
  C9. The iterative lookup, against any peers, including ones whose answers are chosen adversarially
  and depend on everything asked before: it ends after at most \<^verbatim>\<open>maxRounds\<close> rounds of at most \<^verbatim>\<open>alpha\<close>
  probes, never probes a node twice and never itself, and returns at most k distinct contacts by
  increasing distance; it has probed all of them unless the round limit cut it off.
\<close>

theorem lookup_is_bounded_and_sorted:
  assumes "rt_ok rt" and "0 < k" and "0 < alpha" and "0 < maxRounds"
  shows "case Lookup rt t k alpha maxRounds (\<lambda>log c. (ans log c, log @ [c])) [] of (res, log) \<Rightarrow>
     int (length res) \<le> k \<and> distinct (map cID res) \<and> rtSelf rt \<notin> cID ` set res \<and>
     sorted_wrt (\<lambda>x y. distance (cID x) t \<le> distance (cID y) t) res \<and>
     int (length log) \<le> alpha * maxRounds \<and> distinct (map cID log) \<and> rtSelf rt \<notin> cID ` set log \<and>
     (cID ` set res \<subseteq> cID ` set log \<or> maxRounds \<le> int (length log))"
proof -
  define l0 where "l0 = \<lparr>lkQueried = {rtSelf rt},
    lkSeen = insert (rtSelf rt) (set (map cID (Closest rt t k))), lkShortlist = Closest rt t k, lkEnv = [] :: contact list\<rparr>"
  define l where "l = lookup_rounds t k alpha (logged ans) (nat maxRounds) l0"
  have cl: "Closest rt t k = take (nat k) (sort_by (\<lambda>x y. closer t (cID x) (cID y)) (contacts rt))"
    using assms(2) by (simp add: Closest_take)
  have sub: "set (Closest rt t k) \<subseteq> set (contacts rt)"
    unfolding cl by (rule set_take_sort)
  have "distinct (map cID (Closest rt t k))"
    using contacts_ok(1) [OF assms(1)] by (simp add: cl distinct_take flip: take_map)
  moreover have "rtSelf rt \<notin> cID ` set (Closest rt t k)"
  proof
    assume "rtSelf rt \<in> cID ` set (Closest rt t k)"
    then obtain c where "c \<in> set (contacts rt)" "cID c = rtSelf rt" using sub by (metis imageE subsetD)
    then show False using contacts_ok(2) [OF assms(1), of c] by simp
  qed
  ultimately have "lk_inv (rtSelf rt) l0" by (simp add: lk_inv_def l0_def subset_insertI)
  moreover have "sorted_wrt (\<lambda>x y. \<not> closer t (cID y) (cID x)) (lkShortlist l0)" "int (length (lkShortlist l0)) \<le> k"
    using near.ordered_sort_by [of t "contacts rt"] assms(2) by (simp_all add: l0_def cl sorted_wrt_take)
  ultimately have inv: "lk_inv (rtSelf rt) l \<and> sorted_wrt (\<lambda>x y. \<not> closer t (cID y) (cID x)) (lkShortlist l) \<and>
     int (length (lkShortlist l)) \<le> k \<and> length (lkEnv l) \<le> length (lkEnv l0) + nat alpha * nat maxRounds \<and>
     (cID ` set (lkShortlist l) \<subseteq> cID ` set (lkEnv l) \<or> length (lkEnv l0) + nat maxRounds \<le> length (lkEnv l))"
    unfolding l_def by (rule lookup_rounds_inv [OF _ assms(2,3)])
  have query: "(\<lambda>log c. (ans log c, log @ [c])) = logged ans"
    by (simp add: logged_def fun_eq_iff)
  have res: "Lookup rt t k alpha maxRounds (\<lambda>log c. (ans log c, log @ [c])) [] = (lkShortlist l, lkEnv l)"
    using assms(2-4) unfolding query Lookup_def Let_def l_def l0_def by simp
  have "length (lkEnv l) \<le> nat alpha * nat maxRounds" using inv by (simp add: l0_def)
  then have "int (length (lkEnv l)) \<le> int (nat alpha * nat maxRounds)" by (simp only: of_nat_le_iff)
  then have len: "int (length (lkEnv l)) \<le> alpha * maxRounds" using assms(3,4) by simp
  have conv: "cID ` set (lkShortlist l) \<subseteq> cID ` set (lkEnv l) \<or> maxRounds \<le> int (length (lkEnv l))"
    using inv by (auto simp: l0_def)
  show ?thesis
    unfolding res prod.case using inv len conv
    by (simp only: lk_inv_def closer_distance not_less simp_thms)
qed

theorem lookup_is_bounded_and_sorted_witness:
  "case Lookup (NewRoutingTable (replicate 16 0) 2) (replicate 16 7) 4 3 5 (\<lambda>log c. ([c], log @ [c])) [] of
     (res, log) \<Rightarrow> length res \<le> 4 \<and> int (length log) \<le> 3 * 5"
  using lookup_is_bounded_and_sorted [OF rt_ok_New, of "replicate 16 0" 4 3 5 2 "replicate 16 7" "\<lambda>log c. [c]"]
  by (auto simp: IDLen_def split: prod.splits)

end
