(* ===== verification/Message.thy ===== *)
theory Message
  imports Prelude "HOL-Library.Signed_Division"
begin

text \<open>
  Messages over a link, \<^verbatim>\<open>internal/link/message.go\<close>: splitting a payload into framed chunks and
  reassembling chunks that arrive in any order, with a bounded table of partial messages.

  A chunk slot of a partial message is nil or a copy of a payload; the copy of an empty payload is
  nil, so a slot is a byte list and nil is the empty one. The clock is read once per frame.
\<close>

section \<open>Sending\<close>

definition maxMessageChunks :: int where "maxMessageChunks = 2 ^ 16 - 1"
definition maxMessageChunk :: int where "maxMessageChunk = 32 * 1024"
definition minMessageChunk :: int where "minMessageChunk = 64"
definition linkFrameOverhead :: int where "linkFrameOverhead = 300"
definition maxInflightMessages :: nat where "maxInflightMessages = 256"
definition msgHeaderLen :: nat where "msgHeaderLen = 12"
definition partialTTL :: int where "partialTTL = 30 * 1000000000"

definition maxChunkForMTU :: "int \<Rightarrow> int" where
  "maxChunkForMTU mtu =
     (if mtu \<le> 0 then maxMessageChunk
      else let budget = (mtu - linkFrameOverhead) * 3 sdiv 4 in
        if budget < minMessageChunk then minMessageChunk
        else if budget > maxMessageChunk then maxMessageChunk
        else budget)"

datatype send_message_error = ErrRandom | ErrTooManyChunks | ErrSend

text \<open>The frame of chunk i: header and the slice of the data.\<close>

definition message_frame :: "bytes \<Rightarrow> nat \<Rightarrow> nat \<Rightarrow> bytes \<Rightarrow> nat \<Rightarrow> bytes" where
  "message_frame msgID chunk tot data i =
     (let start = i * chunk;
          e = start + chunk;
          e = (if e > length data then length data else e)
      in msgID @ put_u16 (word_of_nat i) @ put_u16 (word_of_nat tot) @ take (e - start) (drop start data))"

text \<open>\<open>ok i\<close> says whether the i-th call of \<^verbatim>\<open>send\<close> succeeds; the result is what was sent.\<close>

fun send_loop :: "(nat \<Rightarrow> bool) \<Rightarrow> (nat \<Rightarrow> bytes) \<Rightarrow> nat list \<Rightarrow> bytes list \<times> send_message_error option" where
  "send_loop ok frame [] = ([], None)"
| "send_loop ok frame (i # js) =
     (if ok i then (let (sent, err) = send_loop ok frame js in (frame i # sent, err))
      else ([], Some ErrSend))"

definition sendMessageChunks ::
  "bytes option \<Rightarrow> (nat \<Rightarrow> bool) \<Rightarrow> int \<Rightarrow> bytes \<Rightarrow> bytes list \<times> send_message_error option" where
  "sendMessageChunks rnd ok chunk data =
     (let chunk = nat (if chunk < 1 then 1 else chunk) in
      case rnd of
        None \<Rightarrow> ([], Some ErrRandom)
      | Some msgID \<Rightarrow>
          let tot = (length data + chunk - 1) div chunk;
              tot = (if tot = 0 then 1 else tot)
          in if int tot > maxMessageChunks then ([], Some ErrTooManyChunks)
             else send_loop ok (message_frame msgID chunk tot data) [0..<tot])"

section \<open>Reassembly\<close>

record partial =
  ptTotal :: nat
  ptGot :: nat
  ptChunks :: "bytes list"
  ptStarted :: int

type_synonym partials = "(bytes, partial) gomap"

definition older_partial :: "bytes \<times> partial \<Rightarrow> bytes \<times> partial \<Rightarrow> bool" where
  "older_partial x y \<longleftrightarrow> ptStarted (snd x) < ptStarted (snd y)"

definition evictLocked :: "((bytes \<times> partial) list \<Rightarrow> (bytes \<times> partial) list) \<Rightarrow> int \<Rightarrow> partials \<Rightarrow> partials" where
  "evictLocked iter now m =
     (let m = filter (\<lambda>e. \<not> now - ptStarted (snd e) \<ge> partialTTL) m in
      if length m < maxInflightMessages then m
      else case pick_least older_partial None (iter m) of
             None \<Rightarrow> m
           | Some oldest \<Rightarrow> gdel (fst oldest) m)"

text \<open>The second half of \<^verbatim>\<open>Feed\<close>, once the partial message \<open>p\<close> of the frame is known.\<close>

definition feed_chunk :: "partials \<Rightarrow> bytes \<Rightarrow> partial \<Rightarrow> nat \<Rightarrow> nat \<Rightarrow> bytes \<Rightarrow> partials \<times> bytes list" where
  "feed_chunk m i p idx tot payload =
     (if ptTotal p \<noteq> tot then (m, [])
      else let p = (if ptChunks p ! idx = []
                    then p\<lparr>ptChunks := (ptChunks p)[idx := payload], ptGot := ptGot p + 1\<rparr>
                    else p);
               m = gput i p m
           in if ptGot p = ptTotal p then (gdel i m, [concat (ptChunks p)]) else (m, []))"

definition Feed ::
  "((bytes \<times> partial) list \<Rightarrow> (bytes \<times> partial) list) \<Rightarrow> int \<Rightarrow> partials \<Rightarrow> bytes \<Rightarrow> partials \<times> bytes list" where
  "Feed iter now m frame =
     (if length frame < msgHeaderLen then (m, [])
      else let i = take 8 frame;
               idx = get_u16 (take 2 (drop 8 frame));
               tot = get_u16 (take 2 (drop 10 frame))
           in if tot = 0 \<or> idx \<ge> tot then (m, [])
              else let payload = drop msgHeaderLen frame in
                (case gget m i of
                   Some p \<Rightarrow> feed_chunk m i p (unat idx) (unat tot) payload
                 | None \<Rightarrow>
                     let m = (if length m \<ge> maxInflightMessages then evictLocked iter now m else m) in
                     if length m \<ge> maxInflightMessages then (m, [])
                     else let p = \<lparr>ptTotal = unat tot, ptGot = 0,
                                   ptChunks = replicate (unat tot) [], ptStarted = now\<rparr>
                          in feed_chunk (gput i p m) i p (unat idx) (unat tot) payload))"

text \<open>A sequence of frames, each with the time it arrives; the messages handed to \<^verbatim>\<open>onMessage\<close>.\<close>

fun feed_all ::
  "((bytes \<times> partial) list \<Rightarrow> (bytes \<times> partial) list) \<Rightarrow> partials \<Rightarrow> (int \<times> bytes) list \<Rightarrow> partials \<times> bytes list" where
  "feed_all iter m [] = (m, [])"
| "feed_all iter m ((now, frame) # fs) =
     (let (m, out) = Feed iter now m frame; (m, outs) = feed_all iter m fs in (m, out @ outs))"

section \<open>The table invariant\<close>

interpretation older: comparison older_partial
  by unfold_locales (simp_all add: older_partial_def)

definition partials_ok :: "partials \<Rightarrow> bool" where
  "partials_ok m \<longleftrightarrow> gmap_ok m \<and> length m \<le> maxInflightMessages \<and>
     (\<forall>p \<in> snd ` set m. length (ptChunks p) = ptTotal p \<and> 0 < ptTotal p \<and> ptGot p < ptTotal p)"

lemma partials_ok_Nil [simp]: "partials_ok []"
  by (simp add: partials_ok_def)

lemma evictLocked_subset: "set (evictLocked iter now m) \<subseteq> set m"
  by (auto simp: evictLocked_def Let_def set_gdel split: option.split)

lemma evictLocked_ok: "gmap_ok m \<Longrightarrow> gmap_ok (evictLocked iter now m)"
  by (simp add: evictLocked_def Let_def split: option.split)

text \<open>A full table always makes room: an expired partial message goes, or else the oldest one.\<close>

lemma evictLocked_room:
  assumes "range_order iter" "gmap_ok m" "length m \<le> maxInflightMessages"
  shows "length (evictLocked iter now m) < maxInflightMessages"
proof -
  let ?m = "filter (\<lambda>e. \<not> now - ptStarted (snd e) \<ge> partialTTL) m"
  show ?thesis
  proof (cases "length ?m < maxInflightMessages")
    case True
    then show ?thesis by (simp add: evictLocked_def)
  next
    case False
    then have ne: "?m \<noteq> []" by (auto simp: maxInflightMessages_def)
    then obtain x where x: "pick_least older_partial None (iter ?m) = Some x"
      using range_order_length [OF assms(1), of ?m] by (cases "pick_least older_partial None (iter ?m)") auto
    then have "x \<in> set ?m"
      using pick_least_in [OF x] range_order_set [OF assms(1), of ?m] by auto
    then have "gget ?m (fst x) \<noteq> None" by (auto simp: gget_None_iff)
    moreover have "length ?m \<le> maxInflightMessages"
      using assms(3) length_filter_le order_trans by blast
    ultimately show ?thesis
      using False x gm.evict_makes_room [of ?m maxInflightMessages "fst x"] assms(2)
      by (simp add: evictLocked_def Let_def maxInflightMessages_def)
  qed
qed

text \<open>The entry that leaves when nothing has expired is an oldest one.\<close>

lemma evictLocked_oldest:
  assumes "range_order iter" "gmap_ok m" "e \<in> set m" "e \<notin> set (evictLocked iter now m)"
    and "now - ptStarted (snd e) < partialTTL" "f \<in> set m" "now - ptStarted (snd f) < partialTTL"
  shows "ptStarted (snd e) \<le> ptStarted (snd f)"
proof -
  let ?m = "filter (\<lambda>e. \<not> now - ptStarted (snd e) \<ge> partialTTL) m"
  have e: "e \<in> set ?m" and f: "f \<in> set ?m" using assms by auto
  then have "\<not> length ?m < maxInflightMessages" using assms(4) by (auto simp: evictLocked_def)
  then obtain x where x: "pick_least older_partial None (iter ?m) = Some x" and key: "fst x = fst e"
    using assms(4) e by (auto simp: evictLocked_def Let_def set_gdel split: option.splits)
  have "x \<in> set m"
    using pick_least_in [OF x] range_order_set [OF assms(1), of ?m] by auto
  then have "x = e"
    using key assms(2,3) by (metis gget_Some_iff option.inject prod.collapse)
  then show ?thesis
    using older.pick_least_min [OF x] f unfolding range_order_set [OF assms(1), of ?m] older_partial_def
    by (simp only: not_less)
qed

lemma partials_ok_gput:
  assumes "partials_ok m" "gget m i \<noteq> None \<or> length m < maxInflightMessages"
    and "length (ptChunks p) = ptTotal p" "0 < ptTotal p" "ptGot p < ptTotal p"
  shows "partials_ok (gput i p m)"
  using assms set_gput_subset [of i p m] by (fastforce simp: partials_ok_def length_gput)

lemma partials_ok_gdel: "partials_ok m \<Longrightarrow> partials_ok (gdel i m)"
  by (auto simp: partials_ok_def length_gdel set_gdel)

lemma feed_chunk_ok:
  assumes "partials_ok m" "gget m i = Some p"
  shows "partials_ok (fst (feed_chunk m i p idx tot payload))"
proof -
  have p: "length (ptChunks p) = ptTotal p" "0 < ptTotal p" "ptGot p < ptTotal p"
    using assms gget_SomeD [OF assms(2)] by (force simp: partials_ok_def)+
  define q where "q = (if ptChunks p ! idx = []
    then p\<lparr>ptChunks := (ptChunks p)[idx := payload], ptGot := ptGot p + 1\<rparr> else p)"
  have q: "length (ptChunks q) = ptTotal q" "ptTotal q = ptTotal p" "ptGot q \<le> ptTotal q"
    using p by (auto simp: q_def)
  have "partials_ok (gdel i (gput i q m))" using partials_ok_gdel [OF assms(1)] by simp
  moreover have "partials_ok (gput i q m)" if "ptGot q \<noteq> ptTotal q"
    using that q p assms by (intro partials_ok_gput) auto
  ultimately show ?thesis
    using assms(1) by (simp add: feed_chunk_def Let_def q_def [symmetric])
qed

lemma Feed_ok:
  assumes "range_order iter" "partials_ok m"
  shows "partials_ok (fst (Feed iter now m frame))"
proof -
  define m1 where "m1 = (if length m \<ge> maxInflightMessages then evictLocked iter now m else m)"
  have m1: "partials_ok m1" "length m1 < maxInflightMessages"
    using assms evictLocked_room [OF assms(1), of m now] evictLocked_subset [of iter now m] evictLocked_ok [of m iter now]
    by (auto simp: m1_def partials_ok_def)
  have new: "partials_ok (gput i \<lparr>ptTotal = unat tot, ptGot = 0, ptChunks = replicate (unat tot) [], ptStarted = now\<rparr> m1)"
    if "tot \<noteq> 0" for i and tot :: u16
    using m1 that by (intro partials_ok_gput) (simp_all add: unat_gt_0)
  show ?thesis
    unfolding Feed_def Let_def m1_def [symmetric]
    using assms(2) m1 new by (auto split: option.split intro!: feed_chunk_ok)
qed

lemma feed_all_ok: "range_order iter \<Longrightarrow> partials_ok m \<Longrightarrow> partials_ok (fst (feed_all iter m fs))"
proof (induction fs arbitrary: m)
  case (Cons f fs)
  obtain now frame where f: "f = (now, frame)" by (cases f)
  obtain m1 out where feed: "Feed iter now m frame = (m1, out)" by (cases "Feed iter now m frame")
  have "partials_ok m1" using Feed_ok [OF Cons.prems, of now frame] feed by simp
  from Cons.IH [OF Cons.prems(1) this] show ?case
    by (auto simp: f feed split: prod.split)
qed simp

section \<open>One message in any order\<close>

definition piece :: "nat \<Rightarrow> bytes \<Rightarrow> nat \<Rightarrow> bytes" where
  "piece c d i = take c (drop (i * c) d)"

lemma concat_pieces: "concat (map (piece c d) [0..<n]) = take (n * c) d"
  by (induction n) (simp_all add: piece_def add.commute flip: take_add)

lemma message_frame_piece:
  "message_frame i c n d j = i @ put_u16 (word_of_nat j) @ put_u16 (word_of_nat n) @ piece c d j"
proof -
  have "take (min (j * c + c) (length d) - j * c) (drop (j * c) d) = piece c d j"
    by (cases "j * c + c \<le> length d") (simp_all add: piece_def min_def)
  then show ?thesis by (simp add: message_frame_def Let_def min_def split: if_splits)
qed

lemma unat_u16_of_nat: "n < 2 ^ 16 \<Longrightarrow> unat (word_of_nat n :: u16) = n"
  by (simp add: unat_of_nat)

text \<open>The chunk slots once the pieces at the positions \<open>S\<close> are in.\<close>

definition slots :: "nat \<Rightarrow> bytes \<Rightarrow> nat \<Rightarrow> nat set \<Rightarrow> bytes list" where
  "slots c d n S = map (\<lambda>j. if j \<in> S then piece c d j else []) [0..<n]"

lemma slots_update: "j < n \<Longrightarrow> (slots c d n S)[j := piece c d j] = slots c d n (insert j S)"
  by (rule nth_equalityI) (auto simp: slots_def nth_list_update)

lemma slots_empty: "slots c d n {} = replicate n []"
  by (simp add: slots_def map_replicate_const)

lemma slots_full: "{..<n} \<subseteq> S \<Longrightarrow> concat (slots c d n S) = take (n * c) d"
proof -
  assume "{..<n} \<subseteq> S"
  then have "slots c d n S = map (piece c d) [0..<n]" by (auto simp: slots_def)
  then show ?thesis by (simp add: concat_pieces)
qed

definition has_pieces :: "partials \<Rightarrow> bytes \<Rightarrow> nat \<Rightarrow> bytes \<Rightarrow> nat \<Rightarrow> nat set \<Rightarrow> bool" where
  "has_pieces m i c d n S \<longleftrightarrow>
     (if S = {} then gget m i = None \<and> length m < maxInflightMessages
      else \<exists>p. gget m i = Some p \<and> ptTotal p = n \<and> ptGot p = card S \<and> ptChunks p = slots c d n S)"

lemma Feed_frame:
  assumes "length i = 8" "0 < n" "n < 2 ^ 16" "j < n"
  shows "Feed iter now m (message_frame i c n d j) =
    (case gget m i of
       Some p \<Rightarrow> feed_chunk m i p j n (piece c d j)
     | None \<Rightarrow> let m = (if length m \<ge> maxInflightMessages then evictLocked iter now m else m) in
         if length m \<ge> maxInflightMessages then (m, [])
         else let p = \<lparr>ptTotal = n, ptGot = 0, ptChunks = replicate n [], ptStarted = now\<rparr>
              in feed_chunk (gput i p m) i p j n (piece c d j))"
proof -
  have u: "unat (word_of_nat j :: u16) = j" "unat (word_of_nat n :: u16) = n"
    using assms by (simp_all add: unat_u16_of_nat)
  then have "(word_of_nat n :: u16) \<noteq> 0" "\<not> (word_of_nat n :: u16) \<le> word_of_nat j"
    using assms(2,4) by (auto simp: word_le_nat_alt unat_eq_0 [symmetric])
  moreover have "drop 12 (i @ put_u16 (word_of_nat j) @ put_u16 (word_of_nat n) @ x) = x"
    "take 2 (drop 8 (i @ put_u16 (word_of_nat j) @ y)) = put_u16 (word_of_nat j)"
    "take 2 (drop 10 (i @ put_u16 (word_of_nat j) @ put_u16 (word_of_nat n) @ x)) = put_u16 (word_of_nat n)" for x y
    using assms(1) by simp_all
  ultimately show ?thesis
    using assms(1) u
    by (cases "gget m i") (simp_all add: Feed_def message_frame_piece msgHeaderLen_def Let_def)
qed

lemma Feed_piece:
  assumes "length i = 8" "n < 2 ^ 16" "j < n" "j \<notin> S" "S \<subseteq> {..<n}" "gmap_ok m" "has_pieces m i c d n S"
  shows "\<exists>m'. Feed iter now m (message_frame i c n d j) =
           (m', if insert j S = {..<n} then [take (n * c) d] else []) \<and> gmap_ok m' \<and>
         (\<forall>k. k \<noteq> i \<longrightarrow> gget m' k = gget m k) \<and>
         (if insert j S = {..<n} then gget m' i = None else has_pieces m' i c d n (insert j S))"
proof -
  have fin: "finite S" using assms(5) finite_subset by blast
  have card: "card (insert j S) = card S + 1" using fin assms(4) by simp
  have full: "insert j S = {..<n} \<longleftrightarrow> card S + 1 = n"
  proof
    show "card S + 1 = n" if "insert j S = {..<n}" using card that by simp
    show "insert j S = {..<n}" if "card S + 1 = n"
      using card that assms(3,5) by (intro card_subset_eq) simp_all
  qed
  have slot: "slots c d n S ! j = []" using assms(3,4) by (simp add: slots_def)
  have step: "feed_chunk m0 i p j n (piece c d j) =
      (if insert j S = {..<n} then (gdel i m0, [take (n * c) d])
       else (gput i (p\<lparr>ptChunks := slots c d n (insert j S), ptGot := card S + 1\<rparr>) m0, []))"
    if "ptTotal p = n" "ptGot p = card S" "ptChunks p = slots c d n S" for m0 p
    using that slot full slots_update [OF assms(3)] slots_full [of n "insert j S" c d]
    by (auto simp: feed_chunk_def Let_def)
  have pos: "0 < n" using assms(3) by simp
  show ?thesis
  proof (cases "S = {}")
    case True
    then have "gget m i = None" "length m < maxInflightMessages"
      using assms(7) by (simp_all add: has_pieces_def)
    then have "Feed iter now m (message_frame i c n d j) =
        feed_chunk (gput i \<lparr>ptTotal = n, ptGot = 0, ptChunks = replicate n [], ptStarted = now\<rparr> m) i
          \<lparr>ptTotal = n, ptGot = 0, ptChunks = replicate n [], ptStarted = now\<rparr> j n (piece c d j)"
      using Feed_frame [OF assms(1) pos assms(2,3), of iter now m c d] by (simp add: Let_def)
    then show ?thesis
      using step [of "\<lparr>ptTotal = n, ptGot = 0, ptChunks = replicate n [], ptStarted = now\<rparr>"] True assms(6)
      by (auto simp: slots_empty has_pieces_def)
  next
    case False
    then obtain p where p: "gget m i = Some p" "ptTotal p = n" "ptGot p = card S" "ptChunks p = slots c d n S"
      using assms(7) by (auto simp: has_pieces_def)
    then have "Feed iter now m (message_frame i c n d j) = feed_chunk m i p j n (piece c d j)"
      using Feed_frame [OF assms(1) pos assms(2,3)] by simp
    then show ?thesis
      using step [OF p(2-4)] p assms(4,6) fin by (auto simp: has_pieces_def)
  qed
qed

lemma feed_permutation:
  assumes "length i = 8" "n < 2 ^ 16" "distinct js" "set js = {..<n} - S" "S \<subset> {..<n}"
    "gmap_ok m" "has_pieces m i c d n S" "length nows = length js"
  shows "\<exists>m'. feed_all iter m (zip nows (map (message_frame i c n d) js)) = (m', [take (n * c) d]) \<and>
         (\<forall>k. k \<noteq> i \<longrightarrow> gget m' k = gget m k) \<and> gget m' i = None"
  using assms(3-)
proof (induction js arbitrary: S m nows)
  case Nil
  then have "{..<n} \<subseteq> S" by simp
  then show ?case using Nil.prems(3) by blast
next
  case (Cons j js)
  obtain now ts where nows: "nows = now # ts" using Cons.prems(6) by (cases nows) auto
  have j: "j < n" "j \<notin> S" "S \<subseteq> {..<n}" using Cons.prems(2,3) by auto
  from Feed_piece [OF assms(1,2) j Cons.prems(4,5), of iter now] obtain m1 where
    m1: "Feed iter now m (message_frame i c n d j) =
      (m1, if insert j S = {..<n} then [take (n * c) d] else [])" "gmap_ok m1"
    "\<forall>k. k \<noteq> i \<longrightarrow> gget m1 k = gget m k"
    "if insert j S = {..<n} then gget m1 i = None else has_pieces m1 i c d n (insert j S)"
    by (elim exE conjE)
  show ?case
  proof (cases "insert j S = {..<n}")
    case True
    then have "set (j # js) \<subseteq> {j}" unfolding Cons.prems(2) by blast
    then have "js = []" using Cons.prems(1) by (cases js) auto
    then have "feed_all iter m (zip nows (map (message_frame i c n d) (j # js))) = (m1, [take (n * c) d])"
      using m1(1) True nows by simp
    then show ?thesis using m1(3,4) True by (intro exI [of _ m1]) (simp only: simp_thms if_True)
  next
    case False
    have "{..<n} - insert j S = set (j # js) - {j}" 
      unfolding Cons.prems(2) by (rule Diff_insert)
    then have js: "set js = {..<n} - insert j S" using Cons.prems(1) by simp
    have sub: "insert j S \<subset> {..<n}" using False j by blast
    have "distinct js" "length ts = length js" "has_pieces m1 i c d n (insert j S)"
      using Cons.prems(1,6) nows m1(4) False by simp_all
    from Cons.IH [OF this(1) js sub m1(2) this(3) this(2)] obtain m2 where
      "feed_all iter m1 (zip ts (map (message_frame i c n d) js)) = (m2, [take (n * c) d])"
      "\<forall>k. k \<noteq> i \<longrightarrow> gget m2 k = gget m1 k" "gget m2 i = None"
      by (elim exE conjE)
    then show ?thesis using m1(1,3) False nows by (intro exI [of _ m2]) simp
  qed
qed

lemma send_loop_ok: "send_loop (\<lambda>_. True) f js = (map f js, None)"
  by (induction js) simp_all

lemma sendMessageChunks_frames:
  assumes "sendMessageChunks (Some i) (\<lambda>_. True) chunk data = (frames, None)"
  shows "\<exists>c n. 0 < n \<and> n < 2 ^ 16 \<and> length data \<le> n * c \<and> frames = map (message_frame i c n data) [0..<n]"
proof -
  define c where "c = nat (if chunk < 1 then 1 else chunk)"
  define n where "n = (if (length data + c - 1) div c = 0 then 1 else (length data + c - 1) div c)"
  have c: "0 < c" by (simp add: c_def)
  have "sendMessageChunks (Some i) (\<lambda>_. True) chunk data =
      (if int n > maxMessageChunks then ([], Some ErrTooManyChunks)
       else (map (message_frame i c n data) [0..<n], None))"
    unfolding sendMessageChunks_def Let_def option.case c_def [symmetric] n_def [symmetric] send_loop_ok ..
  then have "\<not> int n > maxMessageChunks" "frames = map (message_frame i c n data) [0..<n]"
    using assms by (simp_all split: if_splits)
  moreover have "length data \<le> n * c"
  proof -
    have "(length data + c - 1) div c * c + (length data + c - 1) mod c = length data + c - 1"
      by (rule div_mult_mod_eq)
    moreover have "(length data + c - 1) mod c < c" using c by simp
    ultimately have "length data \<le> (length data + c - 1) div c * c" by linarith
    moreover have "\<dots> \<le> n * c" by (simp add: n_def)
    ultimately show ?thesis by linarith
  qed
  moreover have "0 < n" by (simp add: n_def)
  ultimately show ?thesis by (intro exI [of _ c] exI [of _ n]) (simp add: maxMessageChunks_def)
qed

section \<open>Properties\<close>

text \<open>
  C7. A message that was sent arrives: whatever the order in which its frames reach the receiver and
  whatever else is being reassembled there, feeding each of them once delivers the original data,
  exactly once, and leaves every other partial message as it was.
\<close>

theorem message_roundtrip:
  assumes "length i = 8" and "sendMessageChunks (Some i) (\<lambda>_. True) chunk data = (frames, None)"
    and "distinct js" and "set js = {..<length frames}" and "length nows = length js"
    and "gmap_ok m" and "gget m i = None" and "length m < maxInflightMessages"
  shows "\<exists>m'. feed_all iter m (zip nows (map (\<lambda>j. frames ! j) js)) = (m', [data]) \<and>
           (\<forall>k. gget m' k = gget m k)"
proof -
  obtain c n where n: "0 < n" "n < 2 ^ 16" "length data \<le> n * c"
    and frames: "frames = map (message_frame i c n data) [0..<n]"
    using sendMessageChunks_frames [OF assms(2)] by blast
  have js: "set js = {..<n} - {}" using assms(4) frames by simp
  have eq: "map (\<lambda>j. frames ! j) js = map (message_frame i c n data) js"
    using js by (auto simp: frames)
  have "has_pieces m i c data n {}" using assms(7,8) by (simp add: has_pieces_def)
  moreover have "{} \<subset> {..<n}" using n(1) by auto
  ultimately have "\<exists>m'. feed_all iter m (zip nows (map (\<lambda>j. frames ! j) js)) = (m', [take (n * c) data]) \<and>
      (\<forall>k. k \<noteq> i \<longrightarrow> gget m' k = gget m k) \<and> gget m' i = None"
    unfolding eq using feed_permutation [OF assms(1) n(2) assms(3) js _ assms(6) _ assms(5)] by simp
  then obtain m' where m': "feed_all iter m (zip nows (map (\<lambda>j. frames ! j) js)) = (m', [take (n * c) data])"
    "\<forall>k. k \<noteq> i \<longrightarrow> gget m' k = gget m k" "gget m' i = None"
    by (elim exE conjE)
  then have "\<forall>k. gget m' k = gget m k" using assms(7) by metis
  with m'(1) n(3) show ?thesis by (intro exI [of _ m']) simp
qed

theorem message_roundtrip_witness:
  "\<exists>m'. feed_all (\<lambda>m. m) [] (zip [0, 0, 0] (map (\<lambda>j. fst (sendMessageChunks (Some (replicate 8 1)) (\<lambda>_. True) 2
      [5, 6, 7, 8, 9]) ! j) [2, 0, 1])) = (m', [[5, 6, 7, 8, 9]]) \<and> (\<forall>k. gget m' k = None)"
proof -
  let ?frames = "fst (sendMessageChunks (Some (replicate 8 1)) (\<lambda>_. True) 2 [5, 6, 7, 8, 9])"
  have "sendMessageChunks (Some (replicate 8 1)) (\<lambda>_. True) 2 [5, 6, 7, 8, 9] = (?frames, None)"
    "length ?frames = 3"
    by (simp_all add: sendMessageChunks_def Let_def send_loop_ok maxMessageChunks_def)
  note frames = this
  have "\<exists>m'. feed_all (\<lambda>m. m) [] (zip [0, 0, 0] (map (\<lambda>j. ?frames ! j) [2, 0, 1])) = (m', [[5, 6, 7, 8, 9]]) \<and>
      (\<forall>k. gget m' k = gget [] k)"
    by (rule message_roundtrip [OF _ frames(1)])
      (auto simp: frames(2) maxInflightMessages_def lessThan_nat_numeral)
  then show ?thesis by simp
qed

text \<open>
  C25. The table of partial messages stays bounded and well formed whatever frames arrive, and it
  never turns a newcomer away: when it is full the expired entries go, or the oldest one does, so
  the first frame of a new message always finds a slot.
\<close>

theorem reassembler_bounded_and_open:
  assumes "range_order iter"
  shows "partials_ok (fst (feed_all iter [] fs)) \<and>
     (\<forall>m now i c n d j. partials_ok m \<and> length i = 8 \<and> 0 < n \<and> n < 2 ^ 16 \<and> j < n \<longrightarrow>
        (case Feed iter now m (message_frame i c n d j) of (m', out) \<Rightarrow>
           length m' \<le> maxInflightMessages \<and>
           (gget m i = None \<longrightarrow> gget m' i \<noteq> None \<or> n = 1 \<and> out = [piece c d 0])))"
proof (intro conjI allI impI)
  show "partials_ok (fst (feed_all iter [] fs))" using assms by (simp add: feed_all_ok)
next
  fix m now and i :: bytes and c n :: nat and d j
  assume a: "partials_ok m \<and> length i = 8 \<and> 0 < n \<and> n < 2 ^ 16 \<and> j < n"
  define m1 where "m1 = (if length m \<ge> maxInflightMessages then evictLocked iter now m else m)"
  have "length m1 < maxInflightMessages"
    using a evictLocked_room [OF assms, of m now] by (auto simp: m1_def partials_ok_def)
  then have new: "gget m i = None \<Longrightarrow> Feed iter now m (message_frame i c n d j) =
      feed_chunk (gput i \<lparr>ptTotal = n, ptGot = 0, ptChunks = replicate n [], ptStarted = now\<rparr> m1) i
        \<lparr>ptTotal = n, ptGot = 0, ptChunks = replicate n [], ptStarted = now\<rparr> j n (piece c d j)"
    using Feed_frame [of i n j iter now m c d] a unfolding m1_def [symmetric] by (simp add: Let_def)
  have "gget m i = None \<Longrightarrow>
      gget (fst (Feed iter now m (message_frame i c n d j))) i \<noteq> None \<or>
      n = 1 \<and> snd (Feed iter now m (message_frame i c n d j)) = [piece c d 0]"
    using a unfolding new by (auto simp: feed_chunk_def Let_def)
  moreover have "partials_ok (fst (Feed iter now m (message_frame i c n d j)))"
    using Feed_ok [OF assms] a by blast
  ultimately show "case Feed iter now m (message_frame i c n d j) of (m', out) \<Rightarrow>
      length m' \<le> maxInflightMessages \<and>
      (gget m i = None \<longrightarrow> gget m' i \<noteq> None \<or> n = 1 \<and> out = [piece c d 0])"
    by (auto simp: partials_ok_def split: prod.split)
qed

theorem reassembler_bounded_and_open_witness:
  "partials_ok (fst (feed_all (\<lambda>m. m) [] [(0, message_frame (replicate 8 1) 2 2 [1, 2, 3] 1)]))"
  using reassembler_bounded_and_open [OF range_order_id] by blast

text \<open>
  C26. A duplicated empty chunk is counted twice: two copies of the first, empty chunk of a two-chunk
  message complete it, and a message is delivered although the second chunk never arrived.
\<close>

theorem empty_chunk_counted_twice:
  assumes "length i = 8"
  shows "snd (feed_all iter [] [(t, i @ put_u16 0 @ put_u16 2), (u, i @ put_u16 0 @ put_u16 2)]) = [[]]"
proof -
  have f: "i @ put_u16 0 @ put_u16 2 = message_frame i 0 2 [] 0"
    by (simp add: message_frame_piece piece_def)
  have slots: "replicate 2 [] = [[], [] :: bytes]" by (simp add: numeral_2_eq_2)
  define p where "p = (\<lambda>got. \<lparr>ptTotal = 2, ptGot = got, ptChunks = [[], []], ptStarted = t\<rparr>)"
  have "Feed iter t [] (message_frame i 0 2 [] 0) = ([(i, p 1)], [])"
    using Feed_frame [of i 2 0 iter t "[]" 0 "[]"] assms
    by (simp add: feed_chunk_def Let_def maxInflightMessages_def slots gput_def piece_def p_def)
  moreover have "Feed iter u [(i, p 1)] (message_frame i 0 2 [] 0) = ([], [[]])"
    using Feed_frame [of i 2 0 iter u "[(i, p 1)]" 0 "[]"] assms
    by (simp add: feed_chunk_def Let_def gget_def gdel_def gput_def piece_def p_def)
  ultimately show ?thesis by (simp add: f)
qed

theorem empty_chunk_counted_twice_witness:
  "snd (feed_all (\<lambda>m. m) [] [(0, replicate 8 7 @ put_u16 0 @ put_u16 2), (0, replicate 8 7 @ put_u16 0 @ put_u16 2)]) = [[]]"
  using empty_chunk_counted_twice [of "replicate 8 7"] by simp

text \<open>
  The chunk size derived from an MTU is always between the two limits, and where neither limit
  applies a frame with that much plaintext, after base64, fits the MTU and one byte more would not.
\<close>

lemma chunk_size_fits_mtu:
  "minMessageChunk \<le> maxChunkForMTU mtu \<and> maxChunkForMTU mtu \<le> maxMessageChunk \<and>
   (maxChunkForMTU mtu \<noteq> minMessageChunk \<and> maxChunkForMTU mtu \<noteq> maxMessageChunk \<longrightarrow>
      3 * (mtu - linkFrameOverhead) - 4 < 4 * maxChunkForMTU mtu \<and>
      4 * maxChunkForMTU mtu \<le> 3 * (mtu - linkFrameOverhead))"
  by (auto simp: maxChunkForMTU_def minMessageChunk_def maxMessageChunk_def linkFrameOverhead_def Let_def
      signed_divide_int_def sgn_if)


end
