(* ===== verification/Net.thy ===== *)
theory Net
  imports Prelude
begin

text \<open>
  What the sources use of package \<^verbatim>\<open>net\<close>: \<^verbatim>\<open>SplitHostPort\<close>, \<^verbatim>\<open>ParseIP\<close>, \<^verbatim>\<open>IP.To4\<close>, \<^verbatim>\<open>IP.Mask\<close> and
  \<^verbatim>\<open>IP.String\<close>, and the verb \<^verbatim>\<open>%d\<close> on a byte; then the two helpers of \<^verbatim>\<open>internal/routing\<close> built on them,
  \<^verbatim>\<open>subnetKey\<close> and \<^verbatim>\<open>hostOf\<close>, which group addresses by network.

  An IP address is its 16 bytes; an IPv4 address is held in the v4-in-v6 form.
\<close>

section \<open>Host and port\<close>

fun index_char :: "char \<Rightarrow> string \<Rightarrow> nat option" where
  "index_char c [] = None"
| "index_char c (x # s) = (if x = c then Some 0 else map_option Suc (index_char c s))"

fun last_index_char :: "char \<Rightarrow> string \<Rightarrow> nat option" where
  "last_index_char c [] = None"
| "last_index_char c (x # s) =
     (case last_index_char c s of
        Some i \<Rightarrow> Some (Suc i)
      | None \<Rightarrow> if x = c then Some 0 else None)"

definition split_rest :: "string \<Rightarrow> string \<Rightarrow> nat \<Rightarrow> nat \<Rightarrow> nat \<Rightarrow> (string \<times> string) option" where
  "split_rest hostport host i j k =
     (if index_char CHR ''['' (drop j hostport) \<noteq> None then None
      else if index_char CHR '']'' (drop k hostport) \<noteq> None then None
      else Some (host, drop (i + 1) hostport))"

definition SplitHostPort :: "string \<Rightarrow> (string \<times> string) option" where
  "SplitHostPort hostport =
     (case last_index_char CHR '':'' hostport of
        None \<Rightarrow> None
      | Some i \<Rightarrow>
          if hostport ! 0 = CHR ''['' then
            (case index_char CHR '']'' hostport of
               None \<Rightarrow> None
             | Some e \<Rightarrow>
                 if e + 1 = length hostport then None
                 else if e + 1 = i then split_rest hostport (take (e - 1) (drop 1 hostport)) i 1 (e + 1)
                 else None)
          else let host = take i hostport in
            if index_char CHR '':'' host \<noteq> None then None
            else split_rest hostport host i 0 0)"

section \<open>IP addresses\<close>

definition digit_val :: "char \<Rightarrow> nat option" where
  "digit_val c = (let n = of_char c :: nat in if 48 \<le> n \<and> n \<le> 57 then Some (n - 48) else None)"

definition hex_digit_val :: "char \<Rightarrow> nat option" where
  "hex_digit_val c =
     (let n = of_char c :: nat in
      if 48 \<le> n \<and> n \<le> 57 then Some (n - 48)
      else if 97 \<le> n \<and> n \<le> 102 then Some (n - 97 + 10)
      else if 65 \<le> n \<and> n \<le> 70 then Some (n - 65 + 10)
      else None)"

text \<open>
  The loop of \<^verbatim>\<open>parseIPv4Fields\<close>: \<open>val\<close> and \<open>digLen\<close> describe the current field, \<open>fields\<close> the finished
  ones; a field has no leading zero and is at most 255.
\<close>

fun ipv4_fields :: "nat \<Rightarrow> nat \<Rightarrow> bytes \<Rightarrow> string \<Rightarrow> bytes option" where
  "ipv4_fields v digLen fields [] =
     (if length fields < 3 then None
      else if digLen = 0 then None
      else Some (fields @ [word_of_nat v]))"
| "ipv4_fields v digLen fields (c # s) =
     (case digit_val c of
        Some d \<Rightarrow>
          if digLen = 1 \<and> v = 0 then None
          else let v = v * 10 + d in
            if v > 255 then None else ipv4_fields v (digLen + 1) fields s
      | None \<Rightarrow>
          if c = CHR ''.'' then
            (if digLen = 0 then None
             else if s = [] then None
             else if length fields = 3 then None
             else ipv4_fields 0 0 (fields @ [word_of_nat v]) s)
          else None)"

definition parseIPv4Fields :: "string \<Rightarrow> bytes option" where
  "parseIPv4Fields s = ipv4_fields 0 0 [] s"

fun hex_group :: "nat \<Rightarrow> nat \<Rightarrow> string \<Rightarrow> (nat \<times> nat \<times> string) option" where
  "hex_group off acc [] = Some (off, acc, [])"
| "hex_group off acc (c # s) =
     (case hex_digit_val c of
        None \<Rightarrow> Some (off, acc, c # s)
      | Some d \<Rightarrow> if off > 3 then None else hex_group (off + 1) (acc * 16 + d) s)"

text \<open>
  The loop of \<^verbatim>\<open>parseIPv6\<close>: \<open>ip\<close> are the bytes so far, \<open>ellipsis\<close> where \<^verbatim>\<open>::\<close> was. At most eight
  groups are read, which is the fuel. The result is the bytes, the ellipsis and what is left over.
\<close>

fun ipv6_groups :: "nat \<Rightarrow> bytes \<Rightarrow> nat option \<Rightarrow> string \<Rightarrow> (bytes \<times> nat option \<times> string) option" where
  "ipv6_groups 0 ip ellipsis s = Some (ip, ellipsis, s)"
| "ipv6_groups (Suc n) ip ellipsis s =
     (if length ip \<ge> 16 then Some (ip, ellipsis, s)
      else case hex_group 0 0 s of
        None \<Rightarrow> None
      | Some (off, acc, r) \<Rightarrow>
          if off = 0 then None
          else if r \<noteq> [] \<and> hd r = CHR ''.'' then
            (if ellipsis = None \<and> length ip \<noteq> 12 then None
             else if length ip + 4 > 16 then None
             else case parseIPv4Fields s of
                    None \<Rightarrow> None
                  | Some v4 \<Rightarrow> Some (ip @ v4, ellipsis, []))
          else let ip = ip @ [word_of_nat (acc div 256), word_of_nat acc] in
            (case r of
               [] \<Rightarrow> Some (ip, ellipsis, [])
             | c # r \<Rightarrow>
                 if c \<noteq> CHR '':'' then None
                 else case r of
                        [] \<Rightarrow> None
                      | d # r' \<Rightarrow>
                          if d = CHR '':'' then
                            (if ellipsis \<noteq> None then None
                             else if r' = [] then Some (ip, Some (length ip), [])
                             else ipv6_groups n ip (Some (length ip)) r')
                          else ipv6_groups n ip ellipsis r))"

definition parseIPv6 :: "string \<Rightarrow> bytes option" where
  "parseIPv6 s =
     (let (ellipsis, s) = (case s of
              CHR '':'' # CHR '':'' # r \<Rightarrow> (Some 0, r)
            | _ \<Rightarrow> (None, s))
      in if ellipsis \<noteq> None \<and> s = [] then Some (replicate 16 0)
         else case ipv6_groups 8 [] ellipsis s of
                None \<Rightarrow> None
              | Some (ip, ellipsis, rest) \<Rightarrow>
                  if rest \<noteq> [] then None
                  else if length ip < 16 then
                    (case ellipsis of
                       None \<Rightarrow> None
                     | Some e \<Rightarrow> Some (take e ip @ replicate (16 - length ip) 0 @ drop e ip))
                  else if ellipsis \<noteq> None then None
                  else Some ip)"

definition v4InV6Prefix :: bytes where
  "v4InV6Prefix = replicate 10 0 @ [0xff, 0xff]"

text \<open>\<^verbatim>\<open>ParseAddr\<close> looks for the first of the characters \<^verbatim>\<open>.\<close>, \<^verbatim>\<open>:\<close> and \<^verbatim>\<open>%\<close>; a zone is not accepted.\<close>

definition ParseIP :: "string \<Rightarrow> bytes option" where
  "ParseIP s =
     (case dropWhile (\<lambda>c. c \<notin> {CHR ''.'', CHR '':'', CHR ''%''}) s of
        [] \<Rightarrow> None
      | c # _ \<Rightarrow>
          if c = CHR ''.'' then map_option (\<lambda>v4. v4InV6Prefix @ v4) (parseIPv4Fields s)
          else if c = CHR '':'' then (if CHR ''%'' \<in> set s then None else parseIPv6 s)
          else None)"

definition To4 :: "bytes \<Rightarrow> bytes option" where
  "To4 ip = (if take 12 ip = v4InV6Prefix then Some (drop 12 ip) else None)"

definition mask48 :: "bytes \<Rightarrow> bytes" where
  "mask48 ip = take 6 ip @ replicate 10 0"

section \<open>Printing\<close>

fun dec :: "nat \<Rightarrow> string" where
  "dec n = (if n < 10 then [char_of (48 + n)] else dec (n div 10) @ [char_of (48 + n mod 10)])"

declare dec.simps [simp del]

fun hex_short :: "nat \<Rightarrow> string" where
  "hex_short n = (if n < 16 then [hex_table ! n] else hex_short (n div 16) @ [hex_table ! (n mod 16)])"

declare hex_short.simps [simp del]

fun ip_groups :: "bytes \<Rightarrow> nat list" where
  "ip_groups (a # b # s) = (unat a * 256 + unat b) # ip_groups s"
| "ip_groups _ = []"

text \<open>The first longest run of at least two zero groups is written as \<^verbatim>\<open>::\<close>.\<close>

definition zero_run :: "nat list \<Rightarrow> nat \<Rightarrow> nat" where
  "zero_run gs i = length (takeWhile (\<lambda>g. g = 0) (drop i gs))"

definition longest_zero_run :: "nat list \<Rightarrow> (nat \<times> nat) option" where
  "longest_zero_run gs =
     pick_least (\<lambda>x y. snd y < snd x) None
       (filter (\<lambda>r. 2 \<le> snd r) (map (\<lambda>i. (i, zero_run gs i)) [0..<length gs]))"

fun join_colon :: "string list \<Rightarrow> string" where
  "join_colon [] = []"
| "join_colon [x] = x"
| "join_colon (x # y # xs) = x @ '':'' @ join_colon (y # xs)"

definition IPv6_String :: "bytes \<Rightarrow> string" where
  "IPv6_String ip =
     (let gs = ip_groups ip in
      case longest_zero_run gs of
        None \<Rightarrow> join_colon (map hex_short gs)
      | Some (i, n) \<Rightarrow> join_colon (map hex_short (take i gs)) @ ''::'' @ join_colon (map hex_short (drop (i + n) gs)))"

section \<open>Grouping addresses by network\<close>

definition hostOf :: "string \<Rightarrow> string" where
  "hostOf addr = (case SplitHostPort addr of Some (h, _) \<Rightarrow> h | None \<Rightarrow> addr)"

definition subnetKey :: "string \<Rightarrow> string" where
  "subnetKey address =
     (let host = (case SplitHostPort address of Some (h, _) \<Rightarrow> h | None \<Rightarrow> address) in
      case ParseIP host of
        None \<Rightarrow> host
      | Some ip \<Rightarrow>
          (case To4 ip of
             Some v4 \<Rightarrow> ''v4:'' @ dec (unat (v4 ! 0)) @ ''.'' @ dec (unat (v4 ! 1)) @ ''.'' @ dec (unat (v4 ! 2))
           | None \<Rightarrow> ''v6:'' @ IPv6_String (mask48 ip)))"

section \<open>Lemmas on IPv4 addresses\<close>

definition print_v4 :: "byte \<Rightarrow> byte \<Rightarrow> byte \<Rightarrow> byte \<Rightarrow> string" where
  "print_v4 a b c d = dec (unat a) @ ''.'' @ dec (unat b) @ ''.'' @ dec (unat c) @ ''.'' @ dec (unat d)"

lemma digit_val_digit: "n < 10 \<Longrightarrow> digit_val (char_of (48 + n)) = Some n"
  by (simp add: digit_val_def Let_def of_char_of)

lemma digit_val_dot [simp]: "digit_val CHR ''.'' = None"
  by (simp add: digit_val_def)

lemma dec_small: "n < 10 \<Longrightarrow> dec n = [char_of (48 + n)]"
  by (subst dec.simps) simp

lemma dec_large: "\<not> n < 10 \<Longrightarrow> dec n = dec (n div 10) @ [char_of (48 + n mod 10)]"
  by (subst dec.simps) simp

lemma dec_not_Nil [simp]: "dec n \<noteq> []"
  by (cases "n < 10") (simp_all add: dec_small dec_large)

lemma dec_digits: "c \<in> set (dec n) \<Longrightarrow> digit_val c \<noteq> None"
proof (induction n rule: less_induct)
  case (less n)
  show ?case
  proof (cases "n < 10")
    case True
    then show ?thesis using less.prems digit_val_digit [of n] by (simp add: dec_small)
  next
    case False
    then show ?thesis
      using less.prems less.IH [of "n div 10"] digit_val_digit [of "n mod 10"] by (auto simp: dec_large)
  qed
qed

lemma dec_chars: "digit_val c = None \<Longrightarrow> c \<notin> set (dec n)"
  using dec_digits by blast

lemma separators_not_digits [simp]:
  "digit_val CHR '':'' = None" "digit_val CHR ''%'' = None" "digit_val CHR ''['' = None" "digit_val CHR '']'' = None"
  by (simp_all add: digit_val_def)

lemma ipv4_fields_dec:
  "n \<le> 255 \<Longrightarrow> ipv4_fields 0 0 fs (dec n @ r) = ipv4_fields n (length (dec n)) fs r"
proof (induction n arbitrary: r rule: less_induct)
  case (less n)
  show ?case
  proof (cases "n < 10")
    case True
    then show ?thesis using digit_val_digit [OF True] less.prems by (simp add: dec_small)
  next
    case False
    have "n div 10 < n" "n div 10 \<le> 255" "n div 10 \<noteq> 0" using False less.prems by simp_all
    moreover have "n div 10 * 10 + n mod 10 = n" by simp
    ultimately show ?thesis
      using less.IH [of "n div 10" "char_of (48 + n mod 10) # r"] False less.prems digit_val_digit [of "n mod 10"]
      by (simp add: dec_large Let_def)
  qed
qed

lemma dec_byte [simp]: "ipv4_fields 0 0 fs (dec (unat (a :: byte)) @ r) = ipv4_fields (unat a) (length (dec (unat a))) fs r"
  using unat_byte_less [of a] by (intro ipv4_fields_dec) simp

lemma parse_print_v4: "parseIPv4Fields (print_v4 a b c d) = Some [a, b, c, d]"
  using dec_byte [of "[a, b, c]" d "[]"] by (simp add: parseIPv4Fields_def print_v4_def)

lemma dec_inject: "dec (unat (a :: byte)) = dec (unat (b :: byte)) \<longleftrightarrow> a = b"
proof
  assume eq: "dec (unat a) = dec (unat b)"
  have "ipv4_fields 0 0 [0, 0, 0] (dec (unat x)) = Some [0, 0, 0, x]" for x :: byte
    using dec_byte [of "[0, 0, 0]" x "[]"] by simp
  then have "Some [0, 0, 0, a] = Some [0, 0, 0, b]" using eq by metis
  then show "a = b" by simp
qed simp

lemma ParseIP_print_v4: "ParseIP (print_v4 a b c d) = Some (v4InV6Prefix @ [a, b, c, d])"
proof -
  have "dropWhile (\<lambda>c. c \<notin> {CHR ''.'', CHR '':'', CHR ''%''}) (dec n @ CHR ''.'' # r) = CHR ''.'' # r" for n r
  proof -
    have "x \<in> set (dec n) \<Longrightarrow> x \<notin> {CHR ''.'', CHR '':'', CHR ''%''}" for x
      using dec_digits [of x n] by auto
    then show ?thesis by (simp add: dropWhile_append2)
  qed
  then show ?thesis
    using parse_print_v4 [of a b c d] by (simp add: ParseIP_def print_v4_def)
qed

lemma last_index_char_last: "c \<notin> set ys \<Longrightarrow> last_index_char c (xs @ c # ys) = Some (length xs)"
proof (induction xs)
  case Nil
  have "last_index_char c ys = None" if "c \<notin> set ys" using that by (induction ys) auto
  then show ?case using Nil by simp
qed simp

lemma index_char_None [simp]: "index_char c s = None \<longleftrightarrow> c \<notin> set s"
  by (induction s) auto

lemma index_char_None_Some [simp]: "(\<exists>y. index_char c s = Some y) \<longleftrightarrow> c \<in> set s"
  using index_char_None [of c s] by (metis not_None_eq)

lemma SplitHostPort_plain:
  assumes "host \<noteq> []" "\<forall>c \<in> {CHR '':'', CHR ''['', CHR '']''}. c \<notin> set host \<and> c \<notin> set port"
  shows "SplitHostPort (host @ CHR '':'' # port) = Some (host, port)"
proof -
  have "(host @ CHR '':'' # port) ! 0 \<noteq> CHR ''[''" using assms by (cases host) auto
  then show ?thesis
    using assms by (simp add: SplitHostPort_def last_index_char_last split_rest_def)
qed

lemma subnetKey_v4:
  "subnetKey (print_v4 a b c d @ CHR '':'' # dec p) =
     ''v4:'' @ dec (unat a) @ ''.'' @ dec (unat b) @ ''.'' @ dec (unat c)"
proof -
  have "SplitHostPort (print_v4 a b c d @ CHR '':'' # dec p) = Some (print_v4 a b c d, dec p)"
    by (rule SplitHostPort_plain) (simp_all add: print_v4_def dec_chars)
  then show ?thesis
    by (simp add: subnetKey_def ParseIP_print_v4 To4_def v4InV6Prefix_def)
qed

lemma split_at_dot:
  assumes "c \<notin> set xs" "c \<notin> set ys"
  shows "xs @ c # r = ys @ c # s \<longleftrightarrow> xs = ys \<and> r = s"
  using assms
proof (induction xs arbitrary: ys)
  case Nil
  then show ?case by (cases ys) auto
next
  case (Cons x xs)
  then show ?case by (cases ys) auto
qed

section \<open>Properties\<close>

text \<open>
  \<^verbatim>\<open>subnetKey\<close> groups IPv4 addresses with a port by their /24 network: the key of \<^verbatim>\<open>a.b.c.d:p\<close> does not
  depend on the last octet or the port, and two addresses of different /24 networks have
  different keys.
\<close>

lemma subnet_key_groups_v4:
  "subnetKey (print_v4 a b c d @ '':'' @ dec p) = subnetKey (print_v4 a' b' c' d' @ '':'' @ dec p') \<longleftrightarrow>
   a = a' \<and> b = b' \<and> c = c'"
  using dec_chars [of "CHR ''.''"]
  by (auto simp: subnetKey_v4 split_at_dot dec_inject)

end
