(* ===== verification/Routing.thy ===== *)
theory Routing
  imports Net
begin

text \<open>
  Package \<^verbatim>\<open>internal/routing\<close>: ordering relays by latency, spreading fragments over relays, choosing
  the hops of an onion path with one relay per network where possible, choosing the number of hops,
  and the tiered variant with a shuffled fast half and a preferred exit.

  The pseudo-random generator of \<^verbatim>\<open>math/rand\<close> is a parameter: a function that shuffles a list and
  moves the generator on.
\<close>

section \<open>Peers and their order\<close>

datatype routing_error = ErrNoActivePeers | ErrInvalidFragmentCount | ErrInsufficientRelays
  | ErrNoDestination | ErrInvalidHopCount

record peer =
  pnID :: string
  pnAddress :: string
  pnLatency :: int
  pnActive :: bool
  pnPubKey :: bytes
  pnPort :: u16
  pnRelayCapable :: bool

definition peer_less :: "peer \<Rightarrow> peer \<Rightarrow> bool" where
  "peer_less x y =
     (if pnLatency x \<noteq> pnLatency y then pnLatency x < pnLatency y else pnID x < pnID y)"

definition activeSorted :: "peer list \<Rightarrow> peer list" where
  "activeSorted peers = sort_by peer_less (filter pnActive peers)"

definition FastestRoute :: "string \<Rightarrow> peer list \<Rightarrow> routing_error + peer list" where
  "FastestRoute dest peers =
     (let active = activeSorted peers
      in if length active = 0 then Inl ErrNoActivePeers else Inr active)"

text \<open>The plan is the list of relays by fragment index.\<close>

definition SpreadPlan :: "int \<Rightarrow> int \<Rightarrow> peer list \<Rightarrow> routing_error + peer list" where
  "SpreadPlan fragmentCount minRelays peers =
     (if fragmentCount \<le> 0 then Inl ErrInvalidFragmentCount
      else let active = activeSorted peers in
        if length active = 0 then Inl ErrNoActivePeers
        else if minRelays > 1 \<and> length active < 2 then Inl ErrInsufficientRelays
        else let relayCount = (if minRelays < 1 then 1 else minRelays);
                 relayCount = nat (if relayCount > int (length active) then int (length active) else relayCount);
                 relays = take relayCount active
             in Inr (map (\<lambda>i. relays ! (i mod relayCount)) [0..<nat fragmentCount]))"

section \<open>Paths\<close>

record hop =
  hNodeID :: string
  hAddress :: string
  hPubKey :: bytes

definition hop_of :: "peer \<Rightarrow> hop" where
  "hop_of r = \<lparr>hNodeID = pnID r, hAddress = pnAddress r, hPubKey = pnPubKey r\<rparr>"

definition eligible_relay :: "peer \<Rightarrow> peer \<Rightarrow> bool" where
  "eligible_relay dest r \<longleftrightarrow>
     pnActive r \<and> pnRelayCapable r \<and> length (pnPubKey r) > 0 \<and> pnID r \<noteq> pnID dest"

text \<open>Pass 1, one relay per new network, and pass 2, which fills the remaining slots.\<close>

fun diverse_pass :: "nat \<Rightarrow> string set \<Rightarrow> peer list \<Rightarrow> peer list \<Rightarrow> peer list" where
  "diverse_pass n used picked [] = picked"
| "diverse_pass n used picked (r # rs) =
     (if length picked \<ge> n then picked
      else let sk = subnetKey (pnAddress r) in
        if sk \<in> used then diverse_pass n used picked rs
        else diverse_pass n (insert sk used) (picked @ [r]) rs)"

fun fill_pass :: "nat \<Rightarrow> string set \<Rightarrow> peer list \<Rightarrow> peer list \<Rightarrow> peer list" where
  "fill_pass n pickedID picked [] = picked"
| "fill_pass n pickedID picked (r # rs) =
     (if length picked \<ge> n then picked
      else if pnID r \<in> pickedID then fill_pass n pickedID picked rs
      else fill_pass n (insert (pnID r) pickedID) (picked @ [r]) rs)"

definition selectDiverse :: "peer list \<Rightarrow> nat \<Rightarrow> string \<Rightarrow> peer list" where
  "selectDiverse ordered n destAddr =
     (let picked = diverse_pass n {subnetKey destAddr} [] ordered
      in fill_pass n (pnID ` set picked) picked ordered)"

definition BuildPath :: "peer \<Rightarrow> peer list \<Rightarrow> int \<Rightarrow> routing_error + hop list" where
  "BuildPath dest relays hopCount =
     (if pnID dest = [] \<or> length (pnPubKey dest) = 0 then Inl ErrNoDestination
      else if hopCount < 0 then Inl ErrInvalidHopCount
      else let eligible = filter (eligible_relay dest) relays in
        if hopCount > 0 \<and> length eligible = 0 then Inl ErrInsufficientRelays
        else let eligible = sort_by peer_less eligible;
                 n = (if hopCount > int (length eligible) then length eligible else nat hopCount);
                 picked = diverse_pass n {subnetKey (pnAddress dest)} [] eligible;
                 picked = fill_pass n (pnID ` set picked) picked eligible
             in Inr (map hop_of picked @ [hop_of dest]))"

fun distinct_subnets :: "string set \<Rightarrow> nat \<Rightarrow> peer list \<Rightarrow> nat" where
  "distinct_subnets seen n [] = n"
| "distinct_subnets seen n (r # rs) =
     (if \<not> pnActive r \<or> \<not> pnRelayCapable r \<or> length (pnPubKey r) = 0 then distinct_subnets seen n rs
      else let sk = subnetKey (pnAddress r) in
        if sk \<in> seen then distinct_subnets seen n rs
        else distinct_subnets (insert sk seen) (n + 1) rs)"

definition DistinctSubnetRelays :: "string \<Rightarrow> peer list \<Rightarrow> nat" where
  "DistinctSubnetRelays destAddr relays = distinct_subnets {subnetKey destAddr} 0 relays"

definition AdaptiveHops :: "string \<Rightarrow> peer list \<Rightarrow> int \<Rightarrow> int \<Rightarrow> int" where
  "AdaptiveHops destAddr relays minHops maxHops =
     (let distinct = DistinctSubnetRelays destAddr relays;
          hops = (if distinct \<ge> 4 then Some 3 else if distinct \<ge> 2 then Some 2
                  else if distinct = 1 then Some 1 else None)
      in case hops of
           None \<Rightarrow> 0
         | Some hops \<Rightarrow>
             let hcap = (if maxHops \<le> 0 \<or> maxHops > 3 then 3 else maxHops);
                 hops = (if hops > hcap then hcap else hops)
             in if minHops > 0 \<and> hops < minHops then 0 else hops)"

section \<open>Tiered paths\<close>

record pathOptions =
  poSeed :: int
  poDeprioritize :: "string set"
  poExitNear :: "string set"

record 'g rng =
  rgNewSource :: "int \<Rightarrow> 'g"
  rgShuffle :: "'g \<Rightarrow> peer list \<Rightarrow> peer list \<times> 'g"

definition shuffle_law :: "'g rng \<Rightarrow> bool" where
  "shuffle_law rg \<longleftrightarrow> (\<forall>g ps. mset (fst (rgShuffle rg g ps)) = mset ps)"

definition tierOrder :: "'g rng \<Rightarrow> peer list \<Rightarrow> pathOptions \<Rightarrow> peer list" where
  "tierOrder rg eligible opt =
     (let deprio = filter (\<lambda>r. hostOf (pnAddress r) \<in> poDeprioritize opt) eligible;
          main = filter (\<lambda>r. hostOf (pnAddress r) \<notin> poDeprioritize opt) eligible;
          main = sort_by peer_less main;
          fastN = (length main + 1) div 2;
          g = rgNewSource rg (poSeed opt);
          (fast, g) = rgShuffle rg g (take fastN main);
          (reserve, g) = rgShuffle rg g (drop fastN main);
          (deprio, g) = rgShuffle rg g deprio
      in fast @ reserve @ deprio)"

fun exit_swap :: "string set \<Rightarrow> nat \<Rightarrow> peer list \<Rightarrow> nat list \<Rightarrow> peer list option" where
  "exit_swap near lst picked [] = None"
| "exit_swap near lst picked (i # js) =
     (if pnID (picked ! i) \<in> near then Some (picked[i := picked ! lst, lst := picked ! i])
      else exit_swap near lst picked js)"

definition biasExit :: "peer list \<Rightarrow> peer list \<Rightarrow> string set \<Rightarrow> peer list" where
  "biasExit picked ordered exitNear =
     (if exitNear = {} \<or> length picked = 0 then picked
      else let lst = length picked - 1 in
        if pnID (picked ! lst) \<in> exitNear then picked
        else case exit_swap exitNear lst picked [0..<length picked] of
               Some p \<Rightarrow> p
             | None \<Rightarrow>
                 (case find (\<lambda>r. pnID r \<in> exitNear \<and> pnID r \<notin> pnID ` set picked) ordered of
                    Some r \<Rightarrow> picked[lst := r]
                  | None \<Rightarrow> picked))"

definition BuildPathTiered :: "'g rng \<Rightarrow> peer \<Rightarrow> peer list \<Rightarrow> int \<Rightarrow> pathOptions \<Rightarrow> routing_error + hop list" where
  "BuildPathTiered rg dest relays hopCount opt =
     (if pnID dest = [] \<or> length (pnPubKey dest) = 0 then Inl ErrNoDestination
      else if hopCount < 0 then Inl ErrInvalidHopCount
      else let eligible = filter (eligible_relay dest) relays in
        if hopCount > 0 \<and> length eligible = 0 then Inl ErrInsufficientRelays
        else let n = (if hopCount > int (length eligible) then length eligible else nat hopCount);
                 ordered = tierOrder rg eligible opt;
                 picked = selectDiverse ordered n (pnAddress dest);
                 picked = biasExit picked ordered (poExitNear opt)
             in Inr (map hop_of picked @ [hop_of dest]))"

section \<open>Lemmas\<close>

interpretation latency: comparison peer_less
  by unfold_locales (auto simp: peer_less_def split: if_splits)

abbreviation snet :: "peer \<Rightarrow> string" where
  "snet r \<equiv> subnetKey (pnAddress r)"

text \<open>
  Pass 1 takes, in order, the first relay of every network that is not used yet, up to the number
  asked for: \<open>new_nets\<close> are those relays.
\<close>

fun new_nets :: "string set \<Rightarrow> peer list \<Rightarrow> peer list" where
  "new_nets used [] = []"
| "new_nets used (r # rs) =
     (if snet r \<in> used then new_nets used rs else r # new_nets (insert (snet r) used) rs)"

lemma diverse_pass_take:
  "diverse_pass n used picked rs = picked @ take (n - length picked) (new_nets used rs)"
proof (induction rs arbitrary: used picked)
  case (Cons r rs)
  show ?case
  proof (cases "length picked \<ge> n \<or> snet r \<in> used")
    case False
    then have "n - length picked = Suc (n - Suc (length picked))" by linarith
    then show ?thesis using False Cons by (simp add: Let_def)
  qed (auto simp: Cons Let_def)
qed simp

lemma new_nets_props:
  "distinct (map snet (new_nets used rs)) \<and> snet ` set (new_nets used rs) = snet ` set rs - used \<and>
   set (new_nets used rs) \<subseteq> set rs"
proof (induction rs arbitrary: used)
  case (Cons r rs)
  show ?case
  proof (cases "snet r \<in> used")
    case True
    then show ?thesis using Cons.IH [of used] by auto
  next
    case False
    then show ?thesis using Cons.IH [of "insert (snet r) used"] by auto
  qed
qed simp

lemma card_new_nets: "length (new_nets used rs) = card (snet ` set rs - used)"
  using new_nets_props [of used rs] distinct_card [of "map snet (new_nets used rs)"] by simp

lemma fill_pass_take:
  assumes "distinct (map pnID rs)" "pnID ` set picked \<subseteq> ids"
  shows "fill_pass n ids picked rs = picked @ take (n - length picked) (filter (\<lambda>r. pnID r \<notin> ids) rs)"
  using assms
proof (induction rs arbitrary: ids picked)
  case (Cons r rs)
  show ?case
  proof (cases "length picked \<ge> n \<or> pnID r \<in> ids")
    case False
    then have n: "n - length picked = Suc (n - Suc (length picked))" by linarith
    have "filter (\<lambda>x. pnID x \<notin> insert (pnID r) ids) rs = filter (\<lambda>x. pnID x \<notin> ids) rs"
      using Cons.prems(1) by (intro filter_cong) (auto simp: image_iff)
    moreover have "fill_pass n (insert (pnID r) ids) (picked @ [r]) rs =
        (picked @ [r]) @ take (n - length (picked @ [r])) (filter (\<lambda>x. pnID x \<notin> insert (pnID r) ids) rs)"
      using Cons.prems by (intro Cons.IH) auto
    ultimately show ?thesis using False n by simp
  qed (use Cons in auto)
qed simp

lemma new_nets_least:
  assumes "latency.ordered rs" "r \<in> set (new_nets used rs)" "e \<in> set rs" "snet e = snet r"
  shows "\<not> peer_less e r"
  using assms
proof (induction rs arbitrary: used)
  case (Cons x rs)
  show ?case
  proof (cases "snet x \<in> used")
    case True
    then have "r \<in> set (new_nets used rs)" using Cons.prems(2) by simp
    moreover have "snet r \<notin> used" using calculation new_nets_props [of used rs] by blast
    then have "e \<noteq> x" using True Cons.prems(4) by auto
    ultimately show ?thesis using Cons by auto
  next
    case False
    show ?thesis
    proof (cases "r = x")
      case True
      then show ?thesis using Cons.prems(1,3) latency.irrefl by auto
    next
      case False
      then have r: "r \<in> set (new_nets (insert (snet x) used) rs)"
        using Cons.prems(2) \<open>snet x \<notin> used\<close> by simp
      then have "snet r \<noteq> snet x" using new_nets_props [of "insert (snet x) used" rs] by auto
      then have "e \<in> set rs" using Cons.prems(3,4) by auto
      then show ?thesis using Cons.IH [OF _ r] Cons.prems(1,4) by simp
    qed
  qed
qed simp

text \<open>What the two passes select from candidates with distinct identifiers.\<close>

lemma selectDiverse_eq:
  assumes "distinct (map pnID rs)"
  shows "selectDiverse rs n da = (let d = take n (new_nets {subnetKey da} rs)
     in d @ take (n - length d) (filter (\<lambda>r. pnID r \<notin> pnID ` set d) rs))"
  using fill_pass_take [OF assms, of "take n (new_nets {subnetKey da} rs)"
      "pnID ` set (take n (new_nets {subnetKey da} rs))" n]
  by (simp add: selectDiverse_def diverse_pass_take Let_def)

lemma selectDiverse_props:
  assumes "distinct (map pnID rs)" "n \<le> length rs"
  shows "length (selectDiverse rs n da) = n \<and> distinct (map pnID (selectDiverse rs n da)) \<and>
         set (selectDiverse rs n da) \<subseteq> set rs"
proof -
  define d where "d = take n (new_nets {subnetKey da} rs)"
  define f where "f = filter (\<lambda>r. pnID r \<notin> pnID ` set d) rs"
  have eq: "selectDiverse rs n da = d @ take (n - length d) f"
    unfolding d_def f_def using selectDiverse_eq [OF assms(1)] by (simp add: Let_def)
  have sub: "set d \<subseteq> set rs"
    using new_nets_props [of "{subnetKey da}" rs] set_take_subset [of n "new_nets {subnetKey da} rs"]
    unfolding d_def by (meson subset_trans)
  have "distinct (map snet d)" using new_nets_props [of "{subnetKey da}" rs] by (simp add: d_def take_map [symmetric])
  then have "distinct d" by (rule distinct_map [THEN iffD1, THEN conjunct1])
  then have dd: "distinct (map pnID d)"
    using sub assms(1) by (auto simp: distinct_map intro: inj_on_subset)
  have inj: "inj_on pnID (set rs)" using assms(1) by (simp add: distinct_map)
  have "set f = set rs - set d"
    using inj_on_image_mem_iff [OF inj _ sub] unfolding f_def set_filter by blast
  moreover have df: "distinct f" "distinct (map pnID f)"
    using assms(1) distinct_map [of pnID rs] unfolding f_def by (auto intro: distinct_map_filter)
  ultimately have "length f = length rs - length d"
    using \<open>distinct d\<close> sub assms(1) card_Diff_subset [of "set d" "set rs"]
    by (simp add: distinct_card [symmetric] distinct_map)
  then have "length (take (n - length d) f) = n - length d" "length d \<le> n"
    using assms(2) by (auto simp: d_def)
  moreover have "distinct (map pnID (d @ take (n - length d) f))"
  proof -
    have "pnID x \<notin> pnID ` set d" if "x \<in> set (take (n - length d) f)" for x
      using in_set_takeD [OF that] by (simp add: f_def)
    then have "pnID ` set (take (n - length d) f) \<subseteq> - (pnID ` set d)"
      by (intro image_subsetI ComplI) simp
    then have "pnID ` set d \<inter> pnID ` set (take (n - length d) f) = {}"
      by auto
    moreover have "distinct (map pnID (take (n - length d) f))"
      using df(2) by (simp only: distinct_take take_map [symmetric])
    ultimately show ?thesis using dd by (simp only: map_append distinct_append set_map simp_thms)
  qed
  moreover have "set (take (n - length d) f) \<subseteq> set rs"
    using set_take_subset [of "n - length d" f] by (auto simp: f_def)
  ultimately show ?thesis using sub by (simp add: eq)
qed

lemma selectDiverse_nets:
  assumes "distinct (map pnID rs)" "n \<le> card (snet ` set rs - {subnetKey da})"
  shows "selectDiverse rs n da = take n (new_nets {subnetKey da} rs)"
    and "distinct (map snet (selectDiverse rs n da))" "subnetKey da \<notin> snet ` set (selectDiverse rs n da)"
proof -
  have "length (new_nets {subnetKey da} rs) \<ge> n" using assms(2) by (simp add: card_new_nets)
  then show eq: "selectDiverse rs n da = take n (new_nets {subnetKey da} rs)"
    using selectDiverse_eq [OF assms(1), of n da] by (simp add: Let_def)
  show "distinct (map snet (selectDiverse rs n da))" "subnetKey da \<notin> snet ` set (selectDiverse rs n da)"
    using new_nets_props [of "{subnetKey da}" rs] set_take_subset [of n "new_nets {subnetKey da} rs"]
    unfolding eq by (auto simp: take_map [symmetric])
qed

lemma distinct_filter_ids: "distinct (map pnID rs) \<Longrightarrow> distinct (map pnID (filter P rs))"
  by (simp add: distinct_map_filter)

lemma BuildPath_selects:
  assumes "pnID dest \<noteq> []" "pnPubKey dest \<noteq> []" "0 \<le> hopCount"
    and "hopCount = 0 \<or> filter (eligible_relay dest) relays \<noteq> []"
  shows "BuildPath dest relays hopCount = Inr (map hop_of (selectDiverse
     (sort_by peer_less (filter (eligible_relay dest) relays))
     (min (nat hopCount) (length (filter (eligible_relay dest) relays))) (pnAddress dest)) @ [hop_of dest])"
proof -
  let ?el = "filter (eligible_relay dest) relays"
  have "(if hopCount > int (length ?el) then length ?el else nat hopCount) = min (nat hopCount) (length ?el)"
    using assms(3) by auto
  then show ?thesis
    using assms by (auto simp: BuildPath_def selectDiverse_def Let_def)
qed

lemma distinct_subnets_card:
  "distinct_subnets seen n rs =
     n + card (snet ` {r \<in> set rs. pnActive r \<and> pnRelayCapable r \<and> pnPubKey r \<noteq> []} - seen)"
proof (induction rs arbitrary: seen n)
  case (Cons r rs)
  let ?E = "\<lambda>rs. {r \<in> set rs. pnActive r \<and> pnRelayCapable r \<and> pnPubKey r \<noteq> []}"
  show ?case
  proof (cases "pnActive r \<and> pnRelayCapable r \<and> pnPubKey r \<noteq> []")
    case True
    then have E: "snet ` ?E (r # rs) = insert (snet r) (snet ` ?E rs)" by auto
    show ?thesis
    proof (cases "snet r \<in> seen")
      case True
      then show ?thesis using Cons.IH \<open>pnActive r \<and> _\<close> unfolding E by (simp add: Let_def)
    next
      case False
      then have "insert (snet r) (snet ` ?E rs) - seen = insert (snet r) (snet ` ?E rs - insert (snet r) seen)" by auto
      then show ?thesis using Cons.IH \<open>pnActive r \<and> _\<close> False unfolding E by (simp add: Let_def)
    qed
  next
    case False
    then have "?E (r # rs) = ?E rs" by auto
    then show ?thesis using Cons.IH False by auto
  qed
qed simp

lemma mset_filter_split:
  "filter_mset (\<lambda>x. \<not> P x) (mset xs) + filter_mset P (mset xs) = mset xs"
  by (induction xs) auto

lemma tierOrder_mset:
  assumes "shuffle_law rg"
  shows "mset (tierOrder rg el opt) = mset el"
proof -
  let ?main = "sort_by peer_less (filter (\<lambda>r. hostOf (pnAddress r) \<notin> poDeprioritize opt) el)"
  let ?deprio = "filter (\<lambda>r. hostOf (pnAddress r) \<in> poDeprioritize opt) el"
  have sh: "mset a = mset xs" if "rgShuffle rg g xs = (a, g')" for a xs g g'
    using assms that unfolding shuffle_law_def by (metis fst_conv)
  have "mset (take n ?main) + mset (drop n ?main) + mset ?deprio = mset el" for n
    by (simp flip: mset_append add: mset_filter_split)
  then show ?thesis
    by (auto simp: tierOrder_def Let_def add.assoc split: prod.split dest!: sh)
qed

lemma exit_swap_find:
  "exit_swap near l p js =
     map_option (\<lambda>i. p[i := p ! l, l := p ! i]) (find (\<lambda>i. pnID (p ! i) \<in> near) js)"
  by (induction js) simp_all

lemma biasExit_props:
  assumes "distinct (map pnID picked)" "set picked \<subseteq> set ordered"
  shows "length (biasExit picked ordered near) = length picked \<and>
         distinct (map pnID (biasExit picked ordered near)) \<and> set (biasExit picked ordered near) \<subseteq> set ordered"
proof (cases "near = {} \<or> picked = [] \<or> pnID (picked ! (length picked - 1)) \<in> near")
  case True
  then show ?thesis using assms by (auto simp: biasExit_def)
next
  case False
  let ?l = "length picked - 1"
  have l: "?l < length picked" using False by simp
  show ?thesis
  proof (cases "find (\<lambda>i. pnID (picked ! i) \<in> near) [0..<length picked]")
    case (Some i)
    then have i: "i < length picked" by (auto simp: find_Some_iff)
    let ?q = "picked[i := picked ! ?l, ?l := picked ! i]"
    have m: "mset ?q = mset picked" using mset_swap [OF l i] .
    have eq: "biasExit picked ordered near = ?q" using False Some by (simp add: biasExit_def exit_swap_find Let_def)
    have "mset (map pnID ?q) = mset (map pnID picked)" using m by (metis mset_map)
    then have "distinct (map pnID ?q)" using assms(1) by (metis mset_eq_imp_distinct_iff)
    moreover have "set ?q = set picked" using m by (metis set_mset_mset)
    ultimately show ?thesis using assms(2) unfolding eq by simp
  next
    case None
    show ?thesis
    proof (cases "find (\<lambda>r. pnID r \<in> near \<and> pnID r \<notin> pnID ` set picked) ordered")
      case (Some r)
      then have r: "r \<in> set ordered" "pnID r \<notin> pnID ` set picked"
        by (auto simp: find_Some_iff)
      have eq: "biasExit picked ordered near = picked[?l := r]"
        using False None Some by (simp add: biasExit_def exit_swap_find Let_def)
      have "distinct (map pnID (picked[?l := r]))"
        using assms(1) r(2) by (simp add: map_update distinct_list_update)
      moreover have "set (picked[?l := r]) \<subseteq> insert r (set picked)" by (rule set_update_subset_insert)
      ultimately show ?thesis using r(1) assms(2) unfolding eq by auto
    next
      case nofind: None
      then show ?thesis using False None assms by (simp add: biasExit_def exit_swap_find Let_def)
    qed
  qed
qed

lemma biasExit_near:
  assumes "picked \<noteq> []" "r \<in> set ordered" "pnID r \<in> near"
  shows "pnID (last (biasExit picked ordered near)) \<in> near"
proof (cases "pnID (picked ! (length picked - 1)) \<in> near")
  case True
  then show ?thesis using assms by (auto simp: biasExit_def last_conv_nth)
next
  case False
  let ?l = "length picked - 1"
  have l: "?l < length picked" "near \<noteq> {}" using assms by auto
  show ?thesis
  proof (cases "find (\<lambda>i. pnID (picked ! i) \<in> near) [0..<length picked]")
    case (Some i)
    then have "pnID (picked ! i) \<in> near" by (auto simp: find_Some_iff)
    moreover have "biasExit picked ordered near = picked[i := picked ! ?l, ?l := picked ! i]"
      using False Some assms(1) l by (simp add: biasExit_def exit_swap_find Let_def)
    ultimately show ?thesis using assms(1) by (simp add: last_conv_nth)
  next
    case None
    have "pnID x \<notin> near" if "x \<in> set picked" for x
      using that None by (auto simp: find_None_iff in_set_conv_nth)
    then have "pnID r \<notin> pnID ` set picked" using assms(3) by auto
    then obtain x where x: "find (\<lambda>r. pnID r \<in> near \<and> pnID r \<notin> pnID ` set picked) ordered = Some x"
      using assms(2,3) by (metis (mono_tags, lifting) find_None_iff option.exhaust)
    then have "pnID x \<in> near" by (auto simp: find_Some_iff)
    moreover have "biasExit picked ordered near = picked[?l := x]"
      using False None x assms(1) l by (simp add: biasExit_def exit_swap_find Let_def)
    ultimately show ?thesis using assms(1) by (simp add: last_conv_nth)
  qed
qed

lemma DistinctSubnetRelays_eligible:
  assumes "\<And>r. r \<in> set relays \<Longrightarrow> pnID r = pnID dest \<Longrightarrow> snet r = snet dest"
  shows "DistinctSubnetRelays (pnAddress dest) relays =
         card (snet ` set (filter (eligible_relay dest) relays) - {snet dest})"
proof -
  have "snet ` {r \<in> set relays. pnActive r \<and> pnRelayCapable r \<and> pnPubKey r \<noteq> []} - {snet dest} =
      snet ` set (filter (eligible_relay dest) relays) - {snet dest}"
    using assms by (auto simp: eligible_relay_def)
  then show ?thesis by (simp add: DistinctSubnetRelays_def distinct_subnets_card)
qed

lemma AdaptiveHops_bounds:
  assumes "0 < AdaptiveHops da relays minHops maxHops"
  shows "AdaptiveHops da relays minHops maxHops \<le> 3 \<and>
         (0 < minHops \<longrightarrow> minHops \<le> AdaptiveHops da relays minHops maxHops) \<and>
         (0 < maxHops \<longrightarrow> AdaptiveHops da relays minHops maxHops \<le> maxHops) \<and>
         AdaptiveHops da relays minHops maxHops \<le> int (DistinctSubnetRelays da relays)"
  using assms by (auto simp: AdaptiveHops_def Let_def split: if_splits)

lemma length_filter_mod:
  assumes "j < k"
  shows "length (filter (\<lambda>i. i mod k = j) [0..<n]) = n div k + (if j < n mod k then 1 else (0 :: nat))"
proof (induction n)
  case (Suc n)
  have "n mod k < k" using assms by simp
  then show ?case using Suc assms by (auto simp: div_Suc mod_Suc)
qed (use assms in simp)

lemma spread_count_bound:
  assumes "2 \<le> k" "2 \<le> F"
  shows "F div k + (if j < F mod k then 1 else 0) < (F :: nat)"
proof -
  have "2 * (F div k) + F mod k \<le> F"
    using mult_le_mono1 [OF assms(1), of "F div k"] mult_div_mod_eq [of k F] by linarith
  then show ?thesis using assms(2) by (cases "F div k") auto
qed



section \<open>Properties\<close>

text \<open>
  C10. \<^verbatim>\<open>BuildPath\<close>: with relays of distinct identifiers the path has exactly the hops asked for, or all
  eligible relays if they are fewer, then the destination; the intermediate hops are distinct
  eligible relays, so the destination is never one of them. When there are enough networks, no two
  hops share a network, none is in the destination's, and each hop is the fastest eligible relay of
  its network.
\<close>

theorem build_path_correct:
  assumes "pnID dest \<noteq> []" and "pnPubKey dest \<noteq> []" and "0 \<le> hopCount"
    and "hopCount = 0 \<or> filter (eligible_relay dest) relays \<noteq> []" and "distinct (map pnID relays)"
  shows "\<exists>picked. BuildPath dest relays hopCount = Inr (map hop_of picked @ [hop_of dest]) \<and>
     length picked = min (nat hopCount) (length (filter (eligible_relay dest) relays)) \<and>
     distinct (map pnID picked) \<and> (\<forall>r \<in> set picked. r \<in> set relays \<and> eligible_relay dest r) \<and>
     (length picked \<le> card (snet ` set (filter (eligible_relay dest) relays) - {snet dest}) \<longrightarrow>
        distinct (map snet picked) \<and> snet dest \<notin> snet ` set picked \<and>
        (\<forall>r \<in> set picked. \<forall>e \<in> set relays. eligible_relay dest e \<and> snet e = snet r \<longrightarrow> \<not> peer_less e r))"
proof -
  let ?el = "sort_by peer_less (filter (eligible_relay dest) relays)"
  let ?n = "min (nat hopCount) (length (filter (eligible_relay dest) relays))"
  let ?p = "selectDiverse ?el ?n (pnAddress dest)"
  have ids: "distinct (map pnID ?el)" using assms(5) by (simp add: distinct_filter_ids)
  have props: "length ?p = ?n" "distinct (map pnID ?p)" "set ?p \<subseteq> set ?el"
    using selectDiverse_props [OF ids, of ?n "pnAddress dest"] by simp_all
  have "distinct (map snet ?p) \<and> snet dest \<notin> snet ` set ?p \<and>
      (\<forall>r \<in> set ?p. \<forall>e \<in> set relays. eligible_relay dest e \<and> snet e = snet r \<longrightarrow> \<not> peer_less e r)"
    if "?n \<le> card (snet ` set (filter (eligible_relay dest) relays) - {snet dest})"
  proof -
    have n: "?n \<le> card (snet ` set ?el - {subnetKey (pnAddress dest)})" using that by simp
    note nets = selectDiverse_nets [OF ids n]
    have "\<not> peer_less e r" if "r \<in> set ?p" "e \<in> set relays" "eligible_relay dest e" "snet e = snet r" for r e
    proof (rule new_nets_least [OF latency.ordered_sort_by _ _ that(4)])
      show "r \<in> set (new_nets {subnetKey (pnAddress dest)} ?el)"
        using that(1) unfolding nets(1) by (rule in_set_takeD)
      show "e \<in> set ?el" using that(2,3) by simp
    qed
    then show ?thesis using nets by blast
  qed
  with props show ?thesis
    by (intro exI [of _ ?p]) (auto simp: BuildPath_selects [OF assms(1-4)])
qed

definition sample_relay :: "string \<Rightarrow> string \<Rightarrow> int \<Rightarrow> peer" where
  "sample_relay i a l = \<lparr>pnID = i, pnAddress = a, pnLatency = l, pnActive = True, pnPubKey = [1],
     pnPort = 9000, pnRelayCapable = True\<rparr>"

theorem build_path_correct_witness:
  "\<exists>picked. BuildPath (sample_relay ''d'' ''10.0.0.1:1'' 1)
       [sample_relay ''a'' ''10.0.1.1:1'' 5, sample_relay ''b'' ''10.0.1.2:1'' 3] 2 =
     Inr (map hop_of picked @ [hop_of (sample_relay ''d'' ''10.0.0.1:1'' 1)]) \<and> length picked = 2"
proof -
  let ?d = "sample_relay ''d'' ''10.0.0.1:1'' 1"
  let ?rs = "[sample_relay ''a'' ''10.0.1.1:1'' 5, sample_relay ''b'' ''10.0.1.2:1'' 3]"
  have el: "filter (eligible_relay ?d) ?rs = ?rs" by (simp add: sample_relay_def eligible_relay_def)
  have "pnID ?d \<noteq> []" "pnPubKey ?d \<noteq> []" "(0 :: int) \<le> 2" "(2 :: int) = 0 \<or> filter (eligible_relay ?d) ?rs \<noteq> []"
    "distinct (map pnID ?rs)"
    unfolding el by (simp_all add: sample_relay_def)
  from build_path_correct [OF this] obtain picked where
    "BuildPath ?d ?rs 2 = Inr (map hop_of picked @ [hop_of ?d])"
    "length picked = min (nat 2) (length (filter (eligible_relay ?d) ?rs))"
    by (elim exE conjE)
  then show ?thesis unfolding el by (intro exI [of _ picked]) simp
qed

text \<open>
  \<^verbatim>\<open>BuildPath\<close> and \<^verbatim>\<open>BuildPathTiered\<close> fail in exactly the documented cases, with the documented errors.
\<close>

lemma path_errors:
  "(BuildPath dest relays hopCount = Inl e \<longleftrightarrow>
      e = (if pnID dest = [] \<or> pnPubKey dest = [] then ErrNoDestination
           else if hopCount < 0 then ErrInvalidHopCount else ErrInsufficientRelays) \<and>
      (pnID dest = [] \<or> pnPubKey dest = [] \<or> hopCount < 0 \<or>
       hopCount > 0 \<and> filter (eligible_relay dest) relays = [])) \<and>
   (BuildPathTiered rg dest relays hopCount opt = Inl e \<longleftrightarrow> BuildPath dest relays hopCount = Inl e)"
  by (auto simp: BuildPath_def BuildPathTiered_def Let_def)

text \<open>
  C29. \<^verbatim>\<open>BuildPathTiered\<close>: whatever permutation the seeded shuffle makes of the tiers, the path has the same
  number of hops as \<^verbatim>\<open>BuildPath\<close>, distinct eligible relays and the destination last; its exit hop is a relay
  of \<^verbatim>\<open>ExitNear\<close> as soon as one is eligible; and without a bias no two hops share a network when there are
  enough networks.
\<close>

theorem tiered_path_correct:
  assumes "shuffle_law rg" and "pnID dest \<noteq> []" and "pnPubKey dest \<noteq> []" and "0 \<le> hopCount"
    and "hopCount = 0 \<or> filter (eligible_relay dest) relays \<noteq> []" and "distinct (map pnID relays)"
  shows "\<exists>picked. BuildPathTiered rg dest relays hopCount opt = Inr (map hop_of picked @ [hop_of dest]) \<and>
     length picked = min (nat hopCount) (length (filter (eligible_relay dest) relays)) \<and>
     distinct (map pnID picked) \<and> (\<forall>r \<in> set picked. r \<in> set relays \<and> eligible_relay dest r) \<and>
     (\<forall>r \<in> set relays. eligible_relay dest r \<and> pnID r \<in> poExitNear opt \<and> 0 < hopCount \<longrightarrow>
        pnID (last picked) \<in> poExitNear opt) \<and>
     (poExitNear opt = {} \<and>
      length picked \<le> card (snet ` set (filter (eligible_relay dest) relays) - {snet dest}) \<longrightarrow>
        distinct (map snet picked) \<and> snet dest \<notin> snet ` set picked)"
proof -
  let ?el = "filter (eligible_relay dest) relays"
  let ?ord = "tierOrder rg ?el opt"
  let ?n = "min (nat hopCount) (length ?el)"
  let ?sel = "selectDiverse ?ord ?n (pnAddress dest)"
  let ?p = "biasExit ?sel ?ord (poExitNear opt)"
  have ms: "mset ?ord = mset ?el" using assms(1) by (rule tierOrder_mset)
  have set_ord: "set ?ord = set ?el" using arg_cong [OF ms, of set_mset] by simp
  have len_ord: "length ?ord = length ?el" using arg_cong [OF ms, of size] by (simp only: size_mset)
  have "mset (map pnID ?ord) = mset (map pnID ?el)" using ms by simp
  then have ids: "distinct (map pnID ?ord)"
    using assms(6) distinct_filter_ids mset_eq_imp_distinct_iff by blast
  have sel: "length ?sel = ?n" "distinct (map pnID ?sel)" "set ?sel \<subseteq> set ?ord"
    using selectDiverse_props [OF ids, of ?n "pnAddress dest"] len_ord by simp_all
  have bias: "length ?p = ?n" "distinct (map pnID ?p)" "set ?p \<subseteq> set ?el"
    using biasExit_props [OF sel(2,3), of "poExitNear opt"] unfolding sel(1) set_ord by simp_all
  have "(if hopCount > int (length ?el) then length ?el else nat hopCount) = ?n" using assms(4) by auto
  then have eq: "BuildPathTiered rg dest relays hopCount opt = Inr (map hop_of ?p @ [hop_of dest])"
    using assms(2-5) by (auto simp: BuildPathTiered_def Let_def)
  have near: "pnID (last ?p) \<in> poExitNear opt"
    if "r \<in> set relays" "eligible_relay dest r" "pnID r \<in> poExitNear opt" "0 < hopCount" for r
  proof (rule biasExit_near [OF _ _ that(3)])
    show r: "r \<in> set ?ord" unfolding set_ord using that by simp
    then show "?sel \<noteq> []" using sel(1) that(4) len_ord by (cases ?ord) auto
  qed
  have nets: "distinct (map snet ?p) \<and> snet dest \<notin> snet ` set ?p"
    if "poExitNear opt = {}" "?n \<le> card (snet ` set ?el - {snet dest})"
  proof -
    have "?n \<le> card (snet ` set ?ord - {subnetKey (pnAddress dest)})" unfolding set_ord by (rule that(2))
    from selectDiverse_nets(2,3) [OF ids this] show ?thesis using that(1) by (simp add: biasExit_def)
  qed
  have el: "\<forall>r \<in> set ?p. r \<in> set relays \<and> eligible_relay dest r"
    using bias(3) by (intro ballI) (drule subsetD, assumption, simp)
  have near': "\<forall>r \<in> set relays. eligible_relay dest r \<and> pnID r \<in> poExitNear opt \<and> 0 < hopCount \<longrightarrow>
      pnID (last ?p) \<in> poExitNear opt"
    using near by (intro ballI impI) (elim conjE)
  have nets': "poExitNear opt = {} \<and> length ?p \<le> card (snet ` set ?el - {snet dest}) \<longrightarrow>
      distinct (map snet ?p) \<and> snet dest \<notin> snet ` set ?p"
    unfolding bias(1) by (intro impI, elim conjE) (rule nets)
  show ?thesis
    by (rule exI [of _ ?p]) (intro conjI eq bias(1,2) el near' nets')
qed

definition sample_rng :: "unit rng" where
  "sample_rng = \<lparr>rgNewSource = (\<lambda>_. ()), rgShuffle = (\<lambda>g ps. (rev ps, g))\<rparr>"

theorem tiered_path_correct_witness:
  "\<exists>picked. BuildPathTiered sample_rng (sample_relay ''d'' ''10.0.0.1:1'' 1)
       [sample_relay ''a'' ''10.0.1.1:1'' 5, sample_relay ''b'' ''10.0.2.2:1'' 3] 1
       \<lparr>poSeed = 7, poDeprioritize = {}, poExitNear = {''a''}\<rparr> =
     Inr (map hop_of picked @ [hop_of (sample_relay ''d'' ''10.0.0.1:1'' 1)]) \<and> length picked = 1 \<and>
     pnID (last picked) = ''a''"
proof -
  let ?d = "sample_relay ''d'' ''10.0.0.1:1'' 1"
  let ?rs = "[sample_relay ''a'' ''10.0.1.1:1'' 5, sample_relay ''b'' ''10.0.2.2:1'' 3]"
  let ?opt = "\<lparr>poSeed = 7, poDeprioritize = {}, poExitNear = {''a''}\<rparr>"
  have el: "filter (eligible_relay ?d) ?rs = ?rs" by (simp add: sample_relay_def eligible_relay_def)
  have "shuffle_law sample_rng" "pnID ?d \<noteq> []" "pnPubKey ?d \<noteq> []" "(0 :: int) \<le> 1"
    "(1 :: int) = 0 \<or> filter (eligible_relay ?d) ?rs \<noteq> []" "distinct (map pnID ?rs)"
    unfolding el by (simp_all add: sample_relay_def shuffle_law_def sample_rng_def)
  from tiered_path_correct [OF this, of ?opt] obtain picked where p:
    "BuildPathTiered sample_rng ?d ?rs 1 ?opt = Inr (map hop_of picked @ [hop_of ?d])"
    "length picked = min (nat 1) (length (filter (eligible_relay ?d) ?rs))"
    "\<forall>r \<in> set ?rs. eligible_relay ?d r \<and> pnID r \<in> poExitNear ?opt \<and> (0 :: int) < 1 \<longrightarrow>
        pnID (last picked) \<in> poExitNear ?opt"
    by (elim exE conjE)
  have "pnID (last picked) = ''a''"
    using p(3) by (simp add: sample_relay_def eligible_relay_def)
  then show ?thesis using p(1,2) unfolding el by (intro exI [of _ picked]) simp
qed

text \<open>
  C30. \<^verbatim>\<open>AdaptiveHops\<close> never asks for a path the relays cannot give: a positive answer is at most 3, respects
  the caller's bounds, and \<^verbatim>\<open>BuildPath\<close> with that many hops succeeds with all hops in different networks,
  none of them the destination's.
\<close>

theorem adaptive_hops_buildable:
  assumes "0 < AdaptiveHops (pnAddress dest) relays minHops maxHops"
    and "pnID dest \<noteq> []" and "pnPubKey dest \<noteq> []" and "distinct (map pnID relays)"
    and "\<And>r. r \<in> set relays \<Longrightarrow> pnID r = pnID dest \<Longrightarrow> snet r = snet dest"
  shows "\<exists>picked. let h = AdaptiveHops (pnAddress dest) relays minHops maxHops in
     BuildPath dest relays h = Inr (map hop_of picked @ [hop_of dest]) \<and> int (length picked) = h \<and>
     distinct (map snet (picked @ [dest])) \<and> h \<le> 3 \<and> (0 < minHops \<longrightarrow> minHops \<le> h) \<and> (0 < maxHops \<longrightarrow> h \<le> maxHops)"
proof -
  let ?h = "AdaptiveHops (pnAddress dest) relays minHops maxHops"
  let ?el = "filter (eligible_relay dest) relays"
  let ?N = "card (snet ` set ?el - {snet dest})"
  have h: "?h \<le> int ?N" "?h \<le> 3" "0 < minHops \<longrightarrow> minHops \<le> ?h" "0 < maxHops \<longrightarrow> ?h \<le> maxHops"
    using AdaptiveHops_bounds [OF assms(1)] DistinctSubnetRelays_eligible [OF assms(5)] by simp_all
  have "?N \<le> card (set ?el)"
    by (meson List.finite_set card_Diff_subset_Int card_image_le card_mono Diff_subset finite_imageI order_trans)
  then have len: "nat ?h \<le> length ?el" "0 < length ?el"
    using h(1) card_length [of ?el] assms(1) by linarith+
  let ?ord = "sort_by peer_less ?el"
  let ?p = "selectDiverse ?ord (nat ?h) (pnAddress dest)"
  have ids: "distinct (map pnID ?ord)" using assms(4) by (simp add: distinct_filter_ids)
  have "nat ?h \<le> card (snet ` set ?ord - {subnetKey (pnAddress dest)})" using h(1) assms(1) by simp
  note nets = selectDiverse_nets(2,3) [OF ids this]
  have "length ?p = nat ?h"
    using selectDiverse_props [OF ids, of "nat ?h" "pnAddress dest"] len by simp
  moreover have "BuildPath dest relays ?h = Inr (map hop_of ?p @ [hop_of dest])"
    using BuildPath_selects [OF assms(2,3), of ?h relays] assms(1) len by (simp add: min_absorb1)
  ultimately show ?thesis using nets h(2-4) assms(1) by (intro exI [of _ ?p]) (simp add: Let_def)
qed

theorem adaptive_hops_buildable_witness:
  "\<exists>picked. let h = AdaptiveHops ''10.0.0.1:1''
       [sample_relay ''a'' ''10.0.1.1:1'' 5, sample_relay ''b'' ''10.0.2.2:1'' 3] 1 3 in
     BuildPath (sample_relay ''d'' ''10.0.0.1:1'' 1)
       [sample_relay ''a'' ''10.0.1.1:1'' 5, sample_relay ''b'' ''10.0.2.2:1'' 3] h =
     Inr (map hop_of picked @ [hop_of (sample_relay ''d'' ''10.0.0.1:1'' 1)]) \<and> int (length picked) = h"
proof -
  let ?d = "sample_relay ''d'' ''10.0.0.1:1'' 1"
  let ?rs = "[sample_relay ''a'' ''10.0.1.1:1'' 5, sample_relay ''b'' ''10.0.2.2:1'' 3]"
  have a: "pnAddress ?d = ''10.0.0.1:1''" by (simp add: sample_relay_def)
  have "0 < AdaptiveHops (pnAddress ?d) ?rs 1 3" by code_simp
  moreover have "pnID ?d \<noteq> []" "pnPubKey ?d \<noteq> []" "distinct (map pnID ?rs)" by (simp_all add: sample_relay_def)
  moreover have "snet r = snet ?d" if "r \<in> set ?rs" "pnID r = pnID ?d" for r
    using that by (auto simp: sample_relay_def)
  ultimately have "\<exists>picked. let h = AdaptiveHops (pnAddress ?d) ?rs 1 3 in
     BuildPath ?d ?rs h = Inr (map hop_of picked @ [hop_of ?d]) \<and> int (length picked) = h \<and>
     distinct (map snet (picked @ [?d])) \<and> h \<le> 3 \<and> (0 < (1 :: int) \<longrightarrow> 1 \<le> h) \<and> (0 < (3 :: int) \<longrightarrow> h \<le> 3)"
    by (rule adaptive_hops_buildable)
  then show ?thesis unfolding a Let_def by (elim ex_forward conjE) (intro conjI)
qed

text \<open>
  C31. \<^verbatim>\<open>SpreadPlan\<close>: the fragments are shared as evenly as possible between the fastest relays, the
  faster ones taking the remainder, and when more than one relay is asked for no relay holds all of two or
  more fragments.
\<close>

theorem spread_plan_balanced:
  assumes "SpreadPlan fragmentCount minRelays peers = Inr plan" and "distinct (map pnID peers)"
  shows "let F = nat fragmentCount; k = min (nat (max 1 minRelays)) (length (filter pnActive peers)) in
     length plan = F \<and> set plan \<subseteq> {r \<in> set peers. pnActive r} \<and>
     (\<forall>j < k. count_list plan (activeSorted peers ! j) = F div k + (if j < F mod k then 1 else 0)) \<and>
     (minRelays > 1 \<and> F > 1 \<longrightarrow> (\<forall>r. count_list plan r < F))"
proof -
  define F where "F = nat fragmentCount"
  define act where "act = activeSorted peers"
  define k where "k = min (nat (max 1 minRelays)) (length (filter pnActive peers))"
  have len: "length act = length (filter pnActive peers)" and act: "set act = {r \<in> set peers. pnActive r}"
    by (auto simp: act_def activeSorted_def)
  have "distinct (map pnID act)" unfolding act_def activeSorted_def using assms(2) by (simp add: distinct_filter_ids)
  then have d: "distinct act" by (rule distinct_map [THEN iffD1, THEN conjunct1])
  have ok: "fragmentCount > 0" "act \<noteq> []" "minRelays > 1 \<longrightarrow> length act \<ge> 2"
    using assms(1) unfolding SpreadPlan_def act_def by (auto simp: Let_def split: if_splits)
  have k: "0 < k" "k \<le> length act" "minRelays > 1 \<longrightarrow> 2 \<le> k"
    using ok(2,3) unfolding k_def len [symmetric] by auto
  have "nat (if (if minRelays < 1 then 1 else minRelays) > int (length act) then int (length act)
      else (if minRelays < 1 then 1 else minRelays)) = k"
    using ok(2) unfolding k_def len [symmetric] by (cases act) auto
  then have plan: "plan = map (\<lambda>i. take k act ! (i mod k)) [0..<F]"
    using assms(1) ok unfolding SpreadPlan_def act_def [symmetric] F_def by (auto simp: Let_def split: if_splits)
  have mk: "i mod k < k" for i using k(1) by simp
  have plan': "plan = map (\<lambda>i. act ! (i mod k)) [0..<F]" unfolding plan using mk by simp
  have cnt: "count_list plan (act ! j) = F div k + (if j < F mod k then 1 else 0)" if "j < k" for j
  proof -
    have "act ! j = act ! (i mod k) \<longleftrightarrow> i mod k = j" for i
      using nth_eq_iff_index_eq [OF d, of j "i mod k"] that k(2) mk [of i] by auto
    then show ?thesis
      by (simp add: plan' count_list_eq_length_filter filter_map o_def length_filter_mod [OF that])
  qed
  have sub: "set plan \<subseteq> (!) act ` {..<k}" unfolding plan' using mk by auto
  have few: "count_list plan r < F" if "minRelays > 1" "F > 1" for r
  proof (cases "r \<in> set plan")
    case True
    then obtain j where "j < k" "r = act ! j" using sub by auto
    then show ?thesis using cnt spread_count_bound [of k F j] k(3) that by simp
  qed (use that in \<open>simp add: count_list_0_iff [THEN iffD2]\<close>)
  have "(!) act ` {..<k} \<subseteq> set act" using k(2) by (auto intro: nth_mem)
  then show ?thesis
    using cnt few sub act unfolding Let_def F_def [symmetric] k_def [symmetric] act_def [symmetric]
    by (simp add: plan' subset_iff)
qed

theorem spread_plan_balanced_witness:
  "count_list (projr (SpreadPlan 3 2 [sample_relay ''a'' ''x'' 5, sample_relay ''b'' ''y'' 3]))
     (sample_relay ''b'' ''y'' 3) < 3"
proof -
  let ?ps = "[sample_relay ''a'' ''x'' 5, sample_relay ''b'' ''y'' 3]"
  have plan: "SpreadPlan 3 2 ?ps = Inr [sample_relay ''b'' ''y'' 3, sample_relay ''a'' ''x'' 5, sample_relay ''b'' ''y'' 3]"
    by code_simp
  have "distinct (map pnID ?ps)" by (simp add: sample_relay_def)
  from spread_plan_balanced [OF plan this, unfolded Let_def, THEN conjunct2, THEN conjunct2, THEN conjunct2]
  show ?thesis unfolding plan by (simp del: count_list.simps)
qed



end
