(* ===== verification/Resource.thy ===== *)
theory Resource
  imports Message
begin

text \<open>
  Resources, \<^verbatim>\<open>internal/link/resource.go\<close>: the reliable transfer of a payload over a link, with
  numbered parts, a sliding window, selective acknowledgements, retransmission on timeout and a hash
  over the whole payload.

  Sender and receiver are records; every operation returns the new record and the frames it hands to
  \<^verbatim>\<open>send\<close>, in order. The random resource id, SHA-256, the clock and the iteration order of a Go map
  are arguments. The \<^verbatim>\<open>done\<close> channel is the list of the values in its buffer. The goroutines (the
  ticker, the callers of \<^verbatim>\<open>Feed\<close> and \<^verbatim>\<open>Wait\<close>) are the steps of \<open>res_step\<close>, each of which runs under the
  mutex of its side; the link between the two sides may lose, repeat and reorder frames.
\<close>

section \<open>Frames\<close>

definition resTagAdv :: byte where "resTagAdv = 1"
definition resTagPart :: byte where "resTagPart = 2"
definition resTagAck :: byte where "resTagAck = 3"
definition resTagDone :: byte where "resTagDone = 4"
definition resIDLen :: nat where "resIDLen = 16"
definition maxResourceParts :: int where "maxResourceParts = 2 ^ 16"
definition maxResourcePartSize :: int where "maxResourcePartSize = 2 ^ 20"
definition maxResourceBytes :: int where "maxResourceBytes = 256 * 2 ^ 20"
definition resHdrAdv :: nat where "resHdrAdv = 1 + resIDLen + 4 + 4 + 32"
definition defaultResWindow :: nat where "defaultResWindow = 32"
definition defaultResRTO :: int where "defaultResRTO = 250 * 1000000"
definition maxAckBitmapBytes :: nat where "maxAckBitmapBytes = 32"
definition finishedTTL :: int where "finishedTTL = 2 * 60 * 1000000000"
definition maxFinished :: nat where "maxFinished = 1024"

definition encodeAdv :: "bytes \<Rightarrow> u32 \<Rightarrow> u32 \<Rightarrow> bytes \<Rightarrow> bytes" where
  "encodeAdv i tot partSize whole = [resTagAdv] @ i @ put_u32 tot @ put_u32 partSize @ whole"

definition encodePart :: "bytes \<Rightarrow> u32 \<Rightarrow> bytes \<Rightarrow> bytes" where
  "encodePart i index data = [resTagPart] @ i @ put_u32 index @ data"

definition encodeAck :: "bytes \<Rightarrow> u32 \<Rightarrow> bytes \<Rightarrow> bytes" where
  "encodeAck i base bitmap = [resTagAck] @ i @ put_u32 base @ [word_of_nat (length bitmap)] @ bitmap"

definition encodeDone :: "bytes \<Rightarrow> bytes" where
  "encodeDone i = [resTagDone] @ i"

definition frameID :: "bytes \<Rightarrow> bytes" where
  "frameID b = take resIDLen (drop 1 b)"

text \<open>The 32-bit field at an offset.\<close>

definition u32_at :: "nat \<Rightarrow> bytes \<Rightarrow> nat" where
  "u32_at off b = unat (get_u32 (take 4 (drop off b)))"

section \<open>Sender\<close>

datatype res_error = ErrPartSize | ErrSendTimedOut

record resSender =
  rsId :: bytes
  rsParts :: "bytes list"
  rsWhole :: bytes
  rsWindow :: nat
  rsRto :: int
  rsBase :: nat
  rsAcked :: "bool list"
  rsSentAt :: "int list"
  rsSentHigh :: nat
  rsFinished :: bool
  rsDone :: "res_error option list"

function part_loop :: "nat \<Rightarrow> bytes \<Rightarrow> nat \<Rightarrow> bytes list" where
  "part_loop partSize data off =
     (if off < length data \<and> 0 < partSize
      then (let e = off + partSize; e = (if e > length data then length data else e)
            in take (e - off) (drop off data) # part_loop partSize data (off + partSize))
      else [])"
  by pat_completeness auto
termination by (relation "measure (\<lambda>(p, d, off). length d - off)") auto

definition NewResourceSender ::
  "(bytes \<Rightarrow> bytes) \<Rightarrow> bytes \<Rightarrow> bytes \<Rightarrow> int \<Rightarrow> int \<Rightarrow> int \<Rightarrow> res_error + resSender" where
  "NewResourceSender sha256 rid data partSize window rto =
     (if partSize \<le> 0 then Inl ErrPartSize
      else let window = (if window \<le> 0 then defaultResWindow else nat window);
               rto = (if rto \<le> 0 then defaultResRTO else rto);
               parts = part_loop (nat partSize) data 0;
               parts = (if length parts = 0 then [[]] else parts)
           in Inr \<lparr>rsId = rid, rsParts = parts, rsWhole = sha256 data, rsWindow = window, rsRto = rto,
                   rsBase = 0, rsAcked = replicate (length parts) False,
                   rsSentAt = replicate (length parts) 0, rsSentHigh = 0, rsFinished = False, rsDone = []\<rparr>)"

definition maxPartLen :: "bytes list \<Rightarrow> nat" where
  "maxPartLen parts = foldl (\<lambda>m p. if length p > m then length p else m) 0 parts"

definition res_finish :: "res_error option \<Rightarrow> resSender \<Rightarrow> resSender" where
  "res_finish err s = (if rsFinished s then s else s\<lparr>rsFinished := True, rsDone := rsDone s @ [err]\<rparr>)"

fun fill_loop :: "int \<Rightarrow> nat list \<Rightarrow> resSender \<Rightarrow> resSender \<times> bytes list" where
  "fill_loop now [] s = (s, [])"
| "fill_loop now (i # js) s =
     (let f = encodePart (rsId s) (word_of_nat i) (rsParts s ! i);
          (s, out) = fill_loop now js (s\<lparr>rsSentAt := (rsSentAt s)[i := now]\<rparr>)
      in (s, f # out))"

definition fillWindowLocked :: "int \<Rightarrow> resSender \<Rightarrow> resSender \<times> bytes list" where
  "fillWindowLocked now s =
     (let limit = rsBase s + rsWindow s;
          limit = (if limit > length (rsParts s) then length (rsParts s) else limit);
          (s, out) = fill_loop now [rsSentHigh s..<limit] s
      in (if limit > rsSentHigh s then s\<lparr>rsSentHigh := limit\<rparr> else s, out))"

fun due_loop :: "int \<Rightarrow> nat list \<Rightarrow> resSender \<Rightarrow> resSender \<times> bytes list" where
  "due_loop now [] s = (s, [])"
| "due_loop now (i # js) s =
     (if \<not> rsAcked s ! i \<and> now - rsSentAt s ! i \<ge> rsRto s
      then (let f = encodePart (rsId s) (word_of_nat i) (rsParts s ! i);
                (s, out) = due_loop now js (s\<lparr>rsSentAt := (rsSentAt s)[i := now]\<rparr>)
            in (s, f # out))
      else due_loop now js s)"

definition dueRetransmitsLocked :: "int \<Rightarrow> resSender \<Rightarrow> resSender \<times> bytes list" where
  "dueRetransmitsLocked now s =
     (let limit = rsBase s + rsWindow s;
          limit = (if limit > rsSentHigh s then rsSentHigh s else limit)
      in due_loop now [rsBase s..<limit] s)"

definition res_Start :: "int \<Rightarrow> resSender \<Rightarrow> resSender \<times> bytes list" where
  "res_Start now s =
     (let adv = encodeAdv (rsId s) (u32_len (rsParts s)) (word_of_nat (maxPartLen (rsParts s))) (rsWhole s);
          (s, frames) = fillWindowLocked now s
      in (s, adv # frames))"

text \<open>One tick of \<^verbatim>\<open>retransmitLoop\<close>; the clock is read again when the window is filled.\<close>

definition retransmit_tick :: "int \<Rightarrow> int \<Rightarrow> resSender \<Rightarrow> resSender \<times> bytes list" where
  "retransmit_tick now now' s =
     (let (s, frames) = dueRetransmitsLocked now s;
          (s, more) = fillWindowLocked now' s
      in (s, frames @ more))"

text \<open>\<^verbatim>\<open>Wait\<close>, at the moment it returns: the value of \<^verbatim>\<open>done\<close>, or a timeout; None is a \<^verbatim>\<open>Wait\<close> that blocks
  because an earlier one has already taken the value.\<close>

definition res_Wait :: "resSender \<Rightarrow> (res_error option \<times> resSender) option" where
  "res_Wait s =
     (let s = (if rsDone s = [] then res_finish (Some ErrSendTimedOut) s else s) in
      case rsDone s of [] \<Rightarrow> None | e # es \<Rightarrow> Some (e, s\<lparr>rsDone := es\<rparr>))"

definition bit_set_at :: "bytes \<Rightarrow> nat \<Rightarrow> bool" where
  "bit_set_at bitmap i \<longleftrightarrow> (bitmap ! (i div 8)) AND push_bit (i mod 8) 1 \<noteq> 0"

definition ack_below :: "nat \<Rightarrow> bool list \<Rightarrow> bool list" where
  "ack_below base acked = foldl (\<lambda>a i. a[i := True]) acked [0..<min base (length acked)]"

definition ack_selective :: "nat \<Rightarrow> bytes \<Rightarrow> bool list \<Rightarrow> bool list" where
  "ack_selective base bitmap acked =
     foldl (\<lambda>a i. if bit_set_at bitmap i \<and> base + i < length a then a[base + i := True] else a)
       acked [0..<length bitmap * 8]"

definition onAck :: "int \<Rightarrow> resSender \<Rightarrow> bytes \<Rightarrow> resSender \<times> bytes list" where
  "onAck now s frame =
     (if length frame < 1 + resIDLen + 4 + 1 then (s, [])
      else let base = u32_at (1 + resIDLen) frame;
               bmLen = unat (frame ! (1 + resIDLen + 4))
           in if length frame < 1 + resIDLen + 5 + bmLen then (s, [])
              else let bitmap = take bmLen (drop (1 + resIDLen + 5) frame);
                       s = s\<lparr>rsAcked := ack_below base (rsAcked s)\<rparr>;
                       s = (if base > rsBase s then s\<lparr>rsBase := base\<rparr> else s);
                       s = s\<lparr>rsAcked := ack_selective base bitmap (rsAcked s)\<rparr>
                   in if rsBase s \<ge> length (rsParts s) then (res_finish None s, [])
                      else fillWindowLocked now s)"

definition sender_Feed :: "int \<Rightarrow> resSender \<Rightarrow> bytes \<Rightarrow> resSender \<times> bytes list" where
  "sender_Feed now s frame =
     (if length frame < 1 + resIDLen \<or> frameID frame \<noteq> rsId s then (s, [])
      else if frame ! 0 = resTagAck then onAck now s frame
      else if frame ! 0 = resTagDone then (res_finish None s, [])
      else (s, []))"

section \<open>Receiver\<close>

record recvState =
  rvTotal :: nat
  rvWhole :: bytes
  rvParts :: "bytes list"
  rvGot :: "bool list"
  rvCount :: nat
  rvBase :: nat
  rvComplete :: bool

record resReceiver =
  rrByID :: "(bytes, recvState) gomap"
  rrFinished :: "(bytes, int) gomap"
  rrLimit :: nat

definition NewResourceReceiver :: resReceiver where
  "NewResourceReceiver = \<lparr>rrByID = [], rrFinished = [], rrLimit = maxInflightMessages\<rparr>"

definition onAdv :: "resReceiver \<Rightarrow> bytes \<Rightarrow> resReceiver" where
  "onAdv r frame =
     (if length frame < resHdrAdv then r
      else let i = frameID frame;
               tot = u32_at (1 + resIDLen) frame;
               partSize = u32_at (1 + resIDLen + 4) frame
           in if tot \<le> 0 \<or> int tot > maxResourceParts then r
              else if int partSize > maxResourcePartSize then r
              else if partSize > 0 \<and> int tot > maxResourceBytes div int partSize then r
              else let whole = take 32 (drop (1 + resIDLen + 8) frame) in
                case gget (rrByID r) i of
                  Some _ \<Rightarrow> r
                | None \<Rightarrow>
                    if length (rrByID r) \<ge> rrLimit r then r
                    else r\<lparr>rrByID := gput i \<lparr>rvTotal = tot, rvWhole = whole, rvParts = replicate tot [],
                             rvGot = replicate tot False, rvCount = 0, rvBase = 0, rvComplete = False\<rparr> (rrByID r)\<rparr>)"

function advance_base :: "nat \<Rightarrow> bool list \<Rightarrow> nat \<Rightarrow> nat" where
  "advance_base tot got base = (if base < tot \<and> got ! base then advance_base tot got (base + 1) else base)"
  by pat_completeness auto
termination by (relation "measure (\<lambda>(t, g, b). t - b)") auto

fun bitmap_loop :: "recvState \<Rightarrow> nat list \<Rightarrow> bytes \<Rightarrow> bytes" where
  "bitmap_loop st [] bm = bm"
| "bitmap_loop st (i # js) bm =
     (let idx = rvBase st + i in
      if idx \<ge> rvTotal st then bm
      else bitmap_loop st js
             (if rvGot st ! idx then bm[i div 8 := bm ! (i div 8) OR push_bit (i mod 8) 1] else bm))"

definition trim_zeros :: "bytes \<Rightarrow> bytes" where
  "trim_zeros bm = rev (dropWhile (\<lambda>b. b = 0) (rev bm))"

definition ackBitmapLocked :: "recvState \<Rightarrow> bytes" where
  "ackBitmapLocked st =
     (let span = int (rvTotal st) - int (rvBase st) in
      if span \<le> 0 then []
      else let nbytes = (nat span + 7) div 8;
               nbytes = (if nbytes > maxAckBitmapBytes then maxAckBitmapBytes else nbytes)
           in trim_zeros (bitmap_loop st [0..<nbytes * 8] (replicate nbytes 0)))"

definition assembleLocked :: "recvState \<Rightarrow> bytes" where
  "assembleLocked st = foldl (@) [] (rvParts st)"

fun drop_arbitrary :: "bytes list \<Rightarrow> (bytes, int) gomap \<Rightarrow> (bytes, int) gomap" where
  "drop_arbitrary [] m = m"
| "drop_arbitrary (k # ks) m = (if length m < maxFinished then m else drop_arbitrary ks (gdel k m))"

definition rememberFinishedLocked ::
  "((bytes \<times> int) list \<Rightarrow> (bytes \<times> int) list) \<Rightarrow> int \<Rightarrow> bytes \<Rightarrow> (bytes, int) gomap \<Rightarrow> (bytes, int) gomap" where
  "rememberFinishedLocked iter now i m =
     (let m = (if length m \<ge> maxFinished
               then let m = filter (\<lambda>e. \<not> now - snd e \<ge> finishedTTL) m
                    in drop_arbitrary (map fst (iter m)) m
               else m)
      in gput i now m)"

text \<open>A part that was not received yet is stored, and the base moves over the parts received in order.\<close>

definition recv_store :: "recvState \<Rightarrow> nat \<Rightarrow> bytes \<Rightarrow> recvState" where
  "recv_store st idx data =
     (if rvGot st ! idx then st
      else let got = (rvGot st)[idx := True]
           in st\<lparr>rvGot := got, rvParts := (rvParts st)[idx := data], rvCount := rvCount st + 1,
                 rvBase := advance_base (rvTotal st) got (rvBase st)\<rparr>)"

text \<open>The result: the receiver, the frames sent, and the calls of \<^verbatim>\<open>onComplete\<close>.\<close>

definition onPart ::
  "(bytes \<Rightarrow> bytes) \<Rightarrow> ((bytes \<times> int) list \<Rightarrow> (bytes \<times> int) list) \<Rightarrow> int \<Rightarrow> resReceiver \<Rightarrow> bytes \<Rightarrow>
   resReceiver \<times> bytes list \<times> (bytes \<times> bytes) list" where
  "onPart sha256 iter now r frame =
     (if length frame < 1 + resIDLen + 4 then (r, [], [])
      else let i = frameID frame;
               idx = u32_at (1 + resIDLen) frame;
               data = drop (1 + resIDLen + 4) frame
           in case gget (rrByID r) i of
                None \<Rightarrow> (r, if gget (rrFinished r) i \<noteq> None then [encodeDone i] else [], [])
              | Some st \<Rightarrow>
                  if idx \<ge> rvTotal st then (r, [], [])
                  else let st = recv_store st idx data;
                           ackFrame = encodeAck i (word_of_nat (rvBase st)) (ackBitmapLocked st);
                           assembled = assembleLocked st
                       in if rvCount st = rvTotal st \<and> \<not> rvComplete st \<and> sha256 assembled = rvWhole st
                          then (r\<lparr>rrByID := gdel i (rrByID r),
                                  rrFinished := rememberFinishedLocked iter now i (rrFinished r)\<rparr>,
                                [ackFrame, encodeDone i], [(i, assembled)])
                          else (r\<lparr>rrByID := gput i st (rrByID r)\<rparr>, [ackFrame], []))"

definition receiver_Feed ::
  "(bytes \<Rightarrow> bytes) \<Rightarrow> ((bytes \<times> int) list \<Rightarrow> (bytes \<times> int) list) \<Rightarrow> int \<Rightarrow> resReceiver \<Rightarrow> bytes \<Rightarrow>
   resReceiver \<times> bytes list \<times> (bytes \<times> bytes) list" where
  "receiver_Feed sha256 iter now r frame =
     (if length frame < 1 + resIDLen then (r, [], [])
      else if frame ! 0 = resTagAdv then (onAdv r frame, [], [])
      else if frame ! 0 = resTagPart then onPart sha256 iter now r frame
      else (r, [], []))"

section \<open>Both sides over a link that may lose, repeat and reorder frames\<close>

record res_sys =
  sysS :: resSender
  sysR :: resReceiver
  sysToR :: "bytes set"
  sysToS :: "bytes set"
  sysDelivered :: "(bytes \<times> bytes) list"

text \<open>
  A frame that was sent stays available, so it may arrive any number of times, at any time, or never.
  \<open>Foreign\<close> is a frame of another resource that shares the link.
\<close>

inductive res_step :: "(bytes \<Rightarrow> bytes) \<Rightarrow> ((bytes \<times> int) list \<Rightarrow> (bytes \<times> int) list) \<Rightarrow> res_sys \<Rightarrow> res_sys \<Rightarrow> bool"
  for sha256 iter where
  Start: "res_Start now (sysS y) = (s, fs) \<Longrightarrow>
    res_step sha256 iter y (y\<lparr>sysS := s, sysToR := sysToR y \<union> set fs\<rparr>)"
| Tick: "retransmit_tick now now' (sysS y) = (s, fs) \<Longrightarrow>
    res_step sha256 iter y (y\<lparr>sysS := s, sysToR := sysToR y \<union> set fs\<rparr>)"
| Waits: "res_Wait (sysS y) = Some (e, s) \<Longrightarrow> res_step sha256 iter y (y\<lparr>sysS := s\<rparr>)"
| ToSender: "f \<in> sysToS y \<Longrightarrow> sender_Feed now (sysS y) f = (s, fs) \<Longrightarrow>
    res_step sha256 iter y (y\<lparr>sysS := s, sysToR := sysToR y \<union> set fs\<rparr>)"
| ToReceiver: "f \<in> sysToR y \<Longrightarrow> receiver_Feed sha256 iter now (sysR y) f = (r, fs, ds) \<Longrightarrow>
    res_step sha256 iter y (y\<lparr>sysR := r, sysToS := sysToS y \<union> set fs, sysDelivered := sysDelivered y @ ds\<rparr>)"
| Foreign: "frameID f \<noteq> rsId (sysS y) \<Longrightarrow> receiver_Feed sha256 iter now (sysR y) f = (r, fs, ds) \<Longrightarrow>
    res_step sha256 iter y (y\<lparr>sysR := r, sysToS := sysToS y \<union> set fs, sysDelivered := sysDelivered y @ ds\<rparr>)"

definition res_init :: "resSender \<Rightarrow> resReceiver \<Rightarrow> res_sys" where
  "res_init s r = \<lparr>sysS = s, sysR = r, sysToR = {}, sysToS = {}, sysDelivered = []\<rparr>"

section \<open>Frames and bitmaps\<close>

lemmas res_consts = resIDLen_def resHdrAdv_def resTagAdv_def resTagPart_def resTagAck_def resTagDone_def

declare part_loop.simps [simp del] advance_base.simps [simp del]

lemma length_encode [simp]:
  "length (encodeAdv i t p w) = 9 + length i + length w"
  "length (encodePart i k d) = 5 + length i + length d"
  "length (encodeAck i b bm) = 6 + length i + length bm"
  "length (encodeDone i) = 1 + length i"
  by (simp_all add: encodeAdv_def encodePart_def encodeAck_def encodeDone_def)

lemma tag_encode [simp]:
  "encodeAdv i t p w ! 0 = resTagAdv" "encodePart i k d ! 0 = resTagPart"
  "encodeAck i b bm ! 0 = resTagAck" "encodeDone i ! 0 = resTagDone"
  by (simp_all add: encodeAdv_def encodePart_def encodeAck_def encodeDone_def)

lemma frameID_encode [simp]:
  assumes "length i = 16"
  shows "frameID (encodeAdv i t p w) = i" "frameID (encodePart i k d) = i"
    "frameID (encodeAck i b bm) = i" "frameID (encodeDone i) = i"
  using assms
  by (simp_all add: encodeAdv_def encodePart_def encodeAck_def encodeDone_def frameID_def res_consts)

lemma length_frameID: "17 \<le> length f \<Longrightarrow> length (frameID f) = 16"
  by (simp add: frameID_def res_consts)

lemma encode_distinct [simp]:
  "encodeAdv i t p w \<noteq> encodePart i' k d" "encodePart i' k d \<noteq> encodeAdv i t p w"
  "encodeAck i b bm \<noteq> encodeDone i'" "encodeDone i' \<noteq> encodeAck i b bm"
  by (simp_all add: encodeAdv_def encodePart_def encodeAck_def encodeDone_def res_consts)

lemma encodeAck_inject:
  assumes "length i = 16"
  shows "encodeAck i b bm = encodeAck i b' bm' \<longleftrightarrow> b = b' \<and> bm = bm'"
  by (auto simp: encodeAck_def wire_inj)

lemma bit_set_at_iff: "bit_set_at bm i \<longleftrightarrow> bit (bm ! (i div 8)) (i mod 8)"
  by (simp add: bit_set_at_def bit_iff_and_push_bit_not_eq_0)

definition marks :: "bytes \<Rightarrow> nat \<Rightarrow> bool" where
  "marks bm k \<longleftrightarrow> k < length bm * 8 \<and> bit_set_at bm k"

lemma marks_update:
  assumes "marks (bm[i div 8 := bm ! (i div 8) OR push_bit (i mod 8) 1]) k"
  shows "marks bm k \<or> k = i"
proof (cases "k div 8 = i div 8")
  case True
  have "k div 8 < length bm" using assms by (auto simp: marks_def)
  moreover have "k = i" if "k mod 8 = i mod 8" using True that by (metis mult_div_mod_eq)
  ultimately show ?thesis
    using assms True by (auto simp: marks_def bit_set_at_iff bit_or_iff bit_exp_iff)
next
  case False
  then show ?thesis using assms by (auto simp: marks_def bit_set_at_iff nth_list_update)
qed

lemma bitmap_loop_marks:
  assumes "marks (bitmap_loop st js bm) k"
  shows "marks bm k \<or> rvBase st + k < rvTotal st \<and> rvGot st ! (rvBase st + k)"
  using assms
proof (induction js arbitrary: bm)
  case (Cons i js)
  show ?case
  proof (cases "rvBase st + i \<ge> rvTotal st")
    case False
    let ?new = "if rvGot st ! (rvBase st + i) then bm[i div 8 := bm ! (i div 8) OR push_bit (i mod 8) 1] else bm"
    have "marks (bitmap_loop st js ?new) k" using Cons.prems False by (simp only: bitmap_loop.simps Let_def if_False)
    from Cons.IH [OF this] have "marks ?new k \<or> rvBase st + k < rvTotal st \<and> rvGot st ! (rvBase st + k)" .
    moreover have "marks bm k \<or> k = i \<and> rvGot st ! (rvBase st + i)" if "marks ?new k"
      using that marks_update [of bm i k] by (cases "rvGot st ! (rvBase st + i)") (simp_all only: if_True if_False simp_thms)
    ultimately show ?thesis using False by auto
  qed (use Cons.prems in simp)
qed simp

lemma length_bitmap_loop [simp]: "length (bitmap_loop st js bm) = length bm"
  by (induction js arbitrary: bm) (simp_all add: Let_def)

lemma trim_zeros_prefix: "\<exists>zs. bm = trim_zeros bm @ zs"
proof -
  have "bm = rev (takeWhile (\<lambda>b. b = 0) (rev bm) @ dropWhile (\<lambda>b. b = 0) (rev bm))" by simp
  then have "bm = trim_zeros bm @ rev (takeWhile (\<lambda>b. b = 0) (rev bm))"
    unfolding trim_zeros_def by (simp only: rev_append)
  then show ?thesis by (rule exI)
qed

lemma trim_zeros_marks:
  assumes "marks (trim_zeros bm) k"
  shows "marks bm k"
proof -
  obtain zs where zs: "bm = trim_zeros bm @ zs" using trim_zeros_prefix by (rule exE)
  have "k div 8 < length (trim_zeros bm)" using assms by (auto simp: marks_def)
  then have "bm ! (k div 8) = trim_zeros bm ! (k div 8)" using arg_cong [OF zs, of "\<lambda>b. b ! (k div 8)"]
    by (simp add: nth_append)
  moreover have "length (trim_zeros bm) \<le> length bm" using arg_cong [OF zs, of length] by simp
  ultimately show ?thesis using assms by (auto simp: marks_def bit_set_at_iff)
qed

lemma not_marks_zeros: "\<not> marks (replicate n 0) k"
  by (auto simp: marks_def bit_set_at_iff)

lemma ackBitmap_cases:
  obtains "ackBitmapLocked st = []"
  | n where "n \<le> 32" "ackBitmapLocked st = trim_zeros (bitmap_loop st [0..<n * 8] (replicate n 0))"
proof (cases "int (rvTotal st) - int (rvBase st) \<le> 0")
  case True
  then have "ackBitmapLocked st = []" by (simp add: ackBitmapLocked_def)
  then show ?thesis by (rule that)
next
  case False
  let ?n = "(nat (int (rvTotal st) - int (rvBase st)) + 7) div 8"
  let ?m = "if ?n > maxAckBitmapBytes then maxAckBitmapBytes else ?n"
  have "ackBitmapLocked st = trim_zeros (bitmap_loop st [0..<?m * 8] (replicate ?m 0))"
    using False by (simp only: ackBitmapLocked_def Let_def if_False)
  moreover have "?m \<le> 32" by (simp add: maxAckBitmapBytes_def)
  ultimately show ?thesis by (intro that(2))
qed

lemma ackBitmap_marks:
  assumes "marks (ackBitmapLocked st) k"
  shows "rvBase st + k < rvTotal st \<and> rvGot st ! (rvBase st + k)"
proof (cases st rule: ackBitmap_cases)
  case 1
  then show ?thesis using assms by (simp add: marks_def)
next
  case (2 n)
  then have "marks (bitmap_loop st [0..<n * 8] (replicate n 0)) k" using assms trim_zeros_marks by simp
  from bitmap_loop_marks [OF this] show ?thesis by (simp add: not_marks_zeros)
qed

lemma length_ackBitmap: "length (ackBitmapLocked st) \<le> 32"
proof (cases st rule: ackBitmap_cases)
  case (2 n)
  obtain zs where "bitmap_loop st [0..<n * 8] (replicate n 0) =
      trim_zeros (bitmap_loop st [0..<n * 8] (replicate n 0)) @ zs"
    using trim_zeros_prefix by (rule exE)
  from arg_cong [OF this, of length] show ?thesis using 2 by simp
qed simp

lemma advance_base_props:
  "b \<le> advance_base n got b" "b \<le> n \<Longrightarrow> advance_base n got b \<le> n"
  "\<lbrakk>b \<le> k; k < advance_base n got b\<rbrakk> \<Longrightarrow> got ! k"
  "advance_base n got b < n \<Longrightarrow> \<not> got ! advance_base n got b"
proof (induction n got b rule: advance_base.induct)
  case (1 n got b)
  have step: "advance_base n got b = (if b < n \<and> got ! b then advance_base n got (b + 1) else b)"
    by (rule advance_base.simps)
  { case 1 show ?case using "1.IH" step by (auto intro: Suc_leD) }
  { case 2 then show ?case using "1.IH" step by auto }
  { case 3 then show ?case using "1.IH"(3) step by (cases "b = k") (auto split: if_splits) }
  { case 4 then show ?case using "1.IH"(4) step by (auto split: if_splits) }
qed

lemma ack_below_nth:
  "length (ack_below b a) = length a \<and> (\<forall>k < length a. ack_below b a ! k \<longleftrightarrow> k < b \<or> a ! k)"
proof -
  have "length (foldl (\<lambda>a i. a[i := True]) a [0..<m]) = length a \<and>
      (\<forall>k < length a. foldl (\<lambda>a i. a[i := True]) a [0..<m] ! k \<longleftrightarrow> k < m \<or> a ! k)" for m
  proof (induction m)
    case (Suc m)
    have "xs[m := True] ! k \<longleftrightarrow> k = m \<or> xs ! k" if "k < length xs" for xs k
      using that by (cases "k = m") auto
    then show ?case using Suc by (auto simp: less_Suc_eq)
  qed simp
  from this [of "min b (length a)"] show ?thesis by (auto simp: ack_below_def)
qed

lemma ack_selective_nth:
  "length (ack_selective b bm a) = length a \<and>
   (\<forall>k < length a. ack_selective b bm a ! k \<longleftrightarrow> a ! k \<or> b \<le> k \<and> marks bm (k - b))"
proof -
  let ?F = "\<lambda>m. foldl (\<lambda>a i. if bit_set_at bm i \<and> b + i < length a then a[b + i := True] else a) a [0..<m]"
  have "length (?F m) = length a \<and> (\<forall>k < length a. ?F m ! k \<longleftrightarrow> a ! k \<or> b \<le> k \<and> k - b < m \<and> bit_set_at bm (k - b))" for m
  proof (induction m)
    case (Suc m)
    have "k - b < Suc m \<longleftrightarrow> k - b < m \<or> k = b + m" if "b \<le> k" for k using that by auto
    then show ?case using Suc by (auto simp: nth_list_update)
  qed simp
  from this [of "length bm * 8"] show ?thesis by (auto simp: ack_selective_def marks_def)
qed

section \<open>What the operations send and store\<close>

definition part_frame :: "bytes \<Rightarrow> bytes list \<Rightarrow> nat \<Rightarrow> bytes" where
  "part_frame rid P k = encodePart rid (word_of_nat k) (P ! k)"

lemma set_times_nth:
  "length (foldl (\<lambda>a i. a[i := t]) a js) = length a \<and>
   (\<forall>k < length a. foldl (\<lambda>a i. a[i := t]) a js ! k \<in> {a ! k, t})"
proof (induction js arbitrary: a)
  case (Cons j js)
  have "a[j := t] ! k \<in> {a ! k, t}" if "k < length a" for k using that by (cases "k = j") auto
  then show ?case using Cons.IH [of "a[j := t]"] by fastforce
qed simp

lemma fill_loop_eq:
  "fill_loop now js s = (s\<lparr>rsSentAt := foldl (\<lambda>a i. a[i := now]) (rsSentAt s) js\<rparr>, map (part_frame (rsId s) (rsParts s)) js)"
  by (induction js arbitrary: s) (simp_all add: part_frame_def)

lemma fillWindow_props:
  assumes "fillWindowLocked now s = (s', fs)"
  shows "\<exists>a. s' = s\<lparr>rsSentAt := a, rsSentHigh := max (rsSentHigh s) (min (rsBase s + rsWindow s) (length (rsParts s)))\<rparr> \<and>
     length a = length (rsSentAt s) \<and> (\<forall>k < length a. a ! k \<in> {rsSentAt s ! k, now}) \<and>
     set fs = part_frame (rsId s) (rsParts s) ` {rsSentHigh s..<min (rsBase s + rsWindow s) (length (rsParts s))}"
proof -
  let ?lim = "min (rsBase s + rsWindow s) (length (rsParts s))"
  let ?a = "foldl (\<lambda>a i. a[i := now]) (rsSentAt s) [rsSentHigh s..<?lim]"
  have lim: "(if rsBase s + rsWindow s > length (rsParts s) then length (rsParts s) else rsBase s + rsWindow s) = ?lim"
    by simp
  have s': "s' = (if ?lim > rsSentHigh s then s\<lparr>rsSentAt := ?a, rsSentHigh := ?lim\<rparr> else s\<lparr>rsSentAt := ?a\<rparr>)"
    and fs: "fs = map (part_frame (rsId s) (rsParts s)) [rsSentHigh s..<?lim]"
    using assms unfolding fillWindowLocked_def Let_def lim fill_loop_eq by auto
  have "s' = s\<lparr>rsSentAt := ?a, rsSentHigh := max (rsSentHigh s) ?lim\<rparr>"
    unfolding s' by (cases s) (simp add: max_def min_def)
  moreover have "length ?a = length (rsSentAt s) \<and> (\<forall>k < length (rsSentAt s). ?a ! k \<in> {rsSentAt s ! k, now})"
    by (rule set_times_nth)
  ultimately show ?thesis unfolding fs by (intro exI [of _ ?a]) simp
qed

lemma due_loop_props:
  assumes "due_loop now js s = (s', fs)" "distinct js"
  shows "\<exists>a. s' = s\<lparr>rsSentAt := a\<rparr> \<and> length a = length (rsSentAt s) \<and>
     (\<forall>k < length a. a ! k \<in> {rsSentAt s ! k, now}) \<and>
     set fs = part_frame (rsId s) (rsParts s) ` {k \<in> set js. \<not> rsAcked s ! k \<and> now - rsSentAt s ! k \<ge> rsRto s}"
  using assms
proof (induction js arbitrary: s fs)
  case (Cons i js)
  show ?case
  proof (cases "\<not> rsAcked s ! i \<and> now - rsSentAt s ! i \<ge> rsRto s")
    case True
    let ?s = "s\<lparr>rsSentAt := (rsSentAt s)[i := now]\<rparr>"
    obtain out where out: "due_loop now js ?s = (s', out)" "fs = part_frame (rsId s) (rsParts s) i # out"
      using Cons.prems(1) True by (auto simp: part_frame_def Let_def split: prod.splits)
    from Cons.IH [OF out(1)] Cons.prems(2) obtain a where a: "s' = ?s\<lparr>rsSentAt := a\<rparr>"
      "length a = length (rsSentAt ?s)" "\<forall>k < length a. a ! k \<in> {rsSentAt ?s ! k, now}"
      "set out = part_frame (rsId ?s) (rsParts ?s) ` {k \<in> set js. \<not> rsAcked ?s ! k \<and> now - rsSentAt ?s ! k \<ge> rsRto ?s}"
      by auto
    have ne: "(rsSentAt s)[i := now] ! k = rsSentAt s ! k" if "k \<in> set js" for k
      using Cons.prems(2) that by (intro nth_list_update_neq) auto
    have "{k \<in> set (i # js). \<not> rsAcked s ! k \<and> now - rsSentAt s ! k \<ge> rsRto s} =
        insert i {k \<in> set js. \<not> rsAcked ?s ! k \<and> now - rsSentAt ?s ! k \<ge> rsRto ?s}"
      using True by (auto simp: ne)
    moreover have "a ! k \<in> {rsSentAt s ! k, now}" if "k < length a" for k
      using a(2,3) that by (cases "k = i") auto
    ultimately show ?thesis using a(1,2,4) out(2) by (intro exI [of _ a]) simp
  next
    case False
    then have "{k \<in> set (i # js). \<not> rsAcked s ! k \<and> now - rsSentAt s ! k \<ge> rsRto s} =
        {k \<in> set js. \<not> rsAcked s ! k \<and> now - rsSentAt s ! k \<ge> rsRto s}" by auto
    then show ?thesis using Cons False by auto
  qed
next
  case Nil
  then show ?case by (intro exI [of _ "rsSentAt s"]) auto
qed

lemma tick_props:
  assumes "retransmit_tick now now' s = (s', fs)"
  shows "\<exists>a. s' = s\<lparr>rsSentAt := a, rsSentHigh := max (rsSentHigh s) (min (rsBase s + rsWindow s) (length (rsParts s)))\<rparr> \<and>
     length a = length (rsSentAt s) \<and> (\<forall>k < length a. a ! k \<in> {rsSentAt s ! k, now, now'}) \<and>
     set fs = part_frame (rsId s) (rsParts s) `
       ({k. rsBase s \<le> k \<and> k < min (rsBase s + rsWindow s) (rsSentHigh s) \<and> \<not> rsAcked s ! k \<and> now - rsSentAt s ! k \<ge> rsRto s}
        \<union> {rsSentHigh s..<min (rsBase s + rsWindow s) (length (rsParts s))})"
proof -
  obtain s1 f1 f2 where d: "dueRetransmitsLocked now s = (s1, f1)" "fillWindowLocked now' s1 = (s', f2)" "fs = f1 @ f2"
    using assms by (auto simp: retransmit_tick_def split: prod.splits)
  have "due_loop now [rsBase s..<min (rsBase s + rsWindow s) (rsSentHigh s)] s = (s1, f1)"
  proof -
    have "(if rsBase s + rsWindow s > rsSentHigh s then rsSentHigh s else rsBase s + rsWindow s) =
        min (rsBase s + rsWindow s) (rsSentHigh s)" by simp
    then show ?thesis using d(1) unfolding dueRetransmitsLocked_def Let_def by (simp only:)
  qed
  from due_loop_props [OF this] obtain a where a: "s1 = s\<lparr>rsSentAt := a\<rparr>" "length a = length (rsSentAt s)"
    "\<forall>k < length a. a ! k \<in> {rsSentAt s ! k, now}"
    "set f1 = part_frame (rsId s) (rsParts s) `
       {k \<in> set [rsBase s..<min (rsBase s + rsWindow s) (rsSentHigh s)]. \<not> rsAcked s ! k \<and> now - rsSentAt s ! k \<ge> rsRto s}"
    by auto
  from fillWindow_props [OF d(2)] obtain a' where b:
    "s' = s1\<lparr>rsSentAt := a', rsSentHigh := max (rsSentHigh s) (min (rsBase s + rsWindow s) (length (rsParts s)))\<rparr>"
    "length a' = length (rsSentAt s)" "\<forall>k < length a'. a' ! k \<in> {a ! k, now'}"
    "set f2 = part_frame (rsId s) (rsParts s) ` {rsSentHigh s..<min (rsBase s + rsWindow s) (length (rsParts s))}"
    using a(1,2) by auto
  have "a' ! k \<in> {rsSentAt s ! k, now, now'}" if "k < length a'" for k
    using a(2,3) b(2,3) that by fastforce
  moreover have "{k \<in> set [rsBase s..<min (rsBase s + rsWindow s) (rsSentHigh s)]. \<not> rsAcked s ! k \<and> now - rsSentAt s ! k \<ge> rsRto s}
      = {k. rsBase s \<le> k \<and> k < min (rsBase s + rsWindow s) (rsSentHigh s) \<and> \<not> rsAcked s ! k \<and> now - rsSentAt s ! k \<ge> rsRto s}"
    by auto
  ultimately show ?thesis using a(1,4) b(1,2,4) d(3) by (intro exI [of _ a']) (simp add: image_Un)
qed

lemma onAck_encodeAck:
  assumes "length (rsId s) = 16" "b < 2 ^ 32" "length bm \<le> 32"
  shows "onAck now s (encodeAck (rsId s) (word_of_nat b) bm) =
     (let s = s\<lparr>rsAcked := ack_selective b bm (ack_below b (rsAcked s)), rsBase := max (rsBase s) b\<rparr>
      in if rsBase s \<ge> length (rsParts s) then (res_finish None s, []) else fillWindowLocked now s)"
proof -
  let ?f = "encodeAck (rsId s) (word_of_nat b) bm"
  have d17: "drop 17 ?f = put_u32 (word_of_nat b) @ [word_of_nat (length bm)] @ bm"
    using assms(1) by (simp add: encodeAck_def)
  have d21: "drop 21 ?f = word_of_nat (length bm) # bm"
    using arg_cong [OF d17, of "drop 4"] by simp
  have u: "u32_at (1 + resIDLen) ?f = b"
    using assms(2) d17 by (simp add: u32_at_def res_consts)
  have "?f ! 21 = word_of_nat (length bm)"
    using hd_drop_conv_nth [of 21 ?f] d21 assms(1) by simp
  then have l: "unat (?f ! (1 + resIDLen + 4)) = length bm"
    using assms(3) by (simp add: res_consts unat_of_nat)
  have "drop (1 + resIDLen + 5) ?f = bm"
    using arg_cong [OF d21, of "drop 1"] by (simp add: res_consts)
  then have "take (length bm) (drop (1 + resIDLen + 5) ?f) = bm" by simp
  moreover have "\<not> length ?f < 1 + resIDLen + 4 + 1" "\<not> length ?f < 1 + resIDLen + 5 + length bm"
    using assms(1) by (simp_all add: res_consts)
  moreover have "(if b > rsBase s then s\<lparr>rsAcked := X, rsBase := b\<rparr> else s\<lparr>rsAcked := X\<rparr>) =
      s\<lparr>rsAcked := X, rsBase := max (rsBase s) b\<rparr>" for X by simp
  ultimately show ?thesis
    unfolding onAck_def by (simp only: u l Let_def if_False) (cases s; simp add: max_def)
qed

section \<open>The state of a resource at the receiver\<close>

definition st_ok :: "bytes list \<Rightarrow> bytes \<Rightarrow> recvState \<Rightarrow> bool" where
  "st_ok P whole st \<longleftrightarrow> rvTotal st = length P \<and> rvWhole st = whole \<and>
     length (rvParts st) = length P \<and> length (rvGot st) = length P \<and>
     (\<forall>k < length P. rvGot st ! k \<longrightarrow> rvParts st ! k = P ! k) \<and>
     rvCount st = card {k. k < length P \<and> rvGot st ! k} \<and>
     rvBase st \<le> length P \<and> (\<forall>k < rvBase st. rvGot st ! k) \<and>
     (rvBase st < length P \<longrightarrow> \<not> rvGot st ! rvBase st) \<and> \<not> rvComplete st"

lemma recv_store_ok:
  assumes "st_ok P whole st" "k < length P"
  shows "st_ok P whole (recv_store st k (P ! k)) \<and> rvBase st \<le> rvBase (recv_store st k (P ! k)) \<and>
    (\<forall>j < length P. rvGot st ! j \<longrightarrow> rvGot (recv_store st k (P ! k)) ! j) \<and> rvGot (recv_store st k (P ! k)) ! k"
proof (cases "rvGot st ! k")
  case True
  then show ?thesis using assms by (simp add: recv_store_def)
next
  case False
  let ?got = "(rvGot st)[k := True]"
  let ?b = "advance_base (length P) ?got (rvBase st)"
  have st: "recv_store st k (P ! k) = st\<lparr>rvGot := ?got, rvParts := (rvParts st)[k := P ! k],
      rvCount := rvCount st + 1, rvBase := ?b\<rparr>"
    using False assms(1) by (simp add: recv_store_def st_ok_def Let_def)
  have got: "?got ! j \<longleftrightarrow> j = k \<or> rvGot st ! j" if "j < length P" for j
    using that assms by (cases "j = k") (simp_all add: st_ok_def)
  have "{j. j < length P \<and> ?got ! j} = insert k {j. j < length P \<and> rvGot st ! j}"
    using got assms(2) by auto
  then have "card {j. j < length P \<and> ?got ! j} = rvCount st + 1"
    using False assms(1) by (simp add: st_ok_def)
  moreover have "\<forall>j < length P. ?got ! j \<longrightarrow> (rvParts st)[k := P ! k] ! j = P ! j"
    using got assms by (auto simp: st_ok_def nth_list_update)
  moreover have "rvBase st \<le> ?b" "?b \<le> length P" "?b < length P \<longrightarrow> \<not> ?got ! ?b"
    using advance_base_props(1,2,4) [where b = "rvBase st" and n = "length P" and got = ?got] assms(1) by (simp_all add: st_ok_def)
  moreover have "?got ! j" if "j < ?b" for j
  proof (cases "j < rvBase st")
    case True
    then show ?thesis using got [of j] assms(1) by (simp add: st_ok_def)
  next
    case False
    then show ?thesis using advance_base_props(3) [where b = "rvBase st" and n = "length P" and got = ?got and k = j] that by simp
  qed
  ultimately show ?thesis
    using got assms unfolding st by (simp add: st_ok_def)
qed

lemma st_ok_all:
  assumes "st_ok P whole st"
  shows "rvCount st = length P \<longleftrightarrow> rvBase st = length P"
    and "rvCount st = length P \<Longrightarrow> assembleLocked st = concat P"
    and "rvCount st \<le> length P"
proof -
  let ?G = "{k. k < length P \<and> rvGot st ! k}"
  have sub: "?G \<subseteq> {..<length P}" by auto
  have cnt: "rvCount st = card ?G" using assms by (simp add: st_ok_def)
  have all: "rvCount st = length P \<longleftrightarrow> (\<forall>k < length P. rvGot st ! k)"
  proof
    assume "rvCount st = length P"
    then have "?G = {..<length P}" using card_subset_eq [OF finite_lessThan sub] cnt by simp
    then show "\<forall>k < length P. rvGot st ! k" by auto
  next
    assume "\<forall>k < length P. rvGot st ! k"
    then have "?G = {..<length P}" by auto
    then show "rvCount st = length P" using cnt by simp
  qed
  show "rvCount st \<le> length P" unfolding cnt using card_mono [OF finite_lessThan sub] by simp
  show "rvCount st = length P \<longleftrightarrow> rvBase st = length P"
  proof
    assume "rvCount st = length P"
    then have "\<not> rvBase st < length P" using all assms by (auto simp: st_ok_def)
    then show "rvBase st = length P" using assms by (simp add: st_ok_def)
  next
    assume "rvBase st = length P"
    then show "rvCount st = length P" unfolding all using assms by (simp add: st_ok_def)
  qed
  have foldl_append: "foldl (@) a xs = a @ concat xs" for a :: bytes and xs
    by (induction xs arbitrary: a) simp_all
  assume "rvCount st = length P"
  then have "rvParts st = P" using assms by (intro nth_equalityI) (simp_all add: all st_ok_def)
  then show "assembleLocked st = concat P" by (simp add: assembleLocked_def foldl_append)
qed

lemma gget_filter_mono: "gget (filter Q m) k \<noteq> None \<Longrightarrow> gget m k \<noteq> None"
  unfolding gget_None_iff by auto

lemma drop_arbitrary_mono: "gget (drop_arbitrary ks m) k \<noteq> None \<Longrightarrow> gget m k \<noteq> None"
proof (induction ks arbitrary: m)
  case (Cons j ks)
  show ?case
  proof (cases "length m < maxFinished")
    case False
    then have "gget (gdel j m) k \<noteq> None" using Cons.prems by (intro Cons.IH [of "gdel j m"]) simp
    then show ?thesis by (simp split: if_splits)
  qed (use Cons.prems in simp)
qed simp

lemma rememberFinished_get:
  assumes "gget (rememberFinishedLocked iter now i m) k \<noteq> None" "k \<noteq> i"
  shows "gget m k \<noteq> None"
proof (cases "length m \<ge> maxFinished")
  case True
  let ?m = "filter (\<lambda>e. \<not> now - snd e \<ge> finishedTTL) m"
  have "gget (drop_arbitrary (map fst (iter ?m)) ?m) k \<noteq> None"
    using assms True by (simp add: rememberFinishedLocked_def Let_def)
  from gget_filter_mono [OF drop_arbitrary_mono [OF this]] show ?thesis .
qed (use assms in \<open>simp add: rememberFinishedLocked_def\<close>)

lemma onPart_part:
  assumes "length rid = 16" "k < 2 ^ 32"
  shows "receiver_Feed sha256 iter now r (part_frame rid P k) =
    (case gget (rrByID r) rid of
       None \<Rightarrow> (r, if gget (rrFinished r) rid \<noteq> None then [encodeDone rid] else [], [])
     | Some st \<Rightarrow>
         if k \<ge> rvTotal st then (r, [], [])
         else let st = recv_store st k (P ! k);
                  ackFrame = encodeAck rid (word_of_nat (rvBase st)) (ackBitmapLocked st)
              in if rvCount st = rvTotal st \<and> \<not> rvComplete st \<and> sha256 (assembleLocked st) = rvWhole st
                 then (r\<lparr>rrByID := gdel rid (rrByID r), rrFinished := rememberFinishedLocked iter now rid (rrFinished r)\<rparr>,
                       [ackFrame, encodeDone rid], [(rid, assembleLocked st)])
                 else (r\<lparr>rrByID := gput rid st (rrByID r)\<rparr>, [ackFrame], []))"
proof -
  let ?f = "part_frame rid P k"
  have d17: "drop 17 ?f = put_u32 (word_of_nat k) @ P ! k"
    using assms(1) by (simp add: part_frame_def encodePart_def)
  have u: "u32_at (1 + resIDLen) ?f = k" using assms(2) d17 by (simp add: u32_at_def res_consts)
  have d: "drop (1 + resIDLen + 4) ?f = P ! k" using arg_cong [OF d17, of "drop 4"] by (simp add: res_consts)
  have i: "frameID ?f = rid" using assms(1) by (simp add: part_frame_def)
  have c: "length ?f < 1 + resIDLen + 4 \<longleftrightarrow> False" "length ?f < 1 + resIDLen \<longleftrightarrow> False" "?f ! 0 = resTagPart"
    using assms(1) by (simp_all add: part_frame_def res_consts)
  have n: "(resTagPart = resTagAdv) = False" by (simp add: res_consts)
  show ?thesis
    unfolding receiver_Feed_def onPart_def c i u d Let_def n by (simp only: if_False if_True simp_thms)
qed

lemma receiver_Feed_adv:
  assumes "length rid = 16" "length whole = 32" "length P < 2 ^ 32" "whole = sha256 (concat P)" "0 < length P"
    and f: "f = encodeAdv rid (u32_len P) ps whole" and "receiver_Feed sha256 iter now r f = (r', fs, ds)"
  shows "fs = [] \<and> ds = [] \<and> rrFinished r' = rrFinished r \<and>
    (rrByID r' = rrByID r \<or>
     gget (rrByID r) rid = None \<and> (\<exists>st. rrByID r' = gput rid st (rrByID r) \<and> st_ok P whole st \<and> rvCount st = 0))"
proof -
  have d17: "drop 17 f = put_u32 (u32_len P) @ put_u32 ps @ whole"
    using assms(1) by (simp add: f encodeAdv_def)
  have u: "u32_at (1 + resIDLen) f = length P"
    using assms(3) d17 by (simp add: u32_at_def res_consts unat_u32_len)
  have w: "take 32 (drop (1 + resIDLen + 8) f) = whole"
    using arg_cong [OF d17, of "drop 8"] assms(2) by (simp add: res_consts)
  have i: "frameID f = rid" using assms(1) by (simp add: f)
  have eq: "fs = []" "ds = []" "r' = onAdv r f"
    using assms(1,2,7) by (auto simp: receiver_Feed_def f res_consts)
  let ?st = "\<lparr>rvTotal = length P, rvWhole = whole, rvParts = replicate (length P) [],
                             rvGot = replicate (length P) False, rvCount = 0, rvBase = 0, rvComplete = False\<rparr>"
  have "{k. k < length P \<and> replicate (length P) False ! k} = {}" by auto
  then have ok: "st_ok P whole ?st" using assms(5) by (simp add: st_ok_def)
  have "onAdv r f = r \<or> gget (rrByID r) rid = None \<and> onAdv r f = r\<lparr>rrByID := gput rid ?st (rrByID r)\<rparr>"
    unfolding onAdv_def u w i Let_def by (auto split: option.split)
  then show ?thesis using eq ok by (elim disjE conjE) (simp, intro conjI disjI2 exI [of _ ?st], simp_all)
qed

lemma receiver_Feed_other:
  assumes "frameID f \<noteq> rid" "receiver_Feed sha256 iter now r f = (r', fs, ds)"
  shows "gget (rrByID r') rid = gget (rrByID r) rid \<and>
    (gget (rrFinished r') rid \<noteq> None \<longrightarrow> gget (rrFinished r) rid \<noteq> None) \<and>
    (\<forall>g \<in> set fs. frameID g \<noteq> rid) \<and> (\<forall>e \<in> set ds. fst e \<noteq> rid)"
proof -
  have l: "length (frameID f) = 16" if "\<not> length f < 1 + resIDLen"
    using that length_frameID [of f] by (simp add: res_consts)
  have adv: "gget (rrByID (onAdv r f)) rid = gget (rrByID r) rid \<and> rrFinished (onAdv r f) = rrFinished r"
    using assms(1) by (simp add: onAdv_def Let_def split: option.split)
  have part: "gget (rrByID r') rid = gget (rrByID r) rid \<and>
    (gget (rrFinished r') rid \<noteq> None \<longrightarrow> gget (rrFinished r) rid \<noteq> None) \<and>
    (\<forall>g \<in> set fs. frameID g \<noteq> rid) \<and> (\<forall>e \<in> set ds. fst e \<noteq> rid)"
    if "length (frameID f) = 16" "onPart sha256 iter now r f = (r', fs, ds)"
    using that(2) assms(1) that(1) rememberFinished_get [of iter now "frameID f" "rrFinished r" rid]
    unfolding onPart_def Let_def
    by (auto split: if_splits option.splits)
  show ?thesis
    using assms(2) adv l part unfolding receiver_Feed_def
    by (auto split: if_splits)
qed

end
