(* ===== verification/ResourceTransfer.thy ===== *)
theory ResourceTransfer
  imports Resource
begin

text \<open>
  The correctness of a resource transfer: the invariant of \<open>res_step\<close>, safety on a link that loses,
  repeats and reorders frames, and completion once the link stops losing them.
\<close>

section \<open>The invariant of a transfer\<close>

text \<open>
  \<open>dl\<close> says that the payload was delivered, \<open>A\<close> holds the base and the bitmap of every acknowledgement
  on the link.
\<close>

definition acks_of :: "bytes \<Rightarrow> nat \<Rightarrow> bytes set \<Rightarrow> (nat \<times> bytes) set" where
  "acks_of rid n F = {(b, bm). b \<le> n \<and> length bm \<le> 32 \<and> encodeAck rid (word_of_nat b) bm \<in> F}"

definition sender_inv :: "bytes \<Rightarrow> bytes list \<Rightarrow> bytes \<Rightarrow> bool \<Rightarrow> (nat \<times> bytes) set \<Rightarrow> resSender \<Rightarrow> bool" where
  "sender_inv rid P whole dl A s \<longleftrightarrow> rsId s = rid \<and> rsParts s = P \<and> rsWhole s = whole \<and>
     length (rsAcked s) = length P \<and> length (rsSentAt s) = length P \<and> rsSentHigh s \<le> length P \<and>
     rsBase s \<le> length P \<and> (rsBase s = length P \<longrightarrow> dl \<and> rsFinished s) \<and>
     (None \<in> set (rsDone s) \<longrightarrow> dl) \<and> (\<not> rsFinished s \<longrightarrow> rsDone s = []) \<and>
     (\<forall>k < length P. rsAcked s ! k \<longrightarrow> k < rsBase s \<or> (\<exists>(b, bm) \<in> A. b \<le> k \<and> marks bm (k - b))) \<and>
     (rsBase s = 0 \<or> rsBase s \<in> fst ` A)"

definition ctl_ok :: "bytes \<Rightarrow> nat \<Rightarrow> bool \<Rightarrow> bytes \<Rightarrow> bool" where
  "ctl_ok rid n dl f \<longleftrightarrow> f = encodeDone rid \<and> dl \<or>
     (\<exists>b bm. f = encodeAck rid (word_of_nat b) bm \<and> b \<le> n \<and> length bm \<le> 32 \<and> (b = n \<longrightarrow> dl))"

definition net_inv :: "bytes \<Rightarrow> bytes list \<Rightarrow> bytes \<Rightarrow> bool \<Rightarrow> bytes set \<Rightarrow> bytes set \<Rightarrow> bool" where
  "net_inv rid P whole dl toR toS \<longleftrightarrow>
     (\<forall>f \<in> toR. f = encodeAdv rid (u32_len P) (word_of_nat (maxPartLen P)) whole \<or> f \<in> part_frame rid P ` {..<length P}) \<and>
     (\<forall>f \<in> toS. frameID f = rid \<longrightarrow> ctl_ok rid (length P) dl f)"

definition recv_inv :: "bytes \<Rightarrow> bytes list \<Rightarrow> bytes \<Rightarrow> bool \<Rightarrow> resReceiver \<Rightarrow> (bytes \<times> bytes) list \<Rightarrow> bool" where
  "recv_inv rid P whole dl r ds \<longleftrightarrow>
     (\<forall>st. gget (rrByID r) rid = Some st \<longrightarrow> st_ok P whole st \<and> rvCount st < length P) \<and>
     (gget (rrFinished r) rid \<noteq> None \<longrightarrow> dl) \<and> (\<forall>d. (rid, d) \<in> set ds \<longrightarrow> d = concat P)"

definition ack_inv :: "bytes \<Rightarrow> nat \<Rightarrow> bool \<Rightarrow> (nat \<times> bytes) set \<Rightarrow> resReceiver \<Rightarrow> bool" where
  "ack_inv rid n dl A r \<longleftrightarrow> \<not> dl \<longrightarrow>
     (\<forall>(b, bm) \<in> A. \<exists>st. gget (rrByID r) rid = Some st \<and> b \<le> rvBase st \<and>
        (\<forall>k. marks bm k \<longrightarrow> b + k < n \<and> rvGot st ! (b + k))) \<and>
     (\<forall>(b, bm) \<in> A. \<forall>b' \<in> insert 0 (fst ` A). b \<le> b' \<longrightarrow> \<not> marks bm (b' - b))"

abbreviation delivered_in :: "bytes \<Rightarrow> (bytes \<times> bytes) list \<Rightarrow> bool" where
  "delivered_in rid ds \<equiv> rid \<in> fst ` set ds"

definition res_inv :: "(bytes \<Rightarrow> bytes) \<Rightarrow> bytes \<Rightarrow> bytes list \<Rightarrow> res_sys \<Rightarrow> bool" where
  "res_inv sha256 rid P y \<longleftrightarrow>
     length rid = 16 \<and> length (sha256 (concat P)) = 32 \<and> 0 < length P \<and> length P < 2 ^ 32 \<and>
     sender_inv rid P (sha256 (concat P)) (delivered_in rid (sysDelivered y)) (acks_of rid (length P) (sysToS y)) (sysS y) \<and>
     net_inv rid P (sha256 (concat P)) (delivered_in rid (sysDelivered y)) (sysToR y) (sysToS y) \<and>
     recv_inv rid P (sha256 (concat P)) (delivered_in rid (sysDelivered y)) (sysR y) (sysDelivered y) \<and>
     ack_inv rid (length P) (delivered_in rid (sysDelivered y)) (acks_of rid (length P) (sysToS y)) (sysR y)"

lemma ctl_ok_mono: "ctl_ok rid n dl f \<Longrightarrow> dl \<longrightarrow> dl' \<Longrightarrow> ctl_ok rid n dl' f"
  by (auto simp: ctl_ok_def)

lemma ctl_ok_done: "dl \<Longrightarrow> ctl_ok rid n dl (encodeDone rid)"
  by (simp add: ctl_ok_def)

lemma ctl_ok_ack: "b \<le> n \<Longrightarrow> length bm \<le> 32 \<Longrightarrow> (b = n \<longrightarrow> dl) \<Longrightarrow> ctl_ok rid n dl (encodeAck rid (word_of_nat b) bm)"
  by (auto simp: ctl_ok_def)

lemma sender_inv_sent:
  "sender_inv rid P w dl A s \<Longrightarrow> length a = length P \<Longrightarrow> h \<le> length P \<Longrightarrow>
   sender_inv rid P w dl A (s\<lparr>rsSentAt := a, rsSentHigh := h\<rparr>)"
  by (simp add: sender_inv_def)

lemma sender_inv_mono:
  assumes "sender_inv rid P w dl A s" "dl \<longrightarrow> dl'" "A \<subseteq> A'"
  shows "sender_inv rid P w dl' A' s"
proof -
  have "(\<exists>(b, bm) \<in> A. b \<le> k \<and> marks bm (k - b)) \<longrightarrow> (\<exists>(b, bm) \<in> A'. b \<le> k \<and> marks bm (k - b))" for k
    using assms(3) by blast
  moreover have "fst ` A \<subseteq> fst ` A'" using assms(3) by (rule image_mono)
  ultimately show ?thesis using assms(1,2) unfolding sender_inv_def by blast
qed

lemma sender_inv_fill:
  assumes "sender_inv rid P w dl A s" "fillWindowLocked now s = (s', fs)"
  shows "sender_inv rid P w dl A s' \<and> set fs \<subseteq> part_frame rid P ` {..<length P} \<and>
    (\<exists>a h. s' = s\<lparr>rsSentAt := a, rsSentHigh := h\<rparr> \<and> (\<forall>k < length P. a ! k \<in> {rsSentAt s ! k, now}))"
proof -
  from fillWindow_props [OF assms(2)] obtain a where a:
    "s' = s\<lparr>rsSentAt := a, rsSentHigh := max (rsSentHigh s) (min (rsBase s + rsWindow s) (length (rsParts s)))\<rparr>"
    "length a = length (rsSentAt s)" "\<forall>k < length a. a ! k \<in> {rsSentAt s ! k, now}"
    "set fs = part_frame (rsId s) (rsParts s) ` {rsSentHigh s..<min (rsBase s + rsWindow s) (length (rsParts s))}"
    by (elim exE conjE)
  have P: "rsParts s = P" "rsId s = rid" "length (rsSentAt s) = length P" "rsSentHigh s \<le> length P"
    using assms(1) by (simp_all add: sender_inv_def)
  have "sender_inv rid P w dl A s'"
    unfolding a(1) using a(2) P by (intro sender_inv_sent [OF assms(1)]) simp_all
  moreover have "set fs \<subseteq> part_frame rid P ` {..<length P}" unfolding a(4) P by (intro image_mono) auto
  ultimately show ?thesis using a P by auto
qed

lemma sender_inv_tick:
  assumes "sender_inv rid P w dl A s" "retransmit_tick now now' s = (s', fs)"
  shows "sender_inv rid P w dl A s' \<and> set fs \<subseteq> part_frame rid P ` {..<length P}"
proof -
  have P: "rsParts s = P" "rsId s = rid" "length (rsSentAt s) = length P" "rsSentHigh s \<le> length P"
    using assms(1) by (simp_all add: sender_inv_def)
  from tick_props [OF assms(2)] obtain a where a:
    "s' = s\<lparr>rsSentAt := a, rsSentHigh := max (rsSentHigh s) (min (rsBase s + rsWindow s) (length (rsParts s)))\<rparr>"
    "length a = length (rsSentAt s)"
    "set fs = part_frame (rsId s) (rsParts s) `
       ({k. rsBase s \<le> k \<and> k < min (rsBase s + rsWindow s) (rsSentHigh s) \<and> \<not> rsAcked s ! k \<and> now - rsSentAt s ! k \<ge> rsRto s}
        \<union> {rsSentHigh s..<min (rsBase s + rsWindow s) (length (rsParts s))})"
    by (elim exE conjE)
  have "sender_inv rid P w dl A s'"
    unfolding a(1) using a(2) P by (intro sender_inv_sent [OF assms(1)]) simp_all
  moreover have "set fs \<subseteq> part_frame rid P ` {..<length P}" unfolding a(3) P using P(4) by (intro image_mono) auto
  ultimately show ?thesis by simp
qed

lemma sender_inv_finish:
  "sender_inv rid P w dl A s \<Longrightarrow> (e = None \<longrightarrow> dl) \<Longrightarrow> sender_inv rid P w dl A (res_finish e s) \<and> rsFinished (res_finish e s)"
  by (auto simp: sender_inv_def res_finish_def)

lemma sender_inv_wait:
  assumes "sender_inv rid P w dl A s" "res_Wait s = Some (e, s')"
  shows "sender_inv rid P w dl A s' \<and> (e = None \<longrightarrow> dl)"
proof -
  let ?s = "if rsDone s = [] then res_finish (Some ErrSendTimedOut) s else s"
  have i: "sender_inv rid P w dl A ?s" using sender_inv_finish [OF assms(1), of "Some ErrSendTimedOut"] assms(1) by simp
  obtain es where es: "rsDone ?s = e # es" "s' = ?s\<lparr>rsDone := es\<rparr>"
    using assms(2) unfolding res_Wait_def Let_def by (auto split: list.splits)
  then have "e = None \<longrightarrow> dl" "rsFinished ?s" using i unfolding sender_inv_def by auto
  then show ?thesis using i es unfolding es(2) by (simp add: sender_inv_def)
qed

lemma sender_inv_ack:
  assumes "sender_inv rid P w dl A s" "(b, bm) \<in> A" "b \<le> length P" "length bm \<le> 32" "b = length P \<longrightarrow> dl"
    and "length rid = 16" "length P < 2 ^ 32"
    and "sender_Feed now s (encodeAck rid (word_of_nat b) bm) = (s', fs)"
  shows "sender_inv rid P w dl A s' \<and> set fs \<subseteq> part_frame rid P ` {..<length P} \<and>
    rsBase s' = max (rsBase s) b \<and> (rsFinished s \<or> b = length P \<longrightarrow> rsFinished s') \<and> rsRto s' = rsRto s \<and>
    rsWindow s' = rsWindow s \<and> (\<forall>k < length P. rsSentAt s' ! k \<in> {rsSentAt s ! k, now})"
proof -
  let ?s = "s\<lparr>rsAcked := ack_selective b bm (ack_below b (rsAcked s)), rsBase := max (rsBase s) b\<rparr>"
  have P: "rsId s = rid" "rsParts s = P" "rsBase s \<le> length P" "length (rsAcked s) = length P"
    using assms(1) by (simp_all add: sender_inv_def)
  have feed: "(s', fs) = (if rsBase ?s \<ge> length P then (res_finish None ?s, []) else fillWindowLocked now ?s)"
    using onAck_encodeAck [of s b bm now] assms(3,4,6,7,8) P by (simp add: sender_Feed_def Let_def res_consts)
  have ack: "length (rsAcked ?s) = length P"
    "\<And>k. k < length P \<Longrightarrow> rsAcked ?s ! k \<longleftrightarrow> k < b \<or> rsAcked s ! k \<or> b \<le> k \<and> marks bm (k - b)"
    using ack_below_nth [of b "rsAcked s"] ack_selective_nth [of b bm "ack_below b (rsAcked s)"] P(4) by auto
  have ack': "k < max (rsBase s) b \<or> (\<exists>(b, bm) \<in> A. b \<le> k \<and> marks bm (k - b))" if "k < length P" "rsAcked ?s ! k" for k
  proof -
    have old: "\<forall>k < length P. rsAcked s ! k \<longrightarrow> k < rsBase s \<or> (\<exists>(b, bm) \<in> A. b \<le> k \<and> marks bm (k - b))"
      using assms(1) by (simp add: sender_inv_def)
    from ack(2) [OF that(1)] that(2) consider "k < b" | "rsAcked s ! k" | "b \<le> k \<and> marks bm (k - b)" by argo
    then show ?thesis
    proof cases
      case 2
      then have "k < rsBase s \<or> (\<exists>(b, bm) \<in> A. b \<le> k \<and> marks bm (k - b))" using old that(1) by simp
      then show ?thesis unfolding less_max_iff_disj by argo
    next
      case 3
      then show ?thesis using assms(2) by (intro disjI2 bexI [of _ "(b, bm)"]) simp_all
    qed (simp add: less_max_iff_disj)
  qed
  have "b \<in> fst ` A" using imageI [OF assms(2), of fst] by simp
  moreover have "rsBase s = 0 \<or> rsBase s \<in> fst ` A" using assms(1) by (simp add: sender_inv_def)
  ultimately have base: "max (rsBase s) b = 0 \<or> max (rsBase s) b \<in> fst ` A" by (auto simp: max_def)
  show ?thesis
  proof (cases "max (rsBase s) b \<ge> length P")
    case True
    then have s': "s' = res_finish None ?s" "fs = []" and dl: "dl" and n: "max (rsBase s) b = length P"
      using feed assms(1,3,5) P(3) by (auto simp: sender_inv_def max_def split: if_splits)
    have "sender_inv rid P w dl A s'"
      using assms(1) ack(1) ack' base n dl unfolding s'(1) sender_inv_def res_finish_def by simp
    then show ?thesis unfolding s' by (simp add: res_finish_def)
  next
    case False
    then have fill: "fillWindowLocked now ?s = (s', fs)" using feed by simp
    have "sender_inv rid P w dl A ?s"
      using assms(1) ack(1) ack' base False unfolding sender_inv_def by simp
    from sender_inv_fill [OF this fill] show ?thesis using False by auto
  qed
qed

lemma sender_Feed_done:
  "length (rsId s) = 16 \<Longrightarrow> sender_Feed now s (encodeDone (rsId s)) = (res_finish None s, [])"
  by (simp add: sender_Feed_def res_consts)

lemma sender_Feed_other: "frameID f \<noteq> rsId s \<Longrightarrow> sender_Feed now s f = (s, [])"
  by (simp add: sender_Feed_def)

lemma ack_frame_inject:
  assumes "a \<le> n" "b \<le> n" "n < 2 ^ 32" "encodeAck rid (word_of_nat a) bm = encodeAck rid (word_of_nat b) bm'"
  shows "a = b \<and> bm = bm'"
proof -
  have "(word_of_nat a :: u32) = word_of_nat b" "bm = bm'" using assms(4) by (auto simp: encodeAck_def wire_inj)
  then have "unat (word_of_nat a :: u32) = unat (word_of_nat b :: u32)" by (simp only:)
  moreover have "unat (word_of_nat a :: u32) = a" "unat (word_of_nat b :: u32) = b"
    using assms(1-3) by (auto intro!: unat_u32_of_nat)
  ultimately show ?thesis using \<open>bm = bm'\<close> by (simp only: simp_thms)
qed

lemma acks_of_ack:
  assumes "n < 2 ^ 32" "b \<le> n" "length bm \<le> 32"
  shows "acks_of rid n (F \<union> {encodeAck rid (word_of_nat b) bm}) = insert (b, bm) (acks_of rid n F)"
  using ack_frame_inject [OF _ assms(2,1)] assms(2,3) by (auto simp: acks_of_def)

lemma acks_of_done: "acks_of rid n (F \<union> {encodeDone rid}) = acks_of rid n F"
  by (auto simp: acks_of_def)

lemma acks_of_other:
  assumes "length rid = 16" "\<forall>g \<in> G. frameID g \<noteq> rid"
  shows "acks_of rid n (F \<union> G) = acks_of rid n F"
  using assms(2) frameID_encode(3) [OF assms(1)] unfolding acks_of_def by blast

text \<open>What one part of the resource does to the receiver.\<close>

lemma recv_part:
  assumes inv: "recv_inv rid P w dl r ds" and "w = sha256 (concat P)" and "length rid = 16" and "length P < 2 ^ 32"
    and k: "k < length P" and feed: "receiver_Feed sha256 iter now r (part_frame rid P k) = (r', fs, out)"
  obtains (silent) "gget (rrByID r) rid = None" "r' = r" "out = []" "set fs \<subseteq> {encodeDone rid}" "fs \<noteq> [] \<longrightarrow> dl"
  | (stored) st st' where "gget (rrByID r) rid = Some st" "st' = recv_store st k (P ! k)" "st_ok P w st'" "rvCount st' < length P"
      "gget (rrByID r') rid = Some st'" "rrFinished r' = rrFinished r" "out = []"
      "fs = [encodeAck rid (word_of_nat (rvBase st')) (ackBitmapLocked st')]"
  | (complete) bm where "gget (rrByID r) rid \<noteq> None" "gget (rrByID r') rid = None" "out = [(rid, concat P)]" "length bm \<le> 32"
      "fs = [encodeAck rid (word_of_nat (length P)) bm, encodeDone rid]"
proof -
  have k32: "k < 2 ^ 32" using k assms(4) by simp
  note eq = feed [unfolded onPart_part [OF assms(3) k32]]
  show ?thesis
  proof (cases "gget (rrByID r) rid")
    case None
    then show ?thesis using eq inv by (intro silent) (auto simp: recv_inv_def split: if_splits)
  next
    case (Some st)
    let ?st = "recv_store st k (P ! k)"
    have st: "st_ok P w st" using inv Some by (simp add: recv_inv_def)
    then have tot: "rvTotal st = length P" by (simp add: st_ok_def)
    have st': "st_ok P w ?st" using recv_store_ok [OF st k] by simp
    then have st'': "rvTotal ?st = length P" "rvWhole ?st = w" "\<not> rvComplete ?st" by (simp_all add: st_ok_def)
    have le: "\<not> length P \<le> k" using k by simp
    note eq' = eq [unfolded Some option.case tot Let_def st'' if_not_P [OF le]]
    show ?thesis
    proof (cases "rvCount ?st = length P")
      case True
      then have "rvBase ?st = length P" "assembleLocked ?st = concat P" using st_ok_all [OF st'] by simp_all
      then have "r' = r\<lparr>rrByID := gdel rid (rrByID r), rrFinished := rememberFinishedLocked iter now rid (rrFinished r)\<rparr>"
        "out = [(rid, concat P)]" "fs = [encodeAck rid (word_of_nat (length P)) (ackBitmapLocked ?st), encodeDone rid]"
        using eq' True assms(2) st''(3) by simp_all
      then show ?thesis using Some length_ackBitmap [of ?st] by (intro complete) simp_all
    next
      case False
      then have "rvCount ?st < length P" using st_ok_all(3) [OF st'] by simp
      moreover have "r' = r\<lparr>rrByID := gput rid ?st (rrByID r)\<rparr>" "out = []"
        "fs = [encodeAck rid (word_of_nat (rvBase ?st)) (ackBitmapLocked ?st)]"
        using eq' False by simp_all
      ultimately show ?thesis using Some st' by (intro stored) simp_all
    qed
  qed
qed

lemma ack_inv_stored:
  assumes "ack_inv rid (length P) dl A r" "\<not> dl" and st: "gget (rrByID r) rid = Some st" "st_ok P w st" and "k < length P"
    and st': "st' = recv_store st k (P ! k)" "rvCount st' < length P" and r': "gget (rrByID r') rid = Some st'"
  shows "ack_inv rid (length P) dl (insert (rvBase st', ackBitmapLocked st') A) r'"
proof -
  let ?B = "rvBase st'"
  have ok: "st_ok P w st'" and mono: "rvBase st \<le> ?B" "\<forall>j < length P. rvGot st ! j \<longrightarrow> rvGot st' ! j"
    using recv_store_ok [OF st(2) assms(5)] st'(1) by simp_all
  have B: "?B < length P" "\<not> rvGot st' ! ?B" "rvTotal st' = length P"
    using st_ok_all(1) [OF ok] ok st'(2) by (auto simp: st_ok_def)
  have old: "b \<le> ?B \<and> (\<forall>k. marks bm k \<longrightarrow> b + k < length P \<and> rvGot st' ! (b + k))" if "(b, bm) \<in> A" for b bm
    using bspec [OF conjunct1 [OF mp [OF assms(1) [unfolded ack_inv_def] assms(2)]] that] st(1) mono by auto
  have old2: "\<not> marks bm (b' - b)" if "(b, bm) \<in> A" "b' \<in> insert 0 (fst ` A)" "b \<le> b'" for b bm b'
    using bspec [OF conjunct2 [OF mp [OF assms(1) [unfolded ack_inv_def] assms(2)]] that(1)] that(2,3) by auto
  have new: "?B + k < length P \<and> rvGot st' ! (?B + k)" if "marks (ackBitmapLocked st') k" for k
    using ackBitmap_marks [OF that] B(3) by simp
  have new2: "\<not> marks bm (b' - b)"
    if "(b, bm) \<in> insert (?B, ackBitmapLocked st') A" "b' \<in> insert 0 (fst ` insert (?B, ackBitmapLocked st') A)" "b \<le> b'" for b bm b'
  proof (cases "b' = ?B")
    case True
    have "b + (b' - b) = ?B" using True that(3) by simp
    then show ?thesis using that(1) old [of b bm] new [of 0] B(2) True by (metis add_0_right diff_self_eq_0 insert_iff prod.inject)
  next
    case False
    have "b' \<in> insert 0 (fst ` A)" using that(2) False by simp
    moreover have "b' \<le> ?B" using calculation old by fastforce
    ultimately show ?thesis using that(1,3) False old2 by (metis insert_iff le_antisym prod.inject)
  qed
  show ?thesis unfolding ack_inv_def
  proof (intro impI conjI ballI prod.case_eq_if [THEN iffD2])
    fix e assume e: "e \<in> insert (?B, ackBitmapLocked st') A"
    have "fst e \<le> ?B \<and> (\<forall>k. marks (snd e) k \<longrightarrow> fst e + k < length P \<and> rvGot st' ! (fst e + k))"
    proof (cases "e = (?B, ackBitmapLocked st')")
      case True
      then show ?thesis using new by simp
    next
      case False
      then show ?thesis using e old [of "fst e" "snd e"] by simp
    qed
    then show "\<exists>st. gget (rrByID r') rid = Some st \<and> fst e \<le> rvBase st \<and>
        (\<forall>k. marks (snd e) k \<longrightarrow> fst e + k < length P \<and> rvGot st ! (fst e + k))"
      using r' by (intro exI [of _ st']) simp
    show "\<not> marks (snd e) (b' - fst e)"
      if "b' \<in> insert 0 (fst ` insert (?B, ackBitmapLocked st') A)" "fst e \<le> b'" for b'
      using new2 [of "fst e" "snd e" b'] e that by simp
  qed
qed

text \<open>A step of the sender sends only parts or the advertisement.\<close>

lemma res_inv_sender:
  assumes "res_inv sha256 rid P y"
    and "sender_inv rid P (sha256 (concat P)) (delivered_in rid (sysDelivered y)) (acks_of rid (length P) (sysToS y)) s"
    and "set fs \<subseteq> insert (encodeAdv rid (u32_len P) (word_of_nat (maxPartLen P)) (sha256 (concat P))) (part_frame rid P ` {..<length P})"
  shows "res_inv sha256 rid P (y\<lparr>sysS := s, sysToR := sysToR y \<union> set fs\<rparr>)"
proof -
  have "net_inv rid P (sha256 (concat P)) (delivered_in rid (sysDelivered y)) (sysToR y \<union> set fs) (sysToS y)"
    using assms(1,3) unfolding res_inv_def net_inv_def by blast
  then show ?thesis using assms(1,2) by (simp add: res_inv_def)
qed

lemma res_inv_to_sender:
  assumes inv: "res_inv sha256 rid P y" and f: "f \<in> sysToS y" and feed: "sender_Feed now (sysS y) f = (s, fs)"
  shows "res_inv sha256 rid P (y\<lparr>sysS := s, sysToR := sysToR y \<union> set fs\<rparr>)"
proof -
  let ?dl = "delivered_in rid (sysDelivered y)" and ?A = "acks_of rid (length P) (sysToS y)"
  have si: "sender_inv rid P (sha256 (concat P)) ?dl ?A (sysS y)" and l: "length rid = 16" "length P < 2 ^ 32"
    and net: "net_inv rid P (sha256 (concat P)) ?dl (sysToR y) (sysToS y)"
    using inv by (simp_all add: res_inv_def)
  have rid: "rsId (sysS y) = rid" using si by (simp add: sender_inv_def)
  consider "frameID f \<noteq> rid" | "f = encodeDone rid" "?dl"
    | b bm where "f = encodeAck rid (word_of_nat b) bm" "b \<le> length P" "length bm \<le> 32" "b = length P \<longrightarrow> ?dl"
    using net f unfolding net_inv_def ctl_ok_def by blast
  then have "sender_inv rid P (sha256 (concat P)) ?dl ?A s \<and> set fs \<subseteq> part_frame rid P ` {..<length P}"
  proof cases
    case 1
    then show ?thesis using feed si rid by (simp add: sender_Feed_other)
  next
    case 2
    then show ?thesis using feed si rid l sender_Feed_done [of "sysS y" now] sender_inv_finish [OF si, of None] by simp
  next
    case (3 b bm)
    then have "(b, bm) \<in> ?A" using f by (simp add: acks_of_def)
    from sender_inv_ack [OF si this 3(2-4) l feed [unfolded 3(1)]] show ?thesis by (elim conjE) (intro conjI)
  qed
  then show ?thesis by (intro res_inv_sender [OF inv]) blast+
qed

lemma res_inv_receiver:
  assumes "res_inv sha256 rid P y" and "\<forall>d. (rid, d) \<in> set ds \<longrightarrow> d = concat P"
    and "\<forall>st. gget (rrByID r) rid = Some st \<longrightarrow> st_ok P (sha256 (concat P)) st \<and> rvCount st < length P"
    and "gget (rrFinished r) rid \<noteq> None \<longrightarrow> delivered_in rid (sysDelivered y @ ds)"
    and "\<forall>f \<in> set fs. frameID f = rid \<longrightarrow> ctl_ok rid (length P) (delivered_in rid (sysDelivered y @ ds)) f"
    and "ack_inv rid (length P) (delivered_in rid (sysDelivered y @ ds)) (acks_of rid (length P) (sysToS y \<union> set fs)) r"
  shows "res_inv sha256 rid P (y\<lparr>sysR := r, sysToS := sysToS y \<union> set fs, sysDelivered := sysDelivered y @ ds\<rparr>)"
proof -
  let ?dl = "delivered_in rid (sysDelivered y)" and ?dl' = "delivered_in rid (sysDelivered y @ ds)"
  let ?F = "sysToS y \<union> set fs"
  have m: "?dl \<longrightarrow> ?dl'" "acks_of rid (length P) (sysToS y) \<subseteq> acks_of rid (length P) ?F"
    by (auto simp: acks_of_def)
  have "sender_inv rid P (sha256 (concat P)) ?dl' (acks_of rid (length P) ?F) (sysS y)"
    using sender_inv_mono [OF _ m] assms(1) by (simp add: res_inv_def)
  moreover have "net_inv rid P (sha256 (concat P)) ?dl' (sysToR y) ?F"
  proof -
    have "net_inv rid P (sha256 (concat P)) ?dl (sysToR y) (sysToS y)" using assms(1) by (simp add: res_inv_def)
    then show ?thesis using assms(5) ctl_ok_mono [OF _ m(1)] unfolding net_inv_def ball_Un by simp
  qed
  moreover have "recv_inv rid P (sha256 (concat P)) ?dl' r (sysDelivered y @ ds)"
  proof -
    have "\<forall>d. (rid, d) \<in> set (sysDelivered y) \<longrightarrow> d = concat P" using assms(1) by (simp add: res_inv_def recv_inv_def)
    then have "\<forall>d. (rid, d) \<in> set (sysDelivered y @ ds) \<longrightarrow> d = concat P" using assms(2) by auto
    then show ?thesis unfolding recv_inv_def using assms(3,4) by (intro conjI)
  qed
  ultimately show ?thesis using assms(1,6) unfolding res_inv_def by simp
qed

lemma res_inv_adv:
  assumes inv: "res_inv sha256 rid P y" and f: "f = encodeAdv rid (u32_len P) (word_of_nat (maxPartLen P)) (sha256 (concat P))"
    and feed: "receiver_Feed sha256 iter now (sysR y) f = (r, fs, ds)"
  shows "res_inv sha256 rid P (y\<lparr>sysR := r, sysToS := sysToS y \<union> set fs, sysDelivered := sysDelivered y @ ds\<rparr>)"
proof -
  let ?dl = "delivered_in rid (sysDelivered y)" and ?A = "acks_of rid (length P) (sysToS y)"
  have l: "length rid = 16" "length (sha256 (concat P)) = 32" "length P < 2 ^ 32" "0 < length P"
    and ri: "recv_inv rid P (sha256 (concat P)) ?dl (sysR y) (sysDelivered y)"
    and ai: "ack_inv rid (length P) ?dl ?A (sysR y)"
    using inv by (simp_all add: res_inv_def)
  from receiver_Feed_adv [OF l(1-3) refl l(4) f feed] have e: "fs = []" "ds = []" "rrFinished r = rrFinished (sysR y)"
    and or: "rrByID r = rrByID (sysR y) \<or> gget (rrByID (sysR y)) rid = None \<and>
       (\<exists>st. rrByID r = gput rid st (rrByID (sysR y)) \<and> st_ok P (sha256 (concat P)) st \<and> rvCount st = 0)"
    by simp_all
  have "\<forall>st. gget (rrByID r) rid = Some st \<longrightarrow> st_ok P (sha256 (concat P)) st \<and> rvCount st < length P"
    using or ri l(4) by (auto simp: recv_inv_def)
  moreover have "ack_inv rid (length P) ?dl ?A r"
    using or
  proof
    assume "rrByID r = rrByID (sysR y)"
    then show ?thesis using ai by (simp add: ack_inv_def)
  next
    assume "gget (rrByID (sysR y)) rid = None \<and>
       (\<exists>st. rrByID r = gput rid st (rrByID (sysR y)) \<and> st_ok P (sha256 (concat P)) st \<and> rvCount st = 0)"
    then have "?dl \<or> ?A = {}" using ai by (auto simp: ack_inv_def)
    then show ?thesis by (auto simp: ack_inv_def)
  qed
  ultimately show ?thesis
    using ri e by (intro res_inv_receiver [OF inv]) (simp_all add: recv_inv_def)
qed

lemma res_inv_part:
  assumes inv: "res_inv sha256 rid P y" and k: "k < length P"
    and feed: "receiver_Feed sha256 iter now (sysR y) (part_frame rid P k) = (r, fs, ds)"
  shows "res_inv sha256 rid P (y\<lparr>sysR := r, sysToS := sysToS y \<union> set fs, sysDelivered := sysDelivered y @ ds\<rparr>)"
proof -
  let ?dl = "delivered_in rid (sysDelivered y)" and ?A = "acks_of rid (length P) (sysToS y)"
  have l: "length rid = 16" "length P < 2 ^ 32"
    and ri: "recv_inv rid P (sha256 (concat P)) ?dl (sysR y) (sysDelivered y)"
    and ai: "ack_inv rid (length P) ?dl ?A (sysR y)"
    using inv by (simp_all add: res_inv_def)
  from ri refl l k feed show ?thesis
  proof (cases rule: recv_part)
    case silent
    have "acks_of rid (length P) (sysToS y \<union> set fs) = ?A"
    proof -
      from silent(4) consider "set fs = {}" | "set fs = {encodeDone rid}" unfolding subset_singleton_iff by argo
      then show ?thesis by cases (simp_all only: Un_empty_right acks_of_done)
    qed
    then have "ack_inv rid (length P) ?dl (acks_of rid (length P) (sysToS y \<union> set fs)) r" using ai silent(2) by simp
    moreover have "ctl_ok rid (length P) ?dl f" if "f \<in> set fs" for f
    proof -
      have "f = encodeDone rid" "?dl" using silent(4,5) that by (force, cases fs, auto)
      then show ?thesis by (simp add: ctl_ok_done)
    qed
    moreover have "ds = []" "r = sysR y" using silent by simp_all
    ultimately show ?thesis using ri by (intro res_inv_receiver [OF inv]) (simp_all add: recv_inv_def)
  next
    case (stored st st')
    have ok: "st_ok P (sha256 (concat P)) st" using ri stored(1) by (simp add: recv_inv_def)
    have B: "rvBase st' < length P" using stored(3,4) st_ok_all(1) [OF stored(3)] by (auto simp: st_ok_def)
    have A: "acks_of rid (length P) (sysToS y \<union> set fs) = insert (rvBase st', ackBitmapLocked st') ?A"
      using acks_of_ack [OF l(2), of "rvBase st'"] B length_ackBitmap unfolding stored(8) by simp
    have "ack_inv rid (length P) ?dl (acks_of rid (length P) (sysToS y \<union> set fs)) r"
    proof (cases ?dl)
      case False
      then show ?thesis unfolding A using ack_inv_stored [OF ai _ stored(1) ok k stored(2,4,5)] by blast
    qed (simp add: ack_inv_def)
    moreover have "ctl_ok rid (length P) ?dl (encodeAck rid (word_of_nat (rvBase st')) (ackBitmapLocked st'))"
      using B length_ackBitmap by (intro ctl_ok_ack) simp_all
    ultimately show ?thesis using stored(3-8) ri
      by (intro res_inv_receiver [OF inv]) (simp_all add: recv_inv_def)
  next
    case (complete bm)
    then have "delivered_in rid (sysDelivered y @ ds)" by simp
    moreover have "ctl_ok rid (length P) True (encodeAck rid (word_of_nat (length P)) bm)" "ctl_ok rid (length P) True (encodeDone rid)"
      using complete(4) by (simp_all add: ctl_ok_ack ctl_ok_done)
    ultimately show ?thesis using complete by (intro res_inv_receiver [OF inv]) (simp_all add: ack_inv_def)
  qed
qed

lemma res_inv_foreign:
  assumes inv: "res_inv sha256 rid P y" and "frameID f \<noteq> rid"
    and feed: "receiver_Feed sha256 iter now (sysR y) f = (r, fs, ds)"
  shows "res_inv sha256 rid P (y\<lparr>sysR := r, sysToS := sysToS y \<union> set fs, sysDelivered := sysDelivered y @ ds\<rparr>)"
proof -
  from receiver_Feed_other [OF assms(2) feed] have o: "gget (rrByID r) rid = gget (rrByID (sysR y)) rid"
    "gget (rrFinished r) rid \<noteq> None \<longrightarrow> gget (rrFinished (sysR y)) rid \<noteq> None"
    "\<forall>g \<in> set fs. frameID g \<noteq> rid" "\<forall>e \<in> set ds. fst e \<noteq> rid"
    by simp_all
  have A: "acks_of rid (length P) (sysToS y \<union> set fs) = acks_of rid (length P) (sysToS y)"
    using o(3) inv by (intro acks_of_other) (simp_all add: res_inv_def)
  have dl: "delivered_in rid (sysDelivered y @ ds) = delivered_in rid (sysDelivered y)" using o(4) by auto
  show ?thesis
  proof (rule res_inv_receiver [OF inv], unfold dl A)
    show "\<forall>d. (rid, d) \<in> set ds \<longrightarrow> d = concat P" using o(4) by auto
  qed (use inv o in \<open>simp_all add: res_inv_def recv_inv_def ack_inv_def\<close>)
qed

lemma res_inv_step:
  assumes "res_step sha256 iter y y'" "res_inv sha256 rid P y"
  shows "res_inv sha256 rid P y'"
  using assms
proof (induction rule: res_step.induct)
  case (Start now y s fs)
  then obtain s1 f1 where f: "fillWindowLocked now (sysS y) = (s1, f1)" "s = s1"
    "fs = encodeAdv rid (u32_len P) (word_of_nat (maxPartLen P)) (sha256 (concat P)) # f1"
    by (auto simp: res_Start_def res_inv_def sender_inv_def split: prod.splits)
  have "sender_inv rid P (sha256 (concat P)) (delivered_in rid (sysDelivered y)) (acks_of rid (length P) (sysToS y)) (sysS y)"
    using Start by (simp add: res_inv_def)
  from sender_inv_fill [OF this f(1)] show ?case
    using f by (intro res_inv_sender [OF Start(2)]) auto
next
  case (Tick now now' y s fs)
  have "sender_inv rid P (sha256 (concat P)) (delivered_in rid (sysDelivered y)) (acks_of rid (length P) (sysToS y)) (sysS y)"
    using Tick by (simp add: res_inv_def)
  from sender_inv_tick [OF this Tick(1)] show ?case
    by (intro res_inv_sender [OF Tick(2)]) blast+
next
  case (Waits y e s)
  have "sender_inv rid P (sha256 (concat P)) (delivered_in rid (sysDelivered y)) (acks_of rid (length P) (sysToS y)) (sysS y)"
    using Waits by (simp add: res_inv_def)
  from sender_inv_wait [OF this Waits(1)] show ?case using Waits(2) by (simp add: res_inv_def)
next
  case (ToSender f y now s fs)
  then show ?case by (intro res_inv_to_sender)
next
  case (ToReceiver f y now r fs ds)
  then have "f = encodeAdv rid (u32_len P) (word_of_nat (maxPartLen P)) (sha256 (concat P)) \<or> f \<in> part_frame rid P ` {..<length P}"
    by (auto simp: res_inv_def net_inv_def)
  then show ?case
  proof
    assume "f \<in> part_frame rid P ` {..<length P}"
    then obtain k where "k < length P" "f = part_frame rid P k" by auto
    then show ?thesis using ToReceiver res_inv_part by simp
  qed (use ToReceiver in \<open>intro res_inv_adv\<close>)
next
  case (Foreign f y now r fs ds)
  have "rsId (sysS y) = rid" using Foreign(3) by (simp add: res_inv_def sender_inv_def)
  then show ?case using Foreign by (intro res_inv_foreign) simp_all
qed

section \<open>The initial state\<close>

lemma part_loop_props:
  "0 < p \<Longrightarrow> concat (part_loop p data off) = drop off data \<and> length (part_loop p data off) \<le> length data - off"
proof (induction p data off rule: part_loop.induct)
  case (1 p data off)
  show ?case
  proof (cases "off < length data")
    case True
    let ?e = "if off + p > length data then length data else off + p"
    have rec: "part_loop p data off = take (?e - off) (drop off data) # part_loop p data (off + p)"
      using True 1(2) by (subst part_loop.simps) (simp add: Let_def)
    have ih: "concat (part_loop p data (off + p)) = drop (off + p) data"
      "length (part_loop p data (off + p)) \<le> length data - (off + p)"
      using 1 True by (auto simp: Let_def)
    have "take (?e - off) (drop off data) = take p (drop off data)" by simp
    then have "concat (part_loop p data off) = take p (drop off data) @ drop p (drop off data)"
      unfolding rec using ih(1) by (simp add: add.commute)
    then have "concat (part_loop p data off) = drop off data" by (simp only: append_take_drop_id)
    moreover have "length (part_loop p data off) = Suc (length (part_loop p data (off + p)))" unfolding rec by simp
    ultimately show ?thesis using ih(2) True 1(2) by linarith
  next
    case False
    then show ?thesis by (subst (1 2) part_loop.simps) simp
  qed
qed

lemma NewResourceSender_props:
  assumes "NewResourceSender sha256 rid data ps win rto = Inr s" "length data < 2 ^ 32"
  shows "concat (rsParts s) = data \<and> 0 < length (rsParts s) \<and> length (rsParts s) < 2 ^ 32 \<and> 0 < rsWindow s \<and> 0 < rsRto s \<and>
    rsId s = rid \<and> sender_inv rid (rsParts s) (sha256 data) False {} s"
proof -
  have ps: "0 < nat ps" using assms(1) by (auto simp: NewResourceSender_def split: if_splits)
  let ?l = "part_loop (nat ps) data 0"
  have l: "concat ?l = data" "length ?l \<le> length data" using part_loop_props [OF ps, of data 0] by simp_all
  have P: "rsParts s = (if length ?l = 0 then [[]] else ?l)"
    using assms(1) by (auto simp: NewResourceSender_def Let_def split: if_splits)
  have "concat (rsParts s) = data" "0 < length (rsParts s)" "length (rsParts s) < 2 ^ 32"
    using l assms(2) unfolding P by auto
  moreover have "0 < rsWindow s" "0 < rsRto s" "rsId s = rid" "rsWhole s = sha256 data" "rsBase s = 0" "rsSentHigh s = 0"
    "rsAcked s = replicate (length (rsParts s)) False" "rsSentAt s = replicate (length (rsParts s)) 0"
    "\<not> rsFinished s" "rsDone s = []"
    using assms(1) by (auto simp: NewResourceSender_def Let_def defaultResWindow_def defaultResRTO_def split: if_splits)
  ultimately show ?thesis by (simp add: sender_inv_def)
qed

lemma res_inv_init:
  assumes "NewResourceSender sha256 rid data ps win rto = Inr s" "length data < 2 ^ 32" "length rid = 16"
    "length (sha256 data) = 32" "gget (rrByID r) rid = None" "gget (rrFinished r) rid = None"
  shows "res_inv sha256 rid (rsParts s) (res_init s r)"
proof -
  have A: "acks_of rid n {} = {}" for n by (simp add: acks_of_def)
  show ?thesis
    using NewResourceSender_props [OF assms(1,2)] assms(3-6)
    by (simp add: res_inv_def res_init_def net_inv_def recv_inv_def ack_inv_def A)
qed

lemma res_inv_steps:
  "(res_step sha256 iter)\<^sup>*\<^sup>* y y' \<Longrightarrow> res_inv sha256 rid P y \<Longrightarrow> res_inv sha256 rid P y'"
  by (induction rule: rtranclp_induct) (auto intro: res_inv_step)

section \<open>Rounds in which nothing is lost\<close>

fun to_receiver :: "(bytes \<Rightarrow> bytes) \<Rightarrow> ((bytes \<times> int) list \<Rightarrow> (bytes \<times> int) list) \<Rightarrow> int \<Rightarrow> bytes list \<Rightarrow> res_sys \<Rightarrow> res_sys \<times> bytes list" where
  "to_receiver sha256 iter now [] y = (y, [])"
| "to_receiver sha256 iter now (f # fs) y =
     (let (r, cs, ds) = receiver_Feed sha256 iter now (sysR y) f;
          (y, cs') = to_receiver sha256 iter now fs
             (y\<lparr>sysR := r, sysToS := sysToS y \<union> set cs, sysDelivered := sysDelivered y @ ds\<rparr>)
      in (y, cs @ cs'))"

fun to_sender :: "int \<Rightarrow> bytes list \<Rightarrow> res_sys \<Rightarrow> res_sys" where
  "to_sender now [] y = y"
| "to_sender now (c # cs) y =
     (let (s, fs) = sender_Feed now (sysS y) c
      in to_sender now cs (y\<lparr>sysS := s, sysToR := sysToR y \<union> set fs\<rparr>))"

text \<open>One tick of the retransmission timer, all of whose frames arrive, and so do all the answers.\<close>

definition lossless_round :: "(bytes \<Rightarrow> bytes) \<Rightarrow> ((bytes \<times> int) list \<Rightarrow> (bytes \<times> int) list) \<Rightarrow> int \<Rightarrow> res_sys \<Rightarrow> res_sys" where
  "lossless_round sha256 iter now y =
     (let (s, fs) = retransmit_tick now now (sysS y);
          (y, cs) = to_receiver sha256 iter now fs (y\<lparr>sysS := s, sysToR := sysToR y \<union> set fs\<rparr>)
      in to_sender now cs y)"

fun lossless_rounds :: "(bytes \<Rightarrow> bytes) \<Rightarrow> ((bytes \<times> int) list \<Rightarrow> (bytes \<times> int) list) \<Rightarrow> int \<Rightarrow> nat \<Rightarrow> res_sys \<Rightarrow> res_sys" where
  "lossless_rounds sha256 iter t 0 y = y"
| "lossless_rounds sha256 iter t (Suc k) y =
     (let now = t + rsRto (sysS y) in lossless_rounds sha256 iter now k (lossless_round sha256 iter now y))"

lemma to_receiver_inv:
  assumes "res_inv sha256 rid P y" "set fs \<subseteq> part_frame rid P ` {..<length P}" "to_receiver sha256 iter now fs y = (y', cs)"
  shows "res_inv sha256 rid P y' \<and> sysS y' = sysS y \<and> sysToS y' = sysToS y \<union> set cs"
  using assms
proof (induction fs arbitrary: y cs)
  case (Cons f fs)
  obtain r cs1 ds where feed: "receiver_Feed sha256 iter now (sysR y) f = (r, cs1, ds)" by (metis prod_cases3)
  let ?y = "y\<lparr>sysR := r, sysToS := sysToS y \<union> set cs1, sysDelivered := sysDelivered y @ ds\<rparr>"
  obtain cs2 where rest: "to_receiver sha256 iter now fs ?y = (y', cs2)" "cs = cs1 @ cs2"
    using Cons.prems(3) feed by (auto split: prod.splits)
  obtain k where k: "k < length P" "f = part_frame rid P k" using Cons.prems(2) by auto
  have "res_inv sha256 rid P ?y" using res_inv_part [OF Cons.prems(1) k(1) feed [unfolded k(2)]] .
  from Cons.IH [OF this _ rest(1)] show ?case using Cons.prems(2) rest(2) by auto
qed auto

text \<open>The part the sender is missing an acknowledgement for gets one, or the whole resource does.\<close>

lemma to_receiver_progress:
  assumes "res_inv sha256 rid P y" "set fs \<subseteq> part_frame rid P ` {..<length P}" "to_receiver sha256 iter now fs y = (y', cs)"
    and "\<not> delivered_in rid (sysDelivered y)" "gget (rrByID (sysR y)) rid = Some st" "B \<le> rvBase st" "B < length P"
  shows "(part_frame rid P B \<in> set fs \<longrightarrow>
      (\<exists>b bm. encodeAck rid (word_of_nat b) bm \<in> set cs \<and> B < b \<and> b \<le> length P \<and> length bm \<le> 32)) \<and>
    (\<not> delivered_in rid (sysDelivered y') \<and> gget (rrByID (sysR y')) rid \<noteq> None \<or>
      (\<exists>bm. encodeAck rid (word_of_nat (length P)) bm \<in> set cs \<and> length bm \<le> 32))"
  using assms
proof (induction fs arbitrary: y cs st)
  case (Cons f fs)
  obtain r cs1 ds where feed: "receiver_Feed sha256 iter now (sysR y) f = (r, cs1, ds)" by (metis prod_cases3)
  let ?y = "y\<lparr>sysR := r, sysToS := sysToS y \<union> set cs1, sysDelivered := sysDelivered y @ ds\<rparr>"
  obtain cs2 where rest: "to_receiver sha256 iter now fs ?y = (y', cs2)" "cs = cs1 @ cs2"
    using Cons.prems(3) feed by (auto split: prod.splits)
  obtain k where k: "k < length P" "f = part_frame rid P k" "f = part_frame rid P B \<longrightarrow> k = B"
    using Cons.prems(2,7) by (cases "f = part_frame rid P B") auto
  have inv: "res_inv sha256 rid P ?y" using res_inv_part [OF Cons.prems(1) k(1) feed [unfolded k(2)]] .
  have l: "length rid = 16" "length P < 2 ^ 32"
    and ri: "recv_inv rid P (sha256 (concat P)) (delivered_in rid (sysDelivered y)) (sysR y) (sysDelivered y)"
    using Cons.prems(1) by (simp_all add: res_inv_def)
  have sub: "set fs \<subseteq> part_frame rid P ` {..<length P}" using Cons.prems(2) by simp
  from ri refl l k(1) feed [unfolded k(2)] show ?case
  proof (cases rule: recv_part)
    case silent
    then show ?thesis using Cons.prems(5) by simp
  next
    case (complete bm)
    then have "encodeAck rid (word_of_nat (length P)) bm \<in> set cs" using rest(2) by simp
    then show ?thesis using complete(4) Cons.prems(7) by blast
  next
    case (stored st0 st')
    have st: "st_ok P (sha256 (concat P)) st" "st0 = st" using ri Cons.prems(5) stored(1) by (simp_all add: recv_inv_def)
    have up: "rvBase st \<le> rvBase st'" "rvGot st' ! k"
      using recv_store_ok [OF st(1) k(1)] stored(2) st(2) by simp_all
    have ok: "\<forall>j < rvBase st'. rvGot st' ! j" "rvBase st' < length P \<longrightarrow> \<not> rvGot st' ! rvBase st'" "rvBase st' \<le> length P"
      using stored(3) by (simp_all add: st_ok_def)
    have ih: "(part_frame rid P B \<in> set fs \<longrightarrow>
      (\<exists>b bm. encodeAck rid (word_of_nat b) bm \<in> set cs2 \<and> B < b \<and> b \<le> length P \<and> length bm \<le> 32)) \<and>
      (\<not> delivered_in rid (sysDelivered y') \<and> gget (rrByID (sysR y')) rid \<noteq> None \<or>
      (\<exists>bm. encodeAck rid (word_of_nat (length P)) bm \<in> set cs2 \<and> length bm \<le> 32))"
      using Cons.prems(4,6,7) stored(5,7) up(1) by (intro Cons.IH [OF inv sub rest(1), where st = st']) simp_all
    have "\<exists>b bm. encodeAck rid (word_of_nat b) bm \<in> set cs1 \<and> B < b \<and> b \<le> length P \<and> length bm \<le> 32"
      if "f = part_frame rid P B"
    proof -
      have "rvBase st' \<noteq> B" using ok(2) up(2) k that Cons.prems(7) by auto
      then have "B < rvBase st'" using up(1) Cons.prems(6) by linarith
      then show ?thesis using stored(8) ok(3) length_ackBitmap [of st']
        by (intro exI [of _ "rvBase st'"] exI [of _ "ackBitmapLocked st'"]) simp
    qed
    then show ?thesis using ih rest(2) by auto
  qed
qed auto

lemma to_sender_props:
  assumes "res_inv sha256 rid P y" "set cs \<subseteq> sysToS y"
  shows "res_inv sha256 rid P (to_sender now cs y) \<and> sysR (to_sender now cs y) = sysR y \<and>
    sysDelivered (to_sender now cs y) = sysDelivered y \<and>
    rsBase (sysS y) \<le> rsBase (sysS (to_sender now cs y)) \<and>
    (rsFinished (sysS y) \<longrightarrow> rsFinished (sysS (to_sender now cs y))) \<and>
    rsRto (sysS (to_sender now cs y)) = rsRto (sysS y) \<and> rsWindow (sysS (to_sender now cs y)) = rsWindow (sysS y) \<and>
    (\<forall>k < length P. rsSentAt (sysS (to_sender now cs y)) ! k \<in> {rsSentAt (sysS y) ! k, now}) \<and>
    (\<forall>b bm. encodeAck rid (word_of_nat b) bm \<in> set cs \<and> b \<le> length P \<and> length bm \<le> 32 \<longrightarrow>
       b \<le> rsBase (sysS (to_sender now cs y)) \<and> (b = length P \<longrightarrow> rsFinished (sysS (to_sender now cs y))))"
  using assms
proof (induction cs arbitrary: y)
  case (Cons c cs)
  let ?dl = "delivered_in rid (sysDelivered y)" and ?A = "acks_of rid (length P) (sysToS y)"
  obtain s fs where feed: "sender_Feed now (sysS y) c = (s, fs)" by (metis prod.exhaust)
  let ?y = "y\<lparr>sysS := s, sysToR := sysToR y \<union> set fs\<rparr>"
  have c: "c \<in> sysToS y" using Cons.prems(2) by simp
  have inv: "res_inv sha256 rid P ?y" using res_inv_to_sender [OF Cons.prems(1) c feed] .
  have si: "sender_inv rid P (sha256 (concat P)) ?dl ?A (sysS y)" and l: "length rid = 16" "length P < 2 ^ 32"
    and net: "net_inv rid P (sha256 (concat P)) ?dl (sysToR y) (sysToS y)"
    using Cons.prems(1) by (simp_all add: res_inv_def)
  have rid: "rsId (sysS y) = rid" using si by (simp add: sender_inv_def)
  have one: "rsBase (sysS y) \<le> rsBase s \<and> (rsFinished (sysS y) \<longrightarrow> rsFinished s) \<and> rsRto s = rsRto (sysS y) \<and>
      rsWindow s = rsWindow (sysS y) \<and> (\<forall>k < length P. rsSentAt s ! k \<in> {rsSentAt (sysS y) ! k, now}) \<and>
      (\<forall>b bm. c = encodeAck rid (word_of_nat b) bm \<and> b \<le> length P \<and> length bm \<le> 32 \<longrightarrow>
        b \<le> rsBase s \<and> (b = length P \<longrightarrow> rsFinished s))"
  proof (cases "\<exists>b bm. c = encodeAck rid (word_of_nat b) bm \<and> b \<le> length P \<and> length bm \<le> 32")
    case True
    then obtain b bm where b: "c = encodeAck rid (word_of_nat b) bm" "b \<le> length P" "length bm \<le> 32" by blast
    have uniq: "b' = b" if "c = encodeAck rid (word_of_nat b') bm'" "b' \<le> length P" for b' bm'
      using ack_frame_inject [OF that(2) b(2) l(2) trans [OF that(1) [symmetric] b(1)]] by (rule conjunct1)
    have "b = length P \<longrightarrow> ?dl"
    proof -
      have "ctl_ok rid (length P) ?dl c" using net c b(1) l by (simp add: net_inv_def)
      then show ?thesis unfolding ctl_ok_def
      proof (elim disjE exE conjE)
        fix b' bm' assume b': "c = encodeAck rid (word_of_nat b') bm'" "b' \<le> length P" "b' = length P \<longrightarrow> ?dl"
        from uniq [OF b'(1,2)] b'(3) show ?thesis by (simp only:)
      qed simp
    qed
    moreover have "(b, bm) \<in> ?A" using b c by (simp add: acks_of_def)
    ultimately have a: "rsBase s = max (rsBase (sysS y)) b" "rsFinished (sysS y) \<or> b = length P \<longrightarrow> rsFinished s"
      "rsRto s = rsRto (sysS y)" "rsWindow s = rsWindow (sysS y)" "\<forall>k < length P. rsSentAt s ! k \<in> {rsSentAt (sysS y) ! k, now}"
      using sender_inv_ack [OF si _ b(2,3) _ l feed [unfolded b(1)]] by simp_all
    show ?thesis
    proof (intro conjI allI impI)
      fix b' bm' assume "c = encodeAck rid (word_of_nat b') bm' \<and> b' \<le> length P \<and> length bm' \<le> 32"
      then have "b' = b" using uniq by simp
      then show "b' \<le> rsBase s" "b' = length P \<Longrightarrow> rsFinished s" using a(1,2) by simp_all
    qed (use a in simp_all)
  next
    case False
    then have "s = sysS y \<or> s = res_finish None (sysS y)"
    proof (cases "frameID c = rid")
      case True
      then have "c = encodeDone rid" using net c False by (auto simp: net_inv_def ctl_ok_def)
      then show ?thesis using feed rid l sender_Feed_done [of "sysS y" now] by simp
    qed (use feed rid in \<open>simp add: sender_Feed_other\<close>)
    then show ?thesis using False by (auto simp: res_finish_def)
  qed
  have sub: "set cs \<subseteq> sysToS ?y" using Cons.prems(2) by simp
  have st: "to_sender now (c # cs) y = to_sender now cs ?y" using feed by simp
  note ih = Cons.IH [OF inv sub]
  show ?case unfolding st
  proof (intro conjI allI impI)
    fix k assume k: "k < length P"
    then have "rsSentAt (sysS (to_sender now cs ?y)) ! k \<in> {rsSentAt s ! k, now}" using ih by simp
    moreover have "rsSentAt s ! k \<in> {rsSentAt (sysS y) ! k, now}" using one k by simp
    ultimately show "rsSentAt (sysS (to_sender now cs ?y)) ! k \<in> {rsSentAt (sysS y) ! k, now}" by auto
  next
    fix b bm assume a: "encodeAck rid (word_of_nat b) bm \<in> set (c # cs) \<and> b \<le> length P \<and> length bm \<le> 32"
    show "b \<le> rsBase (sysS (to_sender now cs ?y))" "b = length P \<Longrightarrow> rsFinished (sysS (to_sender now cs ?y))"
    proof (atomize (full), cases "c = encodeAck rid (word_of_nat b) bm")
      case True
      then have "b \<le> rsBase s \<and> (b = length P \<longrightarrow> rsFinished s)" using one a by blast
      moreover have "rsBase s \<le> rsBase (sysS (to_sender now cs ?y))" "rsFinished s \<longrightarrow> rsFinished (sysS (to_sender now cs ?y))"
        using ih by simp_all
      ultimately show "b \<le> rsBase (sysS (to_sender now cs ?y)) \<and> (b = length P \<longrightarrow> rsFinished (sysS (to_sender now cs ?y)))"
        by auto
    next
      case False
      then have "encodeAck rid (word_of_nat b) bm \<in> set cs" using a by auto
      then show "b \<le> rsBase (sysS (to_sender now cs ?y)) \<and> (b = length P \<longrightarrow> rsFinished (sysS (to_sender now cs ?y)))"
        using ih a by blast
    qed
  qed (use ih one in \<open>simp_all\<close>)
qed simp

text \<open>The lowest unacknowledged part is not marked as acknowledged, so the timer sends it again.\<close>

lemma base_not_acked:
  assumes "res_inv sha256 rid P y" "\<not> delivered_in rid (sysDelivered y)"
  shows "rsBase (sysS y) < length P \<and> \<not> rsAcked (sysS y) ! rsBase (sysS y)"
proof -
  let ?A = "acks_of rid (length P) (sysToS y)" and ?s = "sysS y"
  have si: "sender_inv rid P (sha256 (concat P)) False ?A ?s" and ai: "ack_inv rid (length P) False ?A (sysR y)"
    using assms by (simp_all add: res_inv_def)
  have B: "rsBase ?s < length P" using si by (auto simp: sender_inv_def)
  have acked: "\<forall>k < length P. rsAcked ?s ! k \<longrightarrow> k < rsBase ?s \<or> (\<exists>(b, bm) \<in> ?A. b \<le> k \<and> marks bm (k - b))"
    and base: "rsBase ?s \<in> insert 0 (fst ` ?A)"
    using si by (auto simp: sender_inv_def)
  have no: "\<not> marks bm (rsBase ?s - b)" if "(b, bm) \<in> ?A" "b \<le> rsBase ?s" for b bm
    using bspec [OF conjunct2 [OF mp [OF ai [unfolded ack_inv_def]]] that(1)] base that(2) by auto
  have "\<not> rsAcked ?s ! rsBase ?s"
  proof
    assume "rsAcked ?s ! rsBase ?s"
    with acked B have "\<exists>(b, bm) \<in> ?A. b \<le> rsBase ?s \<and> marks bm (rsBase ?s - b)" by blast
    then show False using no by blast
  qed
  then show ?thesis using B by simp
qed

lemma lossless_round_progress:
  assumes inv: "res_inv sha256 rid P y" and nd: "\<not> delivered_in rid (sysDelivered y)"
    and st: "gget (rrByID (sysR y)) rid \<noteq> None"
    and t: "\<forall>k < length P. rsSentAt (sysS y) ! k \<le> t" "rsRto (sysS y) \<le> now - t" "t \<le> now" and W: "0 < rsWindow (sysS y)"
  shows "let y' = lossless_round sha256 iter now y in res_inv sha256 rid P y' \<and> rsRto (sysS y') = rsRto (sysS y) \<and>
     rsWindow (sysS y') = rsWindow (sysS y) \<and> (\<forall>k < length P. rsSentAt (sysS y') ! k \<le> now) \<and>
     rsBase (sysS y) < rsBase (sysS y') \<and>
     (rsFinished (sysS y') \<or> \<not> delivered_in rid (sysDelivered y') \<and> gget (rrByID (sysR y')) rid \<noteq> None)"
proof -
  let ?s = "sysS y" and ?B = "rsBase (sysS y)" and ?A = "acks_of rid (length P) (sysToS y)"
  obtain s fs where tick: "retransmit_tick now now ?s = (s, fs)" by (metis prod.exhaust)
  let ?y1 = "y\<lparr>sysS := s, sysToR := sysToR y \<union> set fs\<rparr>"
  have inv1: "res_inv sha256 rid P ?y1"
    using res_inv_step [OF res_step.Tick [OF tick] inv] .
  obtain y2 cs where rcv: "to_receiver sha256 iter now fs ?y1 = (y2, cs)" by (metis prod.exhaust)
  let ?y3 = "to_sender now cs y2"
  have y3: "lossless_round sha256 iter now y = ?y3" using tick rcv by (simp add: lossless_round_def)
  have si: "sender_inv rid P (sha256 (concat P)) False ?A ?s" using inv nd by (simp add: res_inv_def)
  have P: "rsParts ?s = P" "rsId ?s = rid" "length (rsSentAt ?s) = length P" using si by (simp_all add: sender_inv_def)
  have B: "?B < length P" "\<not> rsAcked ?s ! ?B" using base_not_acked [OF inv nd] by simp_all
  from tick_props [OF tick] obtain a where a:
    "s = ?s\<lparr>rsSentAt := a, rsSentHigh := max (rsSentHigh ?s) (min (?B + rsWindow ?s) (length P))\<rparr>"
    "length a = length P" "\<forall>k < length P. a ! k \<in> {rsSentAt ?s ! k, now}"
    "set fs = part_frame rid P ` ({k. ?B \<le> k \<and> k < min (?B + rsWindow ?s) (rsSentHigh ?s) \<and> \<not> rsAcked ?s ! k \<and> now - rsSentAt ?s ! k \<ge> rsRto ?s}
        \<union> {rsSentHigh ?s..<min (?B + rsWindow ?s) (length P)})"
    unfolding P by auto
  have due: "now - rsSentAt ?s ! ?B \<ge> rsRto ?s" using t(1,2) B(1) by fastforce
  have mem: "part_frame rid P ?B \<in> set fs"
    unfolding a(4) using B due W by (intro imageI) (cases "?B < rsSentHigh ?s"; simp)
  have sub: "set fs \<subseteq> part_frame rid P ` {..<length P}"
    using sender_inv_tick [OF si tick] by (rule conjunct2)
  obtain st0 where st0: "gget (rrByID (sysR y)) rid = Some st0" using st by blast
  have le: "?B \<le> rvBase st0"
  proof (cases "?B = 0")
    case False
    then obtain bm where "(?B, bm) \<in> ?A" using si by (auto simp: sender_inv_def)
    moreover have "ack_inv rid (length P) False ?A (sysR y)" using inv nd by (simp add: res_inv_def)
    ultimately show ?thesis using st0 by (auto simp: ack_inv_def)
  qed simp
  from to_receiver_inv [OF inv1 sub rcv] have r: "res_inv sha256 rid P y2" "sysS y2 = s" "set cs \<subseteq> sysToS y2" by auto
  have "\<not> delivered_in rid (sysDelivered ?y1)" "gget (rrByID (sysR ?y1)) rid = Some st0" using nd st0 by simp_all
  from to_receiver_progress [OF inv1 sub rcv this le B(1)] mem obtain b bm where ack:
    "encodeAck rid (word_of_nat b) bm \<in> set cs" "?B < b" "b \<le> length P" "length bm \<le> 32"
    and out: "\<not> delivered_in rid (sysDelivered y2) \<and> gget (rrByID (sysR y2)) rid \<noteq> None \<or>
      (\<exists>bm. encodeAck rid (word_of_nat (length P)) bm \<in> set cs \<and> length bm \<le> 32)"
    by auto
  note snd = to_sender_props [OF r(1,3), of now]
  have "?B < rsBase (sysS ?y3)" using snd ack by (meson order_less_le_trans)
  moreover have "rsFinished (sysS ?y3) \<or> \<not> delivered_in rid (sysDelivered ?y3) \<and> gget (rrByID (sysR ?y3)) rid \<noteq> None"
    using out
  proof
    assume "\<exists>bm. encodeAck rid (word_of_nat (length P)) bm \<in> set cs \<and> length bm \<le> 32"
    then show ?thesis using snd by blast
  qed (use snd in simp)
  moreover have "rsSentAt (sysS ?y3) ! k \<le> now" if "k < length P" for k
  proof -
    have "rsSentAt (sysS ?y3) ! k \<in> {a ! k, now}" "a ! k \<in> {rsSentAt ?s ! k, now}" "rsSentAt ?s ! k \<le> t"
      using snd that r(2) a(1,3) t(1) by simp_all
    then show ?thesis using t(3) by auto
  qed
  moreover have "rsRto (sysS ?y3) = rsRto ?s" "rsWindow (sysS ?y3) = rsWindow ?s" "res_inv sha256 rid P ?y3"
    using snd r(2) a(1) by simp_all
  ultimately show ?thesis unfolding y3 Let_def by blast
qed

lemma lossless_round_finished:
  assumes "res_inv sha256 rid P y" "rsFinished (sysS y)"
  shows "res_inv sha256 rid P (lossless_round sha256 iter now y) \<and> rsFinished (sysS (lossless_round sha256 iter now y))"
proof -
  obtain s fs where tick: "retransmit_tick now now (sysS y) = (s, fs)" by (metis prod.exhaust)
  let ?y1 = "y\<lparr>sysS := s, sysToR := sysToR y \<union> set fs\<rparr>"
  have inv1: "res_inv sha256 rid P ?y1" using res_inv_step [OF res_step.Tick [OF tick] assms(1)] .
  obtain y2 cs where rcv: "to_receiver sha256 iter now fs ?y1 = (y2, cs)" by (metis prod.exhaust)
  have si: "sender_inv rid P (sha256 (concat P)) (delivered_in rid (sysDelivered y)) (acks_of rid (length P) (sysToS y)) (sysS y)"
    using assms(1) by (simp add: res_inv_def)
  have fin: "rsFinished s" using tick_props [OF tick] assms(2) by auto
  from to_receiver_inv [OF inv1 conjunct2 [OF sender_inv_tick [OF si tick]] rcv]
  have r: "res_inv sha256 rid P y2" "sysS y2 = s" "set cs \<subseteq> sysToS y2" by auto
  from to_sender_props [OF r(1,3), of now] show ?thesis using fin r(2) tick rcv by (simp add: lossless_round_def)
qed

lemma lossless_rounds_finish:
  assumes "res_inv sha256 rid P y" "rsFinished (sysS y) \<or>
      \<not> delivered_in rid (sysDelivered y) \<and> gget (rrByID (sysR y)) rid \<noteq> None \<and> length P \<le> rsBase (sysS y) + k \<and>
      (\<forall>k < length P. rsSentAt (sysS y) ! k \<le> t) \<and> 0 < rsRto (sysS y) \<and> 0 < rsWindow (sysS y)"
  shows "res_inv sha256 rid P (lossless_rounds sha256 iter t k y) \<and> rsFinished (sysS (lossless_rounds sha256 iter t k y))"
  using assms
proof (induction k arbitrary: y t)
  case 0
  then show ?case using base_not_acked [of sha256 rid P y] by auto
next
  case (Suc k)
  let ?now = "t + rsRto (sysS y)" let ?y = "lossless_round sha256 iter ?now y"
  show ?case
  proof (cases "rsFinished (sysS y)")
    case True
    from lossless_round_finished [OF Suc.prems(1) True, of iter ?now] Suc.IH [of ?y ?now] show ?thesis by (simp add: Let_def)
  next
    case False
    with Suc.prems(2) have h: "\<not> delivered_in rid (sysDelivered y)" "gget (rrByID (sysR y)) rid \<noteq> None"
      "length P \<le> rsBase (sysS y) + Suc k" "\<forall>k < length P. rsSentAt (sysS y) ! k \<le> t" "0 < rsRto (sysS y)" "0 < rsWindow (sysS y)"
      by simp_all
    have "rsRto (sysS y) \<le> ?now - t" "t \<le> ?now" using h(5) by simp_all
    from lossless_round_progress [OF Suc.prems(1) h(1,2,4) this h(6), of iter] Suc.IH [of ?y ?now] h(3,5,6)
    show ?thesis by (auto simp: Let_def)
  qed
qed

definition done_ok :: "resSender \<Rightarrow> bool" where
  "done_ok s \<longleftrightarrow> rsDone s = (if rsFinished s then [None] else [])"

lemma fillWindow_keeps:
  assumes "fillWindowLocked now s = (s', fs)"
  shows "rsRto s' = rsRto s \<and> rsWindow s' = rsWindow s \<and> (done_ok s \<longrightarrow> done_ok s')"
  using fillWindow_props [OF assms] by (auto simp: done_ok_def)

lemma tick_keeps:
  assumes "retransmit_tick now now' s = (s', fs)"
  shows "rsRto s' = rsRto s \<and> rsWindow s' = rsWindow s \<and> (done_ok s \<longrightarrow> done_ok s')"
  using tick_props [OF assms] by (auto simp: done_ok_def)

lemma sender_Feed_keeps:
  assumes "sender_Feed now s f = (s', fs)"
  shows "rsRto s' = rsRto s \<and> rsWindow s' = rsWindow s \<and> (done_ok s \<longrightarrow> done_ok s')"
proof -
  have fin: "rsRto (res_finish None s) = rsRto s \<and> rsWindow (res_finish None s) = rsWindow s \<and>
      (done_ok s \<longrightarrow> done_ok (res_finish None s))" for s
    by (simp add: res_finish_def done_ok_def)
  have upd: "rsRto (s\<lparr>rsAcked := a, rsBase := b\<rparr>) = rsRto s \<and> rsWindow (s\<lparr>rsAcked := a, rsBase := b\<rparr>) = rsWindow s \<and>
      done_ok (s\<lparr>rsAcked := a, rsBase := b\<rparr>) = done_ok s" "done_ok (s\<lparr>rsAcked := a\<rparr>) = done_ok s" for a b
    by (simp_all add: done_ok_def)
  have ack: "onAck now s f = (s', fs) \<Longrightarrow> ?thesis"
    unfolding onAck_def Let_def
    by (auto split: if_splits dest!: fillWindow_keeps simp: fin done_ok_def res_finish_def)
  show ?thesis using assms ack fin [of s] unfolding sender_Feed_def by (auto split: if_splits)
qed

lemma to_receiver_sender: "sysS (fst (to_receiver sha256 iter now fs y)) = sysS y"
  by (induction fs arbitrary: y) (simp_all add: case_prod_unfold Let_def)

lemma to_sender_done: "done_ok (sysS y) \<Longrightarrow> done_ok (sysS (to_sender now cs y))"
proof (induction cs arbitrary: y)
  case (Cons c cs)
  obtain s fs where feed: "sender_Feed now (sysS y) c = (s, fs)" by (metis prod.exhaust)
  from sender_Feed_keeps [OF this] Cons.prems have "done_ok s" by simp
  then show ?case using Cons.IH [of "y\<lparr>sysS := s, sysToR := sysToR y \<union> set fs\<rparr>"] feed by simp
qed simp

lemma lossless_rounds_done: "done_ok (sysS y) \<Longrightarrow> done_ok (sysS (lossless_rounds sha256 iter t k y))"
proof (induction k arbitrary: t y)
  case (Suc k)
  let ?now = "t + rsRto (sysS y)"
  obtain s fs where tick: "retransmit_tick ?now ?now (sysS y) = (s, fs)" by (metis prod.exhaust)
  have "done_ok s" using tick_keeps [OF tick] Suc.prems by simp
  then have "done_ok (sysS (lossless_round sha256 iter ?now y))"
    using to_receiver_sender [of sha256 iter ?now fs "y\<lparr>sysS := s, sysToR := sysToR y \<union> set fs\<rparr>"] tick
    by (auto simp: lossless_round_def split: prod.splits intro!: to_sender_done)
  then show ?case using Suc.IH by (simp add: Let_def)
qed simp

lemma res_steps_keep:
  assumes "(res_step sha256 iter)\<^sup>*\<^sup>* y y'"
  shows "rsRto (sysS y') = rsRto (sysS y) \<and> rsWindow (sysS y') = rsWindow (sysS y)"
  using assms
proof (induction rule: rtranclp_induct)
  case (step y' y'')
  from step.hyps(2) have "rsRto (sysS y'') = rsRto (sysS y') \<and> rsWindow (sysS y'') = rsWindow (sysS y')"
  proof (cases rule: res_step.cases)
    case (Start now s fs)
    then show ?thesis using fillWindow_keeps by (auto simp: res_Start_def split: prod.splits)
  next
    case (Waits e s)
    then show ?thesis by (auto simp: res_Wait_def res_finish_def Let_def split: list.splits if_splits)
  qed (use tick_keeps sender_Feed_keeps in auto)
  then show ?case using step.IH by simp
qed simp

section \<open>Properties\<close>

text \<open>
  C3. Reliable transfer, safety. Over a link that loses, repeats and reorders frames at will, and that
  carries other resources too, whatever is delivered under the id of the resource is exactly its payload, and
  when \<^verbatim>\<open>Wait\<close> returns without an error the payload has been delivered.
\<close>

theorem resource_delivery:
  assumes "NewResourceSender sha256 rid data partSize window rto = Inr s" and "length data < 2 ^ 32"
    and "length rid = 16" and "length (sha256 data) = 32"
    and "gget (rrByID r) rid = None" and "gget (rrFinished r) rid = None"
    and "(res_step sha256 iter)\<^sup>*\<^sup>* (res_init s r) y"
  shows "(\<forall>d. (rid, d) \<in> set (sysDelivered y) \<longrightarrow> d = data) \<and>
     (\<forall>s'. res_Wait (sysS y) = Some (None, s') \<longrightarrow> (rid, data) \<in> set (sysDelivered y))"
proof -
  let ?P = "rsParts s" and ?dl = "delivered_in rid (sysDelivered y)"
  have P: "concat ?P = data" using NewResourceSender_props [OF assms(1,2)] by simp
  have inv: "res_inv sha256 rid ?P y" using res_inv_steps [OF assms(7) res_inv_init [OF assms(1-6)]] .
  then have d: "\<forall>d. (rid, d) \<in> set (sysDelivered y) \<longrightarrow> d = data" using P by (simp add: res_inv_def recv_inv_def)
  have si: "sender_inv rid ?P (sha256 data) ?dl (acks_of rid (length ?P) (sysToS y)) (sysS y)"
    using inv P by (simp add: res_inv_def)
  have "(rid, data) \<in> set (sysDelivered y)" if "res_Wait (sysS y) = Some (None, s')" for s'
    using sender_inv_wait [OF si that] d by auto
  then show ?thesis using d by blast
qed

definition toy_hash :: "bytes \<Rightarrow> bytes" where "toy_hash b = replicate 32 (word_of_nat (length b))"

definition toy_sender :: resSender where
  "toy_sender = projr (NewResourceSender toy_hash (replicate 16 7) [1, 2, 3] 2 0 0)"

lemma toy_sender_new: "NewResourceSender toy_hash (replicate 16 7) [1, 2, 3] 2 0 0 = Inr toy_sender"
  by (simp add: toy_sender_def NewResourceSender_def Let_def)

theorem resource_delivery_witness:
  "\<exists>y. (res_step toy_hash (\<lambda>m. m))\<^sup>*\<^sup>* (res_init toy_sender NewResourceReceiver) y \<and> sysToR y \<noteq> {} \<and>
     (\<forall>d. (replicate 16 7, d) \<in> set (sysDelivered y) \<longrightarrow> d = [1, 2, 3])"
proof -
  let ?ini = "res_init toy_sender NewResourceReceiver"
  obtain s fs where st: "res_Start 5 (sysS ?ini) = (s, fs)" by (metis prod.exhaust)
  let ?y = "?ini\<lparr>sysS := s, sysToR := sysToR ?ini \<union> set fs\<rparr>"
  have run: "(res_step toy_hash (\<lambda>m. m))\<^sup>*\<^sup>* ?ini ?y" by (rule r_into_rtranclp) (rule res_step.Start [OF st])
  have ne: "sysToR ?y \<noteq> {}" using st by (auto simp: res_Start_def split: prod.splits)
  have "length [1, 2, 3 :: byte] < 2 ^ 32" "length (replicate 16 7 :: bytes) = 16" "length (toy_hash [1, 2, 3]) = 32"
    "gget (rrByID NewResourceReceiver) (replicate 16 7) = None" "gget (rrFinished NewResourceReceiver) (replicate 16 7) = None"
    by (simp_all add: toy_hash_def NewResourceReceiver_def)
  from conjunct1 [OF resource_delivery [OF toy_sender_new this run]] show ?thesis using run ne by (intro exI [of _ ?y] conjI)
qed

text \<open>
  C6. Reliable transfer, progress. Once the advertisement has arrived, whatever was lost before, as many
  retransmission ticks as the resource has parts complete the transfer if nothing is lost from then on: \<^verbatim>\<open>Wait\<close>
  returns without an error and the payload has been delivered.
\<close>

theorem resource_completes:
  assumes "NewResourceSender sha256 rid data partSize window rto = Inr s" and "length data < 2 ^ 32"
    and "length rid = 16" and "length (sha256 data) = 32"
    and "gget (rrByID r) rid = None" and "gget (rrFinished r) rid = None"
    and "(res_step sha256 iter)\<^sup>*\<^sup>* (res_init s r) y"
    and "\<not> rsFinished (sysS y)" and "rid \<notin> fst ` set (sysDelivered y)"
    and "gget (rrByID (sysR y)) rid \<noteq> None" and "\<forall>k < length (rsParts s). rsSentAt (sysS y) ! k \<le> t"
  shows "let y' = lossless_rounds sha256 iter t (length (rsParts s)) y in
     (\<exists>s'. res_Wait (sysS y') = Some (None, s')) \<and> (rid, data) \<in> set (sysDelivered y')"
proof -
  let ?P = "rsParts s"
  let ?y = "lossless_rounds sha256 iter t (length ?P) y"
  have P: "concat ?P = data" "0 < rsRto s" "0 < rsWindow s" using NewResourceSender_props [OF assms(1,2)] by simp_all
  have inv: "res_inv sha256 rid ?P y" using res_inv_steps [OF assms(7) res_inv_init [OF assms(1-6)]] .
  have "done_ok (sysS y)" using inv assms(8) by (simp add: res_inv_def sender_inv_def done_ok_def)
  then have dn: "done_ok (sysS ?y)" by (rule lossless_rounds_done)
  have "0 < rsRto (sysS y)" "0 < rsWindow (sysS y)" using res_steps_keep [OF assms(7)] P(2,3) by (simp_all add: res_init_def)
  then have fin: "res_inv sha256 rid ?P ?y" "rsFinished (sysS ?y)"
    using lossless_rounds_finish [OF inv, of "length ?P" t iter] assms(9-11) by simp_all
  then have "None \<in> set (rsDone (sysS ?y))" using dn by (simp add: done_ok_def)
  then have "delivered_in rid (sysDelivered ?y)" "\<forall>d. (rid, d) \<in> set (sysDelivered ?y) \<longrightarrow> d = data"
    using fin(1) P(1) by (simp_all add: res_inv_def sender_inv_def recv_inv_def)
  then have "(rid, data) \<in> set (sysDelivered ?y)" by auto
  moreover have "\<exists>s'. res_Wait (sysS ?y) = Some (None, s')" using dn fin(2) by (simp add: res_Wait_def done_ok_def)
  ultimately show ?thesis by (simp add: Let_def)
qed

theorem resource_completes_witness:
  "\<exists>y. (res_step toy_hash (\<lambda>m. m))\<^sup>*\<^sup>* (res_init toy_sender NewResourceReceiver) y \<and>
     (replicate 16 7, [1, 2, 3]) \<in> set (sysDelivered (lossless_rounds toy_hash (\<lambda>m. m) 5 2 y))"
proof -
  let ?rid = "replicate 16 7 :: bytes" and ?ini = "res_init toy_sender NewResourceReceiver"
  obtain s fs where st: "res_Start 5 toy_sender = (s, fs)" by (metis prod.exhaust)
  obtain r cs ds where rc: "receiver_Feed toy_hash (\<lambda>m. m) 6 NewResourceReceiver (hd fs) = (r, cs, ds)" by (metis prod_cases3)
  have fs: "hd fs \<in> set fs" using st by (auto simp: res_Start_def split: prod.splits)
  let ?mid = "?ini\<lparr>sysS := s, sysToR := sysToR ?ini \<union> set fs\<rparr>"
  let ?y = "?mid\<lparr>sysR := r, sysToS := sysToS ?mid \<union> set cs, sysDelivered := sysDelivered ?mid @ ds\<rparr>"
  have "res_step toy_hash (\<lambda>m. m) ?ini ?mid" using st by (intro res_step.Start) (simp add: res_init_def)
  moreover have "res_step toy_hash (\<lambda>m. m) ?mid ?y"
    using rc fs by (intro res_step.ToReceiver) (simp_all add: res_init_def)
  ultimately have run: "(res_step toy_hash (\<lambda>m. m))\<^sup>*\<^sup>* ?ini ?y" by (rule converse_rtranclp_into_rtranclp [OF _ r_into_rtranclp])
  have "rsFinished (fst (res_Start 5 toy_sender)) = False" "rsSentAt (fst (res_Start 5 toy_sender)) = [5, 5]"
    "snd (snd (receiver_Feed toy_hash (\<lambda>m. m) 6 NewResourceReceiver (hd (snd (res_Start 5 toy_sender))))) = []"
    "\<not> Option.is_none (gget (rrByID (fst (receiver_Feed toy_hash (\<lambda>m. m) 6 NewResourceReceiver
        (hd (snd (res_Start 5 toy_sender)))))) (replicate 16 7))"
    by code_simp+
  note e = this
  have parts: "length (rsParts toy_sender) = 2" by code_simp
  have "length [1, 2, 3 :: byte] < 2 ^ 32" "length ?rid = 16" "length (toy_hash [1, 2, 3]) = 32"
    "gget (rrByID NewResourceReceiver) ?rid = None" "gget (rrFinished NewResourceReceiver) ?rid = None"
    by (simp_all add: toy_hash_def NewResourceReceiver_def)
  note pre = this
  have "\<not> rsFinished (sysS ?y)" "?rid \<notin> fst ` set (sysDelivered ?y)" "gget (rrByID (sysR ?y)) ?rid \<noteq> None"
    "\<forall>k < length (rsParts toy_sender). rsSentAt (sysS ?y) ! k \<le> 5"
    using e unfolding st rc parts by (simp_all add: res_init_def numeral_2_eq_2 less_Suc_eq rc Option.is_none_def)
  from conjunct2 [OF resource_completes [OF toy_sender_new pre run this, unfolded Let_def parts]] show ?thesis
    using run by (intro exI [of _ ?y] conjI)
qed

lemma onAdv_cases:
  obtains "onAdv r frame = r"
  | "onAdv r frame = r\<lparr>rrByID := gput (frameID frame) \<lparr>rvTotal = u32_at (1 + resIDLen) frame,
        rvWhole = take 32 (drop (1 + resIDLen + 8) frame), rvParts = replicate (u32_at (1 + resIDLen) frame) [],
        rvGot = replicate (u32_at (1 + resIDLen) frame) False, rvCount = 0, rvBase = 0, rvComplete = False\<rparr> (rrByID r)\<rparr>"
    "gget (rrByID r) (frameID frame) = None" "length (rrByID r) < rrLimit r" "0 < u32_at (1 + resIDLen) frame"
    "int (u32_at (1 + resIDLen) frame) \<le> maxResourceParts"
    "u32_at (1 + resIDLen + 4) frame = 0 \<or>
     int (u32_at (1 + resIDLen) frame) \<le> maxResourceBytes div int (u32_at (1 + resIDLen + 4) frame)"
proof (cases "length frame < resHdrAdv \<or> u32_at (1 + resIDLen) frame \<le> 0 \<or> int (u32_at (1 + resIDLen) frame) > maxResourceParts \<or>
    int (u32_at (1 + resIDLen + 4) frame) > maxResourcePartSize \<or>
    u32_at (1 + resIDLen + 4) frame > 0 \<and>
      int (u32_at (1 + resIDLen) frame) > maxResourceBytes div int (u32_at (1 + resIDLen + 4) frame) \<or>
    gget (rrByID r) (frameID frame) \<noteq> None \<or> length (rrByID r) \<ge> rrLimit r")
  case True
  then have "onAdv r frame = r" unfolding onAdv_def Let_def by (cases "gget (rrByID r) (frameID frame)") auto
  then show ?thesis by (rule that(1))
next
  case False
  then show ?thesis by (intro that(2)) (auto simp: onAdv_def Let_def)
qed

text \<open>
  C27. What a peer's advertisement can make the receiver allocate is bounded: an accepted one claims at most
  65536 parts and 256 MiB, it never disturbs another resource, and the number of resources being
  received never exceeds the limit.
\<close>

theorem advert_allocation_bounded:
  assumes "length (rrByID r) \<le> rrLimit r"
  shows "length (rrByID (onAdv r frame)) \<le> rrLimit r \<and>
     (\<forall>i. i \<noteq> frameID frame \<longrightarrow> gget (rrByID (onAdv r frame)) i = gget (rrByID r) i) \<and>
     (\<forall>st. gget (rrByID r) (frameID frame) = None \<and> gget (rrByID (onAdv r frame)) (frameID frame) = Some st \<longrightarrow>
        0 < rvTotal st \<and> int (rvTotal st) \<le> maxResourceParts \<and>
        int (rvTotal st) * int (u32_at 21 frame) \<le> maxResourceBytes \<and>
        length (rvParts st) = rvTotal st \<and> length (rvGot st) = rvTotal st)"
proof (cases rule: onAdv_cases [of r frame])
  case 2
  let ?t = "int (u32_at (1 + resIDLen) frame)" and ?p = "int (u32_at (1 + resIDLen + 4) frame)"
  have "?t * ?p \<le> maxResourceBytes"
  proof (cases "?p = 0")
    case False
    then have "?t * ?p \<le> maxResourceBytes div ?p * ?p" using 2(6) by (intro mult_right_mono) simp_all
    moreover have "maxResourceBytes div ?p * ?p \<le> maxResourceBytes"
      using False div_mult_mod_eq [of maxResourceBytes ?p] pos_mod_sign [of ?p maxResourceBytes] by linarith
    ultimately show ?thesis by linarith
  qed (simp add: maxResourceBytes_def)
  moreover have "length (gput (frameID frame) st (rrByID r)) \<le> rrLimit r" for st
    using 2(2,3) by (simp add: length_gput)
  ultimately show ?thesis using 2 by (simp add: res_consts)
qed (use assms in auto)

theorem advert_allocation_bounded_witness:
  "length (rrByID (onAdv NewResourceReceiver (encodeAdv (replicate 16 7) 4294967295 1 (replicate 32 0)))) \<le> 256"
proof -
  have "length (rrByID NewResourceReceiver) \<le> rrLimit NewResourceReceiver" by (simp add: NewResourceReceiver_def)
  from conjunct1 [OF advert_allocation_bounded [OF this]] show ?thesis by (simp add: NewResourceReceiver_def maxInflightMessages_def)
qed

section \<open>Receiving without the sender\<close>

text \<open>Frames fed one after the other: the receiver, all answers and all deliveries.\<close>

fun feed_frames :: "(bytes \<Rightarrow> bytes) \<Rightarrow> ((bytes \<times> int) list \<Rightarrow> (bytes \<times> int) list) \<Rightarrow> int \<Rightarrow> bytes list \<Rightarrow> resReceiver \<Rightarrow>
    resReceiver \<times> bytes list \<times> (bytes \<times> bytes) list" where
  "feed_frames sha256 iter now [] r = (r, [], [])"
| "feed_frames sha256 iter now (f # fs) r =
     (let (r, cs, ds) = receiver_Feed sha256 iter now r f; (r, cs', ds') = feed_frames sha256 iter now fs r
      in (r, cs @ cs', ds @ ds'))"

lemma feed_frames_append:
  "feed_frames sha256 iter now (fs @ gs) r =
     (let (r, cs, ds) = feed_frames sha256 iter now fs r; (r, cs', ds') = feed_frames sha256 iter now gs r in (r, cs @ cs', ds @ ds'))"
  by (induction fs arbitrary: r) (simp_all add: Let_def case_prod_beta)

definition adv_fits :: "bytes list \<Rightarrow> nat \<Rightarrow> bool" where
  "adv_fits P ps \<longleftrightarrow> P \<noteq> [] \<and> length P \<le> 2 ^ 16 \<and> ps \<le> 2 ^ 20 \<and> length P * ps \<le> 256 * 2 ^ 20"

text \<open>An advertisement within the limits is accepted when the resource is unknown and there is room, whatever was finished before.\<close>

lemma receiver_accepts:
  assumes "length rid = 16" "length whole = 32" "adv_fits P ps" "gget (rrByID r) rid = None" "length (rrByID r) < rrLimit r"
  obtains st where "receiver_Feed sha256 iter now r (encodeAdv rid (u32_len P) (word_of_nat ps) whole) =
      (r\<lparr>rrByID := gput rid st (rrByID r)\<rparr>, [], [])" "st_ok P whole st" "rvCount st = 0" "\<forall>k < length P. \<not> rvGot st ! k"
proof -
  let ?f = "encodeAdv rid (u32_len P) (word_of_nat ps) whole"
  let ?st = "\<lparr>rvTotal = length P, rvWhole = whole, rvParts = replicate (length P) [],
     rvGot = replicate (length P) False, rvCount = 0, rvBase = 0, rvComplete = False\<rparr>"
  have len: "0 < length P" "length P \<le> 2 ^ 16" "ps \<le> 2 ^ 20" "length P * ps \<le> 256 * 2 ^ 20" using assms(3) by (simp_all add: adv_fits_def)
  have d17: "drop 17 ?f = put_u32 (u32_len P) @ put_u32 (word_of_nat ps) @ whole" using assms(1) by (simp add: encodeAdv_def)
  have u: "u32_at (1 + resIDLen) ?f = length P" using len d17 by (simp add: u32_at_def res_consts unat_u32_len)
  have p: "u32_at (1 + resIDLen + 4) ?f = ps"
    using arg_cong [OF d17, of "drop 4"] len by (simp add: u32_at_def res_consts unat_of_nat)
  have w: "take 32 (drop (1 + resIDLen + 8) ?f) = whole" using arg_cong [OF d17, of "drop 8"] assms(2) by (simp add: res_consts)
  have "int (length P) * int ps \<le> 256 * 2 ^ 20" using len(4) by (metis of_nat_le_iff of_nat_mult of_nat_numeral of_nat_power)
  then have "\<not> int (length P) > maxResourceBytes div int ps" if "0 < ps"
    using that zdiv_mono1 [of "int (length P) * int ps" "256 * 2 ^ 20" "int ps"] by (simp add: maxResourceBytes_def)
  then have "onAdv r ?f = r\<lparr>rrByID := gput rid ?st (rrByID r)\<rparr>"
    unfolding onAdv_def u p w Let_def using assms(1,2,4,5) len
    by (auto simp: res_consts maxResourceParts_def maxResourcePartSize_def)
  then have "receiver_Feed sha256 iter now r ?f = (r\<lparr>rrByID := gput rid ?st (rrByID r)\<rparr>, [], [])"
    using assms(1,2) by (simp add: receiver_Feed_def res_consts)
  moreover have "{k. k < length P \<and> replicate (length P) False ! k} = {}" by auto
  then have "st_ok P whole ?st" using len(1) by (simp add: st_ok_def)
  ultimately show ?thesis using that [of ?st] by simp
qed

text \<open>The acknowledgement of a receiver that has every part.\<close>

lemma full_ack: "st_ok P whole st \<Longrightarrow> rvCount st = length P \<Longrightarrow>
    encodeAck rid (word_of_nat (rvBase st)) (ackBitmapLocked st) = encodeAck rid (word_of_nat (length P)) []"
  using st_ok_all(1) [of P whole st] by (simp add: ackBitmapLocked_def st_ok_def)

text \<open>Parts of a resource the receiver does not know change nothing.\<close>

lemma feed_unknown:
  assumes "length rid = 16" "length P < 2 ^ 32" "gget (rrByID r) rid = None" "set ks \<subseteq> {..<length P}"
  shows "\<exists>cs. feed_frames sha256 iter now (map (part_frame rid P) ks) r = (r, cs, [])"
  using assms(4)
proof (induction ks)
  case (Cons k ks)
  then have "k < 2 ^ 32" using assms(2) by simp
  then show ?case using Cons assms(3) onPart_part [OF assms(1), of k sha256 iter now r P] by (auto simp: Let_def)
qed simp

text \<open>A receiver with every part of a payload whose hash is wrong: nothing that arrives for that resource changes it.\<close>

lemma feed_stuck:
  assumes "length rid = 16" "gget (rrByID r) rid = Some st" "st_ok P whole st" "rvCount st = length P" "sha256 (concat P) \<noteq> whole"
    and "\<forall>g \<in> set gs. frameID g = rid"
  shows "\<exists>r' cs. feed_frames sha256 iter now gs r = (r', cs, []) \<and> gget (rrByID r') rid = Some st \<and> rrLimit r' = rrLimit r \<and>
     set cs \<subseteq> {encodeAck rid (word_of_nat (length P)) []}"
  using assms(2,6)
proof (induction gs arbitrary: r)
  case (Cons g gs)
  have i: "frameID g = rid" using Cons.prems(2) by simp
  have st: "recv_store st j d = st" if "j < rvTotal st" for j d
  proof -
    have "rvGot st ! j" using st_ok_all(1) [OF assms(3)] assms(3,4) that by (simp add: st_ok_def)
    then show ?thesis by (simp add: recv_store_def)
  qed
  have wrong: "sha256 (assembleLocked st) \<noteq> rvWhole st" using st_ok_all(2) [OF assms(3,4)] assms(3,5) by (simp add: st_ok_def)
  have "\<exists>r' cs. receiver_Feed sha256 iter now r g = (r', cs, []) \<and> gget (rrByID r') rid = Some st \<and> rrLimit r' = rrLimit r \<and>
      set cs \<subseteq> {encodeAck rid (word_of_nat (length P)) []}"
    using Cons.prems(1) st wrong full_ack [OF assms(3,4), of rid]
    by (auto simp: receiver_Feed_def onAdv_def onPart_def i Let_def)
  then obtain r' cs where r': "receiver_Feed sha256 iter now r g = (r', cs, [])" "gget (rrByID r') rid = Some st" "rrLimit r' = rrLimit r"
    "set cs \<subseteq> {encodeAck rid (word_of_nat (length P)) []}" by blast
  from Cons.IH [OF r'(2)] Cons.prems(2) r' show ?case by (auto simp: Let_def)
qed simp

lemma feed_parts:
  assumes "length rid = 16" "length P < 2 ^ 32" "gget (rrByID r) rid = Some st" "st_ok P whole st" "rvCount st < length P"
    and "set ks \<subseteq> {..<length P}" "{k. k < length P \<and> \<not> rvGot st ! k} \<subseteq> set ks" "gmap_ok (rrByID r)"
  shows "\<exists>r' cs ds. feed_frames sha256 iter now (map (part_frame rid P) ks) r = (r', cs, ds) \<and> rrLimit r' = rrLimit r \<and>
     encodeAck rid (word_of_nat (length P)) [] \<in> set cs \<and>
     (if sha256 (concat P) = whole
      then ds = [(rid, concat P)] \<and> gget (rrByID r') rid = None \<and> length (rrByID r') < length (rrByID r) \<and> gmap_ok (rrByID r')
      else ds = [] \<and> (\<exists>st'. gget (rrByID r') rid = Some st' \<and> st_ok P whole st' \<and> rvCount st' = length P))"
  using assms(3-8)
proof (induction ks arbitrary: r st)
  case Nil
  then have "rvBase st < length P" using st_ok_all(1) [OF Nil(2)] by (simp add: st_ok_def)
  then show ?case using Nil(2,5) by (auto simp: st_ok_def)
next
  case (Cons k ks)
  have k: "k < length P" "k < 2 ^ 32" "k < rvTotal st" using Cons.prems(2,4) assms(2) by (auto simp: st_ok_def)
  let ?st = "recv_store st k (P ! k)"
  note store = recv_store_ok [OF Cons.prems(2) k(1)]
  have ok: "st_ok P whole ?st" "rvTotal ?st = length P" "\<not> rvComplete ?st" "rvWhole ?st = whole"
    using store by (simp_all add: st_ok_def)
  note feed = onPart_part [OF assms(1) k(2), of sha256 iter now r P]
  let ?r = "r\<lparr>rrByID := gput rid ?st (rrByID r)\<rparr>"
  consider "rvCount ?st < length P" | "rvCount ?st = length P" "sha256 (concat P) = whole"
    | "rvCount ?st = length P" "sha256 (concat P) \<noteq> whole"
    using st_ok_all(3) [OF ok(1)] by linarith
  then show ?case
  proof cases
    case 1
    have f: "receiver_Feed sha256 iter now r (part_frame rid P k) = (?r, [encodeAck rid (word_of_nat (rvBase ?st)) (ackBitmapLocked ?st)], [])"
      using feed Cons.prems(1) k(3) 1 ok(2) by (simp add: Let_def)
    have "{j. j < length P \<and> \<not> rvGot ?st ! j} \<subseteq> set ks" using store Cons.prems(5) by auto
    then show ?thesis using Cons.IH [of ?r ?st] Cons.prems(1,4,6) ok(1) 1 f by (auto simp: Let_def length_gput split: if_splits)
  next
    case 2
    let ?d = "r\<lparr>rrByID := gdel rid (rrByID r), rrFinished := rememberFinishedLocked iter now rid (rrFinished r)\<rparr>"
    have f: "receiver_Feed sha256 iter now r (part_frame rid P k) = (?d, [encodeAck rid (word_of_nat (length P)) [], encodeDone rid], [(rid, concat P)])"
      using feed Cons.prems(1) k(3) 2 ok st_ok_all(2) [OF ok(1)] full_ack [OF ok(1)] by (simp add: Let_def)
    obtain cs where "feed_frames sha256 iter now (map (part_frame rid P) ks) ?d = (?d, cs, [])"
      using feed_unknown [OF assms(1,2), of ?d ks sha256 iter now] Cons.prems(4) by auto
    moreover have "0 < length (rrByID r)" using Cons.prems(1) by (cases "rrByID r") (simp_all add: gget_def)
    ultimately show ?thesis using f 2 Cons.prems(1,6) by (simp add: length_gdel)
  next
    case 3
    have f: "receiver_Feed sha256 iter now r (part_frame rid P k) = (?r, [encodeAck rid (word_of_nat (length P)) []], [])"
      using feed Cons.prems(1) k(3) 3 ok st_ok_all(2) [OF ok(1)] full_ack [OF ok(1)] by (simp add: Let_def)
    have "\<forall>g \<in> set (map (part_frame rid P) ks). frameID g = rid" using assms(1) by (simp add: part_frame_def)
    moreover have "gget (rrByID ?r) rid = Some ?st" by simp
    ultimately obtain r' cs where "feed_frames sha256 iter now (map (part_frame rid P) ks) ?r = (r', cs, [])"
      "gget (rrByID r') rid = Some ?st" "rrLimit r' = rrLimit ?r"
      using feed_stuck [OF assms(1) _ ok(1) 3(1), of ?r sha256 "map (part_frame rid P) ks" iter now] 3(2) by blast
    then show ?thesis using f 3 ok(1) by simp
  qed
qed

text \<open>The frames of a resource: the advertisement and every part, in any order, repeated or not.\<close>

definition resource_frames :: "bytes \<Rightarrow> bytes list \<Rightarrow> nat \<Rightarrow> bytes \<Rightarrow> nat list \<Rightarrow> bytes list" where
  "resource_frames rid P ps whole ks = encodeAdv rid (u32_len P) (word_of_nat ps) whole # map (part_frame rid P) ks"

lemma feed_resource:
  assumes "length rid = 16" "length whole = 32" "adv_fits P ps" "set ks = {..<length P}"
    and "gget (rrByID r) rid = None" "length (rrByID r) < rrLimit r" "gmap_ok (rrByID r)"
  shows "\<exists>r' cs ds. feed_frames sha256 iter now (resource_frames rid P ps whole ks) r = (r', cs, ds) \<and> rrLimit r' = rrLimit r \<and>
     encodeAck rid (word_of_nat (length P)) [] \<in> set cs \<and>
     (if sha256 (concat P) = whole
      then ds = [(rid, concat P)] \<and> gget (rrByID r') rid = None \<and> length (rrByID r') \<le> length (rrByID r) \<and> gmap_ok (rrByID r')
      else ds = [] \<and> (\<exists>st'. gget (rrByID r') rid = Some st' \<and> st_ok P whole st' \<and> rvCount st' = length P))"
proof -
  have n: "length P < 2 ^ 32" "0 < length P" using assms(3) by (auto simp: adv_fits_def)
  obtain st where st: "receiver_Feed sha256 iter now r (encodeAdv rid (u32_len P) (word_of_nat ps) whole) =
      (r\<lparr>rrByID := gput rid st (rrByID r)\<rparr>, [], [])" "st_ok P whole st" "rvCount st = 0" "\<forall>k < length P. \<not> rvGot st ! k"
    using receiver_accepts [OF assms(1-3,5,6), of sha256 iter now] by blast
  let ?r = "r\<lparr>rrByID := gput rid st (rrByID r)\<rparr>"
  have "{k. k < length P \<and> \<not> rvGot st ! k} \<subseteq> set ks" "set ks \<subseteq> {..<length P}" using assms(4) by auto
  note parts = feed_parts [OF assms(1) n(1) _ st(2) _ this(2,1), of ?r sha256 iter now]
  have len: "length (gput rid st (rrByID r)) = length (rrByID r) + 1" using assms(5) by (simp add: length_gput)
  obtain r' cs ds where "feed_frames sha256 iter now (map (part_frame rid P) ks) ?r = (r', cs, ds)" "rrLimit r' = rrLimit ?r"
     "encodeAck rid (word_of_nat (length P)) [] \<in> set cs"
     "if sha256 (concat P) = whole
      then ds = [(rid, concat P)] \<and> gget (rrByID r') rid = None \<and> length (rrByID r') < length (rrByID ?r) \<and> gmap_ok (rrByID r')
      else ds = [] \<and> (\<exists>st'. gget (rrByID r') rid = Some st' \<and> st_ok P whole st' \<and> rvCount st' = length P)"
    using parts n(2) st(3) assms(7) by auto
  then show ?thesis using st(1) len by (auto simp: resource_frames_def Let_def split: if_splits)
qed

lemma full_ack_finishes:
  assumes "length (rsId s) = 16" "length (rsParts s) < 2 ^ 32" "\<not> rsFinished s"
  shows "rsDone (fst (sender_Feed now s (encodeAck (rsId s) (word_of_nat (length (rsParts s))) []))) = rsDone s @ [None]"
  using assms onAck_encodeAck [OF assms(1,2), of "[]" now]
  by (simp add: sender_Feed_def res_consts res_finish_def Let_def)

text \<open>
  C28. Two boundary behaviours of the receiver. When every part is in, in any order, but the payload does not have the advertised hash,
  the receiver still acknowledges every part, and that acknowledgement makes a sender report success although nothing
  was delivered; no frame of that resource that arrives later, valid or not, delivers anything any more. And an
  advertisement that arrives again after completion starts the resource anew, so the same frames, received again, deliver the payload a second time.
\<close>

theorem resource_receiver_boundaries:
  assumes "length rid = 16" and "length whole = 32" and "adv_fits P ps" and "set ks = {..<length P}"
    and "gget (rrByID r) rid = None" and "length (rrByID r) < rrLimit r" and "gmap_ok (rrByID r)"
  shows "let fs = resource_frames rid P ps whole ks; full = encodeAck rid (word_of_nat (length P)) [] in
     (sha256 (concat P) \<noteq> whole \<longrightarrow> full \<in> set (fst (snd (feed_frames sha256 iter now fs r))) \<and>
        (\<forall>s. rsId s = rid \<and> length (rsParts s) = length P \<and> \<not> rsFinished s \<longrightarrow> rsDone (fst (sender_Feed now s full)) = rsDone s @ [None]) \<and>
        (\<forall>gs. (\<forall>g \<in> set gs. frameID g = rid) \<longrightarrow> snd (snd (feed_frames sha256 iter now (fs @ gs) r)) = [])) \<and>
     (sha256 (concat P) = whole \<longrightarrow>
        snd (snd (feed_frames sha256 iter now (fs @ fs) r)) = [(rid, concat P), (rid, concat P)])"
proof -
  let ?fs = "resource_frames rid P ps whole ks"
  have n: "length P < 2 ^ 32" using assms(3) by (auto simp: adv_fits_def)
  note round = feed_resource [OF assms(1-4), of _ sha256 iter now]
  obtain r' cs ds where one: "feed_frames sha256 iter now ?fs r = (r', cs, ds)" "rrLimit r' = rrLimit r"
    "encodeAck rid (word_of_nat (length P)) [] \<in> set cs"
    and alt: "if sha256 (concat P) = whole
      then ds = [(rid, concat P)] \<and> gget (rrByID r') rid = None \<and> length (rrByID r') \<le> length (rrByID r) \<and> gmap_ok (rrByID r')
      else ds = [] \<and> (\<exists>st'. gget (rrByID r') rid = Some st' \<and> st_ok P whole st' \<and> rvCount st' = length P)"
    using round [OF assms(5-7)] by blast
  have fin: "rsDone (fst (sender_Feed now s (encodeAck rid (word_of_nat (length P)) []))) = rsDone s @ [None]"
    if "rsId s = rid" "length (rsParts s) = length P" "\<not> rsFinished s" for s
    using full_ack_finishes [of s now] that assms(1) n by simp
  have stuck: "snd (snd (feed_frames sha256 iter now (?fs @ gs) r)) = []"
    if gs: "sha256 (concat P) \<noteq> whole" "\<forall>g \<in> set gs. frameID g = rid" for gs
  proof -
    obtain st where st: "ds = []" "gget (rrByID r') rid = Some st" "st_ok P whole st" "rvCount st = length P" using alt gs(1) by auto
    obtain r'' cs' where "feed_frames sha256 iter now gs r' = (r'', cs', [])"
      using feed_stuck [OF assms(1) st(2-4), of sha256 gs iter now] gs by blast
    then show ?thesis using one(1) st(1) by (simp add: feed_frames_append)
  qed
  have twice: "snd (snd (feed_frames sha256 iter now (?fs @ ?fs) r)) = [(rid, concat P), (rid, concat P)]" if same: "sha256 (concat P) = whole"
  proof -
    have r': "ds = [(rid, concat P)]" "gget (rrByID r') rid = None" "length (rrByID r') < rrLimit r'" "gmap_ok (rrByID r')"
      using alt same one(2) assms(6) by auto
    from round [OF r'(2-4)] obtain r'' cs' where "feed_frames sha256 iter now ?fs r' = (r'', cs', [(rid, concat P)])" using same by auto
    then show ?thesis using one(1) r'(1) by (simp add: feed_frames_append)
  qed
  show ?thesis using one(1,3) fin stuck twice by (simp add: Let_def)
qed

theorem resource_receiver_boundaries_witness:
  "snd (snd (feed_frames toy_hash (\<lambda>m. m) 0 (resource_frames (replicate 16 7) [[1, 2], [3]] 2 (toy_hash [1, 2, 3]) [1, 0] @
       resource_frames (replicate 16 7) [[1, 2], [3]] 2 (toy_hash [1, 2, 3]) [1, 0]) NewResourceReceiver)) =
     [(replicate 16 7, [1, 2, 3]), (replicate 16 7, [1, 2, 3])] \<and>
   snd (snd (feed_frames toy_hash (\<lambda>m. m) 0 (resource_frames (replicate 16 7) [[1, 2], [3]] 2 (replicate 32 9) [1, 0] @
       resource_frames (replicate 16 7) [[1, 2], [3]] 2 (toy_hash [1, 2, 3]) [1, 0]) NewResourceReceiver)) = []"
proof -
  let ?rid = "replicate 16 7 :: bytes" and ?P = "[[1, 2], [3 :: byte]]"
  have pre: "length ?rid = 16" "length (toy_hash [1, 2, 3]) = 32" "length (replicate 32 9 :: bytes) = 32" "adv_fits ?P 2"
    "set [1, 0] = {..<length ?P}" "gget (rrByID NewResourceReceiver) ?rid = None"
    "length (rrByID NewResourceReceiver) < rrLimit NewResourceReceiver" "gmap_ok (rrByID NewResourceReceiver)"
    by (auto simp: toy_hash_def adv_fits_def NewResourceReceiver_def maxInflightMessages_def gmap_ok_def)
  have ids: "\<forall>g \<in> set (resource_frames ?rid ?P 2 (toy_hash [1, 2, 3]) [1, 0]). frameID g = ?rid"
    by (simp add: resource_frames_def part_frame_def)
  have h: "toy_hash (concat ?P) = toy_hash [1, 2, 3]" "toy_hash (concat ?P) \<noteq> replicate 32 9" by (simp_all add: toy_hash_def)
  note good = resource_receiver_boundaries [OF pre(1,2,4-8), of toy_hash "\<lambda>m. m" 0, unfolded Let_def, THEN conjunct2, rule_format, OF h(1)]
  note bad = resource_receiver_boundaries [OF pre(1,3,4-8), of toy_hash "\<lambda>m. m" 0, unfolded Let_def, THEN conjunct1, rule_format, OF h(2),
      THEN conjunct2, THEN conjunct2, rule_format, OF ids [rule_format]]
  show ?thesis using good bad by simp
qed

end
