(* ===== verification/PathTable.thy ===== *)
theory PathTable
  imports Announce
begin

text \<open>
  The path table and the flood deduplication of \<^verbatim>\<open>internal/discovery/announce.go\<close>: for every destination
  the best path heard of, bounded with eviction of the entry that was seen longest ago, and the set of
  flood keys seen lately.

  A \<^verbatim>\<open>time.Time\<close> is a number of nanoseconds. An origin timestamp is an int64, kept as the integer its
  64 bits denote.
\<close>

section \<open>Paths\<close>

definition announceHopMax :: int where "announceHopMax = 128"
definition requestHopMax :: int where "requestHopMax = 128"
definition announceDedupTTL :: int where "announceDedupTTL = 5 * 60 * 1000000000"
definition maxPaths :: nat where "maxPaths = 4096"

record pathEntry =
  peIface :: string
  peNextHop :: string
  peHops :: byte
  peLastSeen :: int
  peOriginTS :: int
  peAnn :: "announcePayload option"

record pathTable =
  ptEntries :: "(string, pathEntry) gomap"
  ptMax :: nat

definition newPathTable :: "nat \<Rightarrow> pathTable" where
  "newPathTable mx = \<lparr>ptEntries = [], ptMax = mx\<rparr>"

definition seen_before :: "string \<times> pathEntry \<Rightarrow> string \<times> pathEntry \<Rightarrow> bool" where
  "seen_before x y \<longleftrightarrow> peLastSeen (snd x) < peLastSeen (snd y)"

definition evictOldestLocked ::
  "((string \<times> pathEntry) list \<Rightarrow> (string \<times> pathEntry) list) \<Rightarrow> (string, pathEntry) gomap \<Rightarrow> (string, pathEntry) gomap" where
  "evictOldestLocked iter m =
     (let oldestKey = (case pick_least seen_before None (iter m) of None \<Rightarrow> '''' | Some x \<Rightarrow> fst x)
      in if oldestKey \<noteq> '''' then gdel oldestKey m else m)"

definition path_update ::
  "((string \<times> pathEntry) list \<Rightarrow> (string \<times> pathEntry) list) \<Rightarrow> pathTable \<Rightarrow> string \<Rightarrow> pathEntry \<Rightarrow> pathTable \<times> bool" where
  "path_update iter pt dest e =
     (let store = (let m = gput dest e (ptEntries pt);
                       m = (if length m > ptMax pt then evictOldestLocked iter m else m)
                   in (pt\<lparr>ptEntries := m\<rparr>, True))
      in case gget (ptEntries pt) dest of
           Some cur \<Rightarrow>
             if peOriginTS e < peOriginTS cur then (pt, False)
             else if peOriginTS e = peOriginTS cur \<and> peHops e \<ge> peHops cur
             then (pt\<lparr>ptEntries := gput dest (cur\<lparr>peLastSeen := peLastSeen e\<rparr>) (ptEntries pt)\<rparr>, False)
             else store
         | None \<Rightarrow> store)"

definition path_lookup :: "pathTable \<Rightarrow> string \<Rightarrow> pathEntry option" where
  "path_lookup pt dest = gget (ptEntries pt) dest"

section \<open>Deduplication\<close>

record dedupSet =
  dsSeen :: "(string, int) gomap"
  dsTTL :: int

definition newDedupSet :: "int \<Rightarrow> dedupSet" where
  "newDedupSet ttl = \<lparr>dsSeen = [], dsTTL = ttl\<rparr>"

definition observe :: "int \<Rightarrow> dedupSet \<Rightarrow> string \<Rightarrow> dedupSet \<times> bool" where
  "observe now d key =
     (if (case gget (dsSeen d) key of Some t \<Rightarrow> now - t < dsTTL d | None \<Rightarrow> False) then (d, True)
      else let m = (if length (dsSeen d) > 8192 then filter (\<lambda>e. \<not> now - snd e \<ge> dsTTL d) (dsSeen d) else dsSeen d)
           in (d\<lparr>dsSeen := gput key now m\<rparr>, False))"

fun u64hex_loop :: "nat \<Rightarrow> u64 \<Rightarrow> string \<Rightarrow> string" where
  "u64hex_loop 0 n buf = buf"
| "u64hex_loop (Suc k) n buf =
     u64hex_loop k (drop_bit 4 n) (''0123456789abcdef'' ! unat (n AND 15) # buf)"

definition u64hex :: "u64 \<Rightarrow> string" where
  "u64hex n = u64hex_loop 16 n []"

text \<open>The keys under which \<^verbatim>\<open>handleAnnounce\<close> and \<^verbatim>\<open>handlePathRequest\<close> remember a flood.\<close>

definition announce_key :: "string \<Rightarrow> u64 \<Rightarrow> string" where
  "announce_key dest nonce = dest @ '':'' @ u64hex nonce"

definition request_key :: "string \<Rightarrow> u64 \<Rightarrow> string" where
  "request_key dest nonce = ''REQ:'' @ dest @ '':'' @ u64hex nonce"

section \<open>Lemmas\<close>

lemma gput_not_Nil [simp]: "gput k v m \<noteq> []"
  by (cases m) (auto simp: gput_def)

interpretation lru: comparison seen_before
  by unfold_locales (simp_all add: seen_before_def)

definition path_ok :: "pathTable \<Rightarrow> bool" where
  "path_ok pt \<longleftrightarrow> gmap_ok (ptEntries pt) \<and> length (ptEntries pt) \<le> ptMax pt \<and> gget (ptEntries pt) '''' = None"

text \<open>Entry \<open>a\<close> is a better path than \<open>b\<close>: a newer announce, or the same one over fewer hops.\<close>

definition better :: "pathEntry \<Rightarrow> pathEntry \<Rightarrow> bool" where
  "better a b \<longleftrightarrow> peOriginTS a > peOriginTS b \<or> peOriginTS a = peOriginTS b \<and> peHops a < peHops b"

lemma evictOldest_props:
  assumes "range_order iter" "gmap_ok m" "gget m '''' = None" "m \<noteq> []"
  obtains k e where "gget m k = Some e" "evictOldestLocked iter m = gdel k m"
    "\<forall>j f. gget m j = Some f \<longrightarrow> peLastSeen e \<le> peLastSeen f"
proof -
  obtain x where x: "pick_least seen_before None (iter m) = Some x"
    using assms(4) range_order_length [OF assms(1), of m] by (cases "pick_least seen_before None (iter m)") auto
  have "x \<in> set m" using pick_least_in [OF x] range_order_set [OF assms(1), of m] by simp
  then have k: "gget m (fst x) = Some (snd x)" using assms(2) by (simp add: gget_Some_iff)
  then have "fst x \<noteq> ''''" using assms(3) by auto
  then have "evictOldestLocked iter m = gdel (fst x) m" by (simp add: evictOldestLocked_def x)
  moreover have "peLastSeen (snd x) \<le> peLastSeen f" if "gget m j = Some f" for j f
  proof -
    have "(j, f) \<in> set (iter m)" using gget_SomeD [OF that] range_order_set [OF assms(1), of m] by simp
    then have "\<not> seen_before (j, f) x" using lru.pick_least_min [OF x] by blast
    then show ?thesis by (simp add: seen_before_def)
  qed
  ultimately show ?thesis using k by (intro that) auto
qed

lemma path_update_cases:
  obtains (stale) cur where "gget (ptEntries pt) dest = Some cur" "\<not> better e cur" "peOriginTS e < peOriginTS cur"
      "path_update iter pt dest e = (pt, False)"
  | (refresh) cur where "gget (ptEntries pt) dest = Some cur" "\<not> better e cur" "peOriginTS e = peOriginTS cur"
      "path_update iter pt dest e = (pt\<lparr>ptEntries := gput dest (cur\<lparr>peLastSeen := peLastSeen e\<rparr>) (ptEntries pt)\<rparr>, False)"
  | (store) "\<And>cur. gget (ptEntries pt) dest = Some cur \<Longrightarrow> better e cur"
      "path_update iter pt dest e = (pt\<lparr>ptEntries := (let m = gput dest e (ptEntries pt) in
         if length m > ptMax pt then evictOldestLocked iter m else m)\<rparr>, True)"
proof (cases "gget (ptEntries pt) dest")
  case None
  then show ?thesis by (intro store) (simp_all add: path_update_def Let_def)
next
  case (Some cur)
  consider "peOriginTS e < peOriginTS cur" | "peOriginTS e = peOriginTS cur" "peHops e \<ge> peHops cur"
    | "\<not> peOriginTS e < peOriginTS cur" "\<not> (peOriginTS e = peOriginTS cur \<and> peHops e \<ge> peHops cur)"
    by linarith
  then show ?thesis
  proof cases
    case 1
    then show ?thesis using Some by (intro stale [of cur]) (auto simp: path_update_def better_def)
  next
    case 2
    then show ?thesis using Some by (intro refresh [of cur]) (auto simp: path_update_def better_def)
  next
    case 3
    then show ?thesis using Some by (intro store) (auto simp: path_update_def better_def Let_def)
  qed
qed

lemma path_update_ok:
  assumes "range_order iter" "path_ok pt" "dest \<noteq> ''''"
  shows "path_ok (fst (path_update iter pt dest e)) \<and> ptMax (fst (path_update iter pt dest e)) = ptMax pt"
proof (cases rule: path_update_cases [of pt dest e iter])
  case (stale cur)
  then show ?thesis using assms(2) by simp
next
  case (refresh cur)
  then show ?thesis using assms(2,3) by (simp add: path_ok_def length_gput)
next
  case store
  let ?m = "gput dest e (ptEntries pt)"
  have m: "gmap_ok ?m" "gget ?m '''' = None" "?m \<noteq> []" "gmap_ok (ptEntries pt)" "length (ptEntries pt) \<le> ptMax pt"
    using assms(2,3) by (simp_all add: path_ok_def)
  show ?thesis
  proof (cases "length ?m > ptMax pt")
    case True
    obtain k f where k: "gget ?m k = Some f" "evictOldestLocked iter ?m = gdel k ?m"
      by (rule evictOldest_props [OF assms(1) m(1-3)])
    then have "length (gdel k ?m) \<le> ptMax pt" using gm.put_then_evict [OF m(4,5), of dest e k] by simp
    then show ?thesis using store(2) True k m by (simp add: path_ok_def Let_def)
  qed (use store(2) m in \<open>simp add: path_ok_def Let_def\<close>)
qed

lemma length_u64hex_loop: "length (u64hex_loop k n buf) = k + length buf"
  by (induction k arbitrary: n buf) simp_all

lemma hex_digit_nibble:
  assumes "''0123456789abcdef'' ! unat (n AND 15) = ''0123456789abcdef'' ! unat (m AND 15)"
  shows "n AND 15 = (m AND 15 :: u64)"
proof -
  have "distinct ''0123456789abcdef''" by simp
  moreover have "unat (x AND 15 :: u64) < length ''0123456789abcdef''" for x
  proof -
    have "x AND 15 \<le> (15 :: u64)" by (rule word_and_le1)
    then have "unat (x AND 15) \<le> unat (15 :: u64)" by (simp only: word_le_nat_alt)
    then show ?thesis by simp
  qed
  ultimately have "unat (n AND 15) = unat (m AND 15)" using assms nth_eq_iff_index_eq by blast
  then show ?thesis by (simp add: word_unat_eq_iff)
qed

lemma u64hex_loop_inject:
  assumes "u64hex_loop k n buf = u64hex_loop k m buf'" "length buf = length buf'"
  shows "buf = buf' \<and> (\<forall>i < 4 * k. bit n i \<longleftrightarrow> bit m i)"
  using assms
proof (induction k arbitrary: n m buf buf')
  case (Suc k)
  have "''0123456789abcdef'' ! unat (n AND 15) # buf = ''0123456789abcdef'' ! unat (m AND 15) # buf' \<and>
      (\<forall>i < 4 * k. bit (drop_bit 4 n) i \<longleftrightarrow> bit (drop_bit 4 m) i)"
    using Suc.prems by (intro Suc.IH) simp_all
  then have buf: "buf = buf'" and nib: "n AND 15 = m AND 15"
    and rest: "\<And>i. i < 4 * k \<Longrightarrow> bit (drop_bit 4 n) i \<longleftrightarrow> bit (drop_bit 4 m) i"
    using hex_digit_nibble [of n m] by auto
  have low: "bit x i \<longleftrightarrow> bit (x AND 15) i" if "i < 4" for x :: u64 and i
  proof -
    have m: "(15 :: u64) = mask 4" by (simp add: mask_eq_exp_minus_1)
    show ?thesis unfolding m using that by (simp only: bit_and_iff bit_mask_iff) simp
  qed
  have "bit n i \<longleftrightarrow> bit m i" if "i < 4 * Suc k" for i
  proof (cases "i < 4")
    case True
    then show ?thesis using low [OF True, of n] low [OF True, of m] nib by simp
  next
    case False
    then have "bit n i = bit (drop_bit 4 n) (i - 4)" "bit m i = bit (drop_bit 4 m) (i - 4)"
      by (simp_all add: bit_drop_bit_eq)
    then show ?thesis using rest [of "i - 4"] that False by simp
  qed
  then show ?case using buf by blast
qed simp

lemma u64hex_inject: "u64hex n = u64hex m \<longleftrightarrow> n = m"
proof
  assume "u64hex n = u64hex m"
  then have "\<forall>i < 64. bit n i \<longleftrightarrow> bit m i" using u64hex_loop_inject [of 16 n "[]" m "[]"] by (simp add: u64hex_def)
  then show "n = m" by (intro bit_word_eqI) simp
qed simp

lemma length_u64hex: "length (u64hex n) = 16"
  by (simp add: u64hex_def length_u64hex_loop)

section \<open>Deduplication against a log\<close>

text \<open>The answers to a sequence of observations, and the same from a log of the accepted ones that never forgets.\<close>

fun observe_all :: "dedupSet \<Rightarrow> (int \<times> string) list \<Rightarrow> bool list" where
  "observe_all d [] = []"
| "observe_all d ((now, key) # obs) = snd (observe now d key) # observe_all (fst (observe now d key)) obs"

fun dedup_log :: "int \<Rightarrow> (int \<times> 'k) list \<Rightarrow> (int \<times> 'k) list \<Rightarrow> bool list" where
  "dedup_log ttl acc [] = []"
| "dedup_log ttl acc ((now, key) # obs) =
     (let dup = list_ex (\<lambda>(t, k). k = key \<and> now - t < ttl) acc
      in dup # dedup_log ttl (if dup then acc else (now, key) # acc) obs)"

text \<open>From \<open>now\<close> on the table answers as the log does.\<close>

definition dedup_sim :: "('k \<Rightarrow> string) \<Rightarrow> int \<Rightarrow> dedupSet \<Rightarrow> (int \<times> 'k) list \<Rightarrow> int \<Rightarrow> bool" where
  "dedup_sim key_of ttl d acc now \<longleftrightarrow> dsTTL d = ttl \<and> gmap_ok (dsSeen d) \<and>
     (\<forall>n\<ge>now. \<forall>k. (\<exists>t. (t, k) \<in> set acc \<and> n - t < ttl) \<longleftrightarrow> (\<exists>t. gget (dsSeen d) (key_of k) = Some t \<and> n - t < ttl))"

lemma gget_filter_snd:
  assumes "gmap_ok m"
  shows "gget (filter (\<lambda>e. P (snd e)) m) k = (case gget m k of Some v \<Rightarrow> if P v then Some v else None | None \<Rightarrow> None)"
proof -
  have ok: "gmap_ok (filter (\<lambda>e. P (snd e)) m)" using assms by (simp add: gmap_ok_def distinct_map_filter)
  have iff: "gget (filter (\<lambda>e. P (snd e)) m) k = Some v \<longleftrightarrow> gget m k = Some v \<and> P v" for v
    using assms ok by (auto simp: gget_Some_iff)
  show ?thesis
  proof (cases "gget (filter (\<lambda>e. P (snd e)) m) k")
    case None
    then have "\<not> (gget m k = Some v \<and> P v)" for v using iff [of v] by simp
    then show ?thesis using None by (cases "gget m k") simp_all
  next
    case (Some v)
    then have "gget m k = Some v" "P v" using iff [of v] by simp_all
    then show ?thesis using Some by simp
  qed
qed

lemma dedup_sim_dup:
  assumes "dedup_sim key_of ttl d acc now"
  shows "snd (observe now d (key_of k)) \<longleftrightarrow> list_ex (\<lambda>(t, j). j = k \<and> now - t < ttl) acc"
proof -
  have "snd (observe now d (key_of k)) \<longleftrightarrow> (\<exists>t. gget (dsSeen d) (key_of k) = Some t \<and> now - t < ttl)"
    using assms by (simp add: observe_def Let_def dedup_sim_def split: option.splits)
  also have "\<dots> \<longleftrightarrow> (\<exists>t. (t, k) \<in> set acc \<and> now - t < ttl)" using assms by (simp add: dedup_sim_def)
  also have "\<dots> \<longleftrightarrow> list_ex (\<lambda>(t, j). j = k \<and> now - t < ttl) acc" by (auto simp: list_ex_iff)
  finally show ?thesis .
qed

lemma dedup_sim_step:
  assumes "dedup_sim key_of ttl d acc now" "inj key_of"
  shows "dedup_sim key_of ttl (fst (observe now d (key_of k)))
           (if snd (observe now d (key_of k)) then acc else (now, k) # acc) now"
proof (cases "snd (observe now d (key_of k))")
  case True
  then show ?thesis using assms by (simp add: observe_def Let_def split: if_splits)
next
  case False
  let ?m = "if length (dsSeen d) > 8192 then filter (\<lambda>e. \<not> now - snd e \<ge> dsTTL d) (dsSeen d) else dsSeen d"
  have d: "dsTTL d = ttl" "gmap_ok (dsSeen d)" using assms by (simp_all add: dedup_sim_def)
  have obs: "fst (observe now d (key_of k)) = d\<lparr>dsSeen := gput (key_of k) now ?m\<rparr>"
    using False by (simp add: observe_def Let_def split: if_splits)
  have ok: "gmap_ok ?m" using d by (simp add: gmap_ok_def distinct_map_filter)
  have prune: "(\<exists>t. gget ?m key = Some t \<and> n - t < ttl) \<longleftrightarrow> (\<exists>t. gget (dsSeen d) key = Some t \<and> n - t < ttl)"
    if "n \<ge> now" for n key
    using that gget_filter_snd [OF d(2), of "\<lambda>t. \<not> now - t \<ge> dsTTL d" key] d(1)
    by (cases "gget (dsSeen d) key") auto
  have new: "(\<exists>t. (t, j) \<in> set ((now, k) # acc) \<and> n - t < ttl) \<longleftrightarrow>
      (\<exists>t. gget (gput (key_of k) now ?m) (key_of j) = Some t \<and> n - t < ttl)" if "n \<ge> now" for n j
  proof (cases "j = k")
    case True
    have "\<not> (\<exists>t. (t, k) \<in> set acc \<and> now - t < ttl)"
      using False dedup_sim_dup [OF assms(1), of k] by (auto simp: list_ex_iff)
    then have "\<not> n - t < ttl" if "(t, k) \<in> set acc" for t using that \<open>n \<ge> now\<close> by fastforce
    then show ?thesis using True by auto
  next
    case False
    then have "key_of j \<noteq> key_of k" using assms(2) by (simp add: inj_eq)
    then have "gget (gput (key_of k) now ?m) (key_of j) = gget ?m (key_of j)" by simp
    moreover have "(\<exists>t. (t, j) \<in> set acc \<and> n - t < ttl) \<longleftrightarrow> (\<exists>t. gget (dsSeen d) (key_of j) = Some t \<and> n - t < ttl)"
      using assms(1) that by (simp add: dedup_sim_def)
    ultimately show ?thesis using prune [OF that, of "key_of j"] False by simp
  qed
  show ?thesis using False new ok d(1) by (simp add: dedup_sim_def obs)
qed

lemma dedup_sim_later: "dedup_sim key_of ttl d acc now \<Longrightarrow> now \<le> now' \<Longrightarrow> dedup_sim key_of ttl d acc now'"
  by (simp add: dedup_sim_def)

lemma dedup_log_matches:
  assumes "\<forall>now. dedup_sim key_of ttl d acc now" "inj key_of" "sorted (map fst obs)"
  shows "observe_all d (map (\<lambda>(t, k). (t, key_of k)) obs) = dedup_log ttl acc obs"
proof -
  have "dedup_sim key_of ttl d acc now \<Longrightarrow> sorted (now # map fst obs) \<Longrightarrow>
      observe_all d (map (\<lambda>(t, k). (t, key_of k)) obs) = dedup_log ttl acc obs" for now
    using assms(3)
  proof (induction obs arbitrary: d acc now)
    case (Cons x obs)
    obtain t k where x: "x = (t, k)" by (cases x)
    have sim: "dedup_sim key_of ttl d acc t" using Cons.prems by (auto simp: x intro: dedup_sim_later)
    show ?case
      using Cons.IH [OF dedup_sim_step [OF sim assms(2), of k]] Cons.prems(2,3) dedup_sim_dup [OF sim, of k]
      by (simp add: x Let_def)
  qed simp
  moreover obtain now where "sorted (now # map fst obs)" using assms(3) by (cases obs) auto
  ultimately show ?thesis using assms(1) by blast
qed

lemma announce_key_inj: "inj (\<lambda>x. announce_key (fst x) (snd x))"
proof (rule injI)
  fix x y assume "announce_key (fst x) (snd x) = announce_key (fst y) (snd y)"
  then have "fst x @ '':'' @ u64hex (snd x) = fst y @ '':'' @ u64hex (snd y)" by (simp add: announce_key_def)
  then have "fst x = fst y \<and> '':'' @ u64hex (snd x) = '':'' @ u64hex (snd y)"
    by (rule append_eq_append_conv [THEN iffD1, rotated]) (simp add: length_u64hex)
  then show "x = y" using u64hex_inject by (simp add: prod_eq_iff)
qed

text \<open>
  The entry that goes when an offer is stored in a full table: one seen longest ago, the offer included.
\<close>

definition path_victim :: "pathTable \<Rightarrow> string \<Rightarrow> pathEntry \<Rightarrow> string \<Rightarrow> bool" where
  "path_victim pt dest e v \<longleftrightarrow> (\<exists>f. ((path_lookup pt)(dest \<mapsto> e)) v = Some f \<and>
     (\<forall>k g. ((path_lookup pt)(dest \<mapsto> e)) k = Some g \<longrightarrow> peLastSeen f \<le> peLastSeen g))"

lemma path_view_store:
  assumes "range_order iter" "path_ok pt" "dest \<noteq> ''''" "\<And>cur. path_lookup pt dest = Some cur \<Longrightarrow> better e cur"
    and "path_update iter pt dest e = (pt', stored)"
  shows "stored" and "path_lookup pt dest \<noteq> None \<or> length (ptEntries pt) < ptMax pt \<Longrightarrow> path_lookup pt' = (path_lookup pt)(dest \<mapsto> e)"
    and "path_lookup pt dest = None \<Longrightarrow> length (ptEntries pt) = ptMax pt \<Longrightarrow>
      \<exists>v. path_victim pt dest e v \<and> path_lookup pt' = ((path_lookup pt)(dest \<mapsto> e))(v := None)"
proof -
  let ?m = "gput dest e (ptEntries pt)"
  have "path_update iter pt dest e = (pt\<lparr>ptEntries := (let m = ?m in if length m > ptMax pt then evictOldestLocked iter m else m)\<rparr>, True)"
    using assms(4) by (cases rule: path_update_cases [of pt dest e iter]) (auto simp: path_lookup_def)
  then have eq: "stored" "ptEntries pt' = (if length ?m > ptMax pt then evictOldestLocked iter ?m else ?m)"
    using assms(5) by (auto simp: Let_def)
  show "stored" by (rule eq(1))
  have put: "gget ?m = (path_lookup pt)(dest \<mapsto> e)" by (simp add: fun_eq_iff path_lookup_def)
  have len: "length ?m = length (ptEntries pt) + (if path_lookup pt dest = None then 1 else 0)" "length (ptEntries pt) \<le> ptMax pt"
    using assms(2) by (simp_all add: length_gput path_lookup_def path_ok_def)
  show "path_lookup pt' = (path_lookup pt)(dest \<mapsto> e)" if "path_lookup pt dest \<noteq> None \<or> length (ptEntries pt) < ptMax pt"
  proof -
    have "ptEntries pt' = ?m" using that len eq(2) by auto
    then show ?thesis using put by (simp add: fun_eq_iff path_lookup_def)
  qed
  show "\<exists>v. path_victim pt dest e v \<and> path_lookup pt' = ((path_lookup pt)(dest \<mapsto> e))(v := None)"
    if "path_lookup pt dest = None" "length (ptEntries pt) = ptMax pt"
  proof -
    have ne: "?m \<noteq> []" "gmap_ok ?m" "gget ?m '''' = None" using assms(2,3) by (simp_all add: path_ok_def)
    obtain v f where v: "gget ?m v = Some f" "evictOldestLocked iter ?m = gdel v ?m"
      "\<forall>j g. gget ?m j = Some g \<longrightarrow> peLastSeen f \<le> peLastSeen g"
      by (rule evictOldest_props [OF assms(1) ne(2,3,1)])
    have "ptEntries pt' = gdel v ?m" using eq(2) v(2) len(1) that by simp
    then have "path_lookup pt' = (gget ?m)(v := None)" by (simp add: path_lookup_def fun_eq_iff)
    then show ?thesis using v(1,3) unfolding put path_victim_def by blast
  qed
qed

section \<open>Properties\<close>

text \<open>
  C33. The path table refines a table of best paths. An offer for a destination is stored exactly when there
  is no path to it or the offer is better (newer announce, or the same one over fewer hops). A stored offer is the
  entry of its destination afterwards and nothing else changes, as long as the destination was known or there is
  room; in a full table exactly one entry goes, one that was seen longest ago, so the offer stays whenever it was seen
  later than some entry. A rejected offer changes nothing but, for the same announce, the time the entry was
  last seen. The table stays within its bound.
\<close>

theorem path_table_keeps_best:
  assumes "range_order iter" and "path_ok pt" and "dest \<noteq> ''''" and "path_update iter pt dest e = (pt', stored)"
  shows "path_ok pt' \<and> ptMax pt' = ptMax pt \<and>
     (stored \<longleftrightarrow> (\<forall>cur. path_lookup pt dest = Some cur \<longrightarrow> better e cur)) \<and>
     (stored \<longrightarrow> (if path_lookup pt dest \<noteq> None \<or> length (ptEntries pt) < ptMax pt
        then path_lookup pt' = (path_lookup pt)(dest \<mapsto> e)
        else \<exists>v. path_victim pt dest e v \<and> path_lookup pt' = ((path_lookup pt)(dest \<mapsto> e))(v := None))) \<and>
     (stored \<and> (\<exists>k f. path_lookup pt k = Some f \<and> peLastSeen f < peLastSeen e) \<longrightarrow> path_lookup pt' dest = Some e) \<and>
     (\<forall>cur. \<not> stored \<and> path_lookup pt dest = Some cur \<longrightarrow> path_lookup pt' = (path_lookup pt)(dest \<mapsto>
        cur\<lparr>peLastSeen := (if peOriginTS e = peOriginTS cur then peLastSeen e else peLastSeen cur)\<rparr>))"
proof (cases "\<forall>cur. path_lookup pt dest = Some cur \<longrightarrow> better e cur")
  case True
  note view = path_view_store [OF assms(1-3) True [rule_format] assms(4)]
  have ok: "path_ok pt' \<and> ptMax pt' = ptMax pt" using path_update_ok [OF assms(1-3), of e] assms(4) by simp
  have "length (ptEntries pt) \<le> ptMax pt" using assms(2) by (simp add: path_ok_def)
  then have st: "if path_lookup pt dest \<noteq> None \<or> length (ptEntries pt) < ptMax pt
        then path_lookup pt' = (path_lookup pt)(dest \<mapsto> e)
        else \<exists>v. path_victim pt dest e v \<and> path_lookup pt' = ((path_lookup pt)(dest \<mapsto> e))(v := None)"
    using view(2,3) by auto
  have "path_lookup pt' dest = Some e" if f: "path_lookup pt k = Some f" "peLastSeen f < peLastSeen e" for k f
  proof (cases "path_lookup pt dest \<noteq> None \<or> length (ptEntries pt) < ptMax pt")
    case False
    then obtain v where v: "path_victim pt dest e v" "path_lookup pt' = ((path_lookup pt)(dest \<mapsto> e))(v := None)" using st by auto
    have "k \<noteq> dest" using False f(1) by auto
    then have "v \<noteq> dest" using v(1) f unfolding path_victim_def by (metis fun_upd_apply linorder_not_le option.inject)
    then show ?thesis by (simp add: v(2))
  qed (use st in simp)
  then show ?thesis using ok st True view(1) by auto
next
  case False
  then obtain cur where cur: "path_lookup pt dest = Some cur" "\<not> better e cur" by blast
  have "path_ok pt' \<and> ptMax pt' = ptMax pt" using path_update_ok [OF assms(1-3), of e] assms(4) by simp
  moreover have "\<not> stored \<and> path_lookup pt' = (path_lookup pt)(dest \<mapsto>
      cur\<lparr>peLastSeen := (if peOriginTS e = peOriginTS cur then peLastSeen e else peLastSeen cur)\<rparr>)"
    using assms(4) cur by (cases rule: path_update_cases [of pt dest e iter]) (auto simp: path_lookup_def fun_eq_iff)
  ultimately show ?thesis using cur by auto
qed

text \<open>A table with room for two: a better path is taken, a new destination pushes out the one seen longest ago.\<close>

definition sample_path :: "byte \<Rightarrow> int \<Rightarrow> pathEntry" where
  "sample_path hops seen = \<lparr>peIface = ''udp'', peNextHop = ''10.0.0.1:1'', peHops = hops, peLastSeen = seen, peOriginTS = 7, peAnn = None\<rparr>"

definition sample_paths :: pathTable where
  "sample_paths = \<lparr>ptEntries = [(''a'', sample_path 2 5), (''b'', sample_path 3 6)], ptMax = 2\<rparr>"

theorem path_table_keeps_best_witness:
  "path_lookup (fst (path_update (\<lambda>m. m) sample_paths ''a'' (sample_path 1 8))) ''a'' = Some (sample_path 1 8) \<and>
   path_lookup (fst (path_update (\<lambda>m. m) sample_paths ''c'' (sample_path 4 9))) ''c'' = Some (sample_path 4 9) \<and>
   length (ptEntries (fst (path_update (\<lambda>m. m) sample_paths ''c'' (sample_path 4 9)))) \<le> 2"
proof -
  have ok: "path_ok sample_paths" by (simp add: path_ok_def gmap_ok_def gget_def sample_paths_def)
  have look: "path_lookup sample_paths ''a'' = Some (sample_path 2 5)" "path_lookup sample_paths ''c'' = None"
    by (simp_all add: path_lookup_def gget_def sample_paths_def)
  have bet: "better (sample_path 1 8) (sample_path 2 5)" "peLastSeen (sample_path 2 5) < peLastSeen (sample_path 4 9)"
    by (simp_all add: better_def sample_path_def)
  have d: "''a'' \<noteq> ''''" "''c'' \<noteq> ''''" by simp_all
  note a = path_table_keeps_best [OF range_order_id ok d(1) prod.collapse [symmetric], of "sample_path 1 8"]
  note c = path_table_keeps_best [OF range_order_id ok d(2) prod.collapse [symmetric], of "sample_path 4 9"]
  have "path_lookup (fst (path_update (\<lambda>m. m) sample_paths ''a'' (sample_path 1 8))) ''a'' = Some (sample_path 1 8)"
    using a look(1) bet(1) by simp
  moreover have "path_lookup (fst (path_update (\<lambda>m. m) sample_paths ''c'' (sample_path 4 9))) ''c'' = Some (sample_path 4 9)"
    using c [THEN conjunct2, THEN conjunct2, THEN conjunct1] c [THEN conjunct2, THEN conjunct2, THEN conjunct2, THEN conjunct2, THEN conjunct1]
      look bet(2) by auto
  moreover have "ptMax sample_paths = 2" by (simp add: sample_paths_def)
  ultimately show ?thesis using c by (auto simp: path_ok_def)
qed

text \<open>
  C34. The flood deduplication behaves as an ever-growing log of the floods that were let through. While
  the clock does not run backwards, an announce of a destination and nonce is dropped exactly when one with
  the same destination and nonce was let through less than the TTL ago; pruning the table never changes an
  answer, and two different announces never share a key.
\<close>
theorem flood_dedup_is_log:
  assumes "sorted (map fst obs)"
  shows "observe_all (newDedupSet ttl) (map (\<lambda>(t, k). (t, announce_key (fst k) (snd k))) obs) = dedup_log ttl [] obs"
  using dedup_log_matches [OF _ announce_key_inj assms, of ttl "newDedupSet ttl" "[]"]
  by (simp add: newDedupSet_def dedup_sim_def case_prod_beta)

theorem flood_dedup_is_log_witness:
  "observe_all (newDedupSet 10) (map (\<lambda>(t, k). (t, announce_key (fst k) (snd k))) [(0, ''a'', 1), (5, ''a'', 1), (6, ''a'', 2), (10, ''a'', 1)])
     = [False, True, False, False]"
  using flood_dedup_is_log [of "[(0, ''a'', 1), (5, ''a'', 1), (6, ''a'', 2), (10, ''a'', 1)]" 10] by simp

end
