(* ===== verification/PeerTable.thy ===== *)
theory PeerTable
  imports PathTable Dht Net
begin

text \<open>
  The peer table of \<^verbatim>\<open>internal/discovery/discovery.go\<close>: admission with the anti-eclipse caps, first-hand
  and third-party updates, gossip merging, latency verdicts, and the read-only views, with the contact
  learning of \<^verbatim>\<open>dht.go\<close> and the bootstrap set and cache of \<^verbatim>\<open>peercache.go\<close>.

  The record holds the fields of the Discovery struct these functions use; the theory of the protocol
  handlers extends it with the others. The clock and the iteration order of the node map are arguments.
  A nil slice and an empty one are not distinguished: the code only looks at their length.
\<close>

section \<open>State\<close>

definition maxLatency :: int where "maxLatency = 2 * 1000000000"
definition minNodes :: int where "minNodes = 2"
definition baseDiscoveryInterval :: int where "baseDiscoveryInterval = 60 * 1000000000"
definition maxDiscoveryInterval :: int where "maxDiscoveryInterval = 30 * 60 * 1000000000"
definition maxPeers :: nat where "maxPeers = 512"
definition maxPeersPerSubnet :: nat where "maxPeersPerSubnet = 8"
definition maxVerifyPerRound :: nat where "maxVerifyPerRound = 8"
definition maxCachedPeers :: nat where "maxCachedPeers = 64"

record node =
  nID :: string
  nAddress :: string
  nLastSeen :: int
  nLatency :: int
  nActive :: bool
  nPubKey :: bytes
  nSignKey :: bytes
  nPort :: u16
  nCapabilities :: "string list"
  nRelayIDs :: "string list"
  nMLKEMPub :: bytes

record peerTable =
  dNodes :: "(string, node) gomap"
  dSelfID :: string
  dRT :: "routingTable option"
  dBootstrapPeers :: "string list"
  dJoins :: u64
  dEvictions :: u64
  dObservedCounts :: "(string, int) gomap"
  dPeerCachePath :: string

type_synonym node_order = "(string \<times> node) list \<Rightarrow> (string \<times> node) list"

text \<open>The zero \<^verbatim>\<open>time.Time\<close>: the first of January of year 1.\<close>

definition zeroTime :: int where "zeroTime = - 62135596800 * 1000000000"

section \<open>Admission\<close>

definition isBootstrapAddr :: "string list \<Rightarrow> string \<Rightarrow> bool" where
  "isBootstrapAddr boots addr =
     (let h1 = (case SplitHostPort addr of Some (h, _) \<Rightarrow> h | None \<Rightarrow> addr) in
      list_ex (\<lambda>b. h1 = (case SplitHostPort b of Some (h, _) \<Rightarrow> h | None \<Rightarrow> b)) boots)"

definition staler :: "string \<times> node \<Rightarrow> string \<times> node \<Rightarrow> bool" where
  "staler x y \<longleftrightarrow> nLastSeen (snd x) < nLastSeen (snd y)"

definition evict_node :: "string \<Rightarrow> 'a peerTable_scheme \<Rightarrow> 'a peerTable_scheme" where
  "evict_node k d = d\<lparr>dNodes := gdel k (dNodes d), dEvictions := dEvictions d + 1\<rparr>"

definition admitLocked :: "node_order \<Rightarrow> string \<Rightarrow> 'a peerTable_scheme \<Rightarrow> 'a peerTable_scheme \<times> bool" where
  "admitLocked iter addr d =
     (if isBootstrapAddr (dBootstrapPeers d) addr then (d, True)
      else let sk = subnetKey addr;
               cand = filter (\<lambda>x. \<not> isBootstrapAddr (dBootstrapPeers d) (nAddress (snd x))) (iter (dNodes d));
               same = filter (\<lambda>x. subnetKey (nAddress (snd x)) = sk) cand;
               stalestGlobal = pick_least staler None cand;
               stalestSubnet = pick_least staler None same;
               (d, ok) = (if length same \<ge> maxPeersPerSubnet
                          then (case stalestSubnet of
                                  None \<Rightarrow> (d, False)
                                | Some x \<Rightarrow> (evict_node (nID (snd x)) d, True))
                          else (d, True))
           in if \<not> ok then (d, False)
              else if length (dNodes d) \<ge> maxPeers
              then (case stalestGlobal of
                      None \<Rightarrow> (d, False)
                    | Some x \<Rightarrow> (evict_node (nID (snd x)) d, True))
              else (d, True))"

section \<open>Updates\<close>

definition rtUpdate :: "string \<Rightarrow> string \<Rightarrow> u16 \<Rightarrow> 'a peerTable_scheme \<Rightarrow> 'a peerTable_scheme" where
  "rtUpdate nodeID udpAddr port d =
     (case dRT d of
        None \<Rightarrow> d
      | Some rt \<Rightarrow>
          if nodeID = dSelfID d then d
          else (case ParseID nodeID of
                  None \<Rightarrow> d
                | Some i \<Rightarrow> d\<lparr>dRT := Some (Update rt \<lparr>cID = i, cAddress = udpAddr, cPort = port\<rparr>)\<rparr>))"

definition refresh_node ::
  "int \<Rightarrow> string \<Rightarrow> bytes \<Rightarrow> bytes \<Rightarrow> u16 \<Rightarrow> string list \<Rightarrow> string list \<Rightarrow> bytes \<Rightarrow> bool \<Rightarrow> node \<Rightarrow> node" where
  "refresh_node now addr pubKey signKey port caps relayIDs mlkemPub verified node =
     (let node = (if verified then node\<lparr>nLastSeen := now, nActive := True, nAddress := addr\<rparr>
                  else if nAddress node = [] \<and> addr \<noteq> [] then node\<lparr>nAddress := addr\<rparr>
                  else node);
          node = (if length pubKey > 0 then node\<lparr>nPubKey := pubKey\<rparr> else node);
          node = (if length signKey > 0 then node\<lparr>nSignKey := signKey\<rparr> else node);
          node = (if port \<noteq> 0 then node\<lparr>nPort := port\<rparr> else node);
          node = (if length caps > 0 then node\<lparr>nCapabilities := caps\<rparr> else node);
          node = (if length mlkemPub > 0 then node\<lparr>nMLKEMPub := mlkemPub\<rparr> else node);
          node = (if length relayIDs > 0 then node\<lparr>nRelayIDs := relayIDs\<rparr> else node)
      in node)"

definition upsertNode ::
  "node_order \<Rightarrow> int \<Rightarrow> string \<Rightarrow> string \<Rightarrow> bytes \<Rightarrow> bytes \<Rightarrow> u16 \<Rightarrow> string list \<Rightarrow> string list \<Rightarrow> bytes \<Rightarrow> bool \<Rightarrow>
     'a peerTable_scheme \<Rightarrow> 'a peerTable_scheme" where
  "upsertNode iter now nodeID addr pubKey signKey port caps relayIDs mlkemPub verified d =
     (if nodeID = dSelfID d then d
      else case gget (dNodes d) nodeID of
        Some node \<Rightarrow>
          rtUpdate nodeID addr port
            (d\<lparr>dNodes := gput nodeID (refresh_node now addr pubKey signKey port caps relayIDs mlkemPub verified node) (dNodes d)\<rparr>)
      | None \<Rightarrow>
          (case admitLocked iter addr d of
             (d, False) \<Rightarrow> d
           | (d, True) \<Rightarrow>
               rtUpdate nodeID addr port
                 (d\<lparr>dNodes := gput nodeID \<lparr>nID = nodeID, nAddress = addr, nLastSeen = now, nLatency = 0,
                     nActive = verified, nPubKey = pubKey, nSignKey = signKey, nPort = port, nCapabilities = caps,
                     nRelayIDs = relayIDs, nMLKEMPub = mlkemPub\<rparr> (dNodes d),
                   dJoins := dJoins d + 1\<rparr>)))"

definition updateNode ::
  "node_order \<Rightarrow> int \<Rightarrow> string \<Rightarrow> string \<Rightarrow> bytes \<Rightarrow> bytes \<Rightarrow> u16 \<Rightarrow> string list \<Rightarrow> string list \<Rightarrow> bytes \<Rightarrow>
     'a peerTable_scheme \<Rightarrow> 'a peerTable_scheme" where
  "updateNode iter now nodeID addr pubKey signKey port caps relayIDs mlkemPub =
     upsertNode iter now nodeID addr pubKey signKey port caps relayIDs mlkemPub True"

definition learnCandidate ::
  "node_order \<Rightarrow> int \<Rightarrow> string \<Rightarrow> string \<Rightarrow> bytes \<Rightarrow> bytes \<Rightarrow> u16 \<Rightarrow> string list \<Rightarrow> string list \<Rightarrow> bytes \<Rightarrow>
     'a peerTable_scheme \<Rightarrow> 'a peerTable_scheme" where
  "learnCandidate iter now nodeID addr pubKey signKey port caps relayIDs mlkemPub =
     upsertNode iter now nodeID addr pubKey signKey port caps relayIDs mlkemPub False"

section \<open>Gossip\<close>

record peerInfo =
  piNodeID :: string
  piAddress :: string
  piPubKey :: bytes
  piSignKey :: bytes
  piPort :: u16
  piCapabilities :: "string list"
  piRelayIDs :: "string list"
  piMLKEMPub :: bytes
  piLastSeen :: int

definition attestedOnly :: "bool \<Rightarrow> string list \<Rightarrow> string list" where
  "attestedOnly selfAttested v = (if \<not> selfAttested then [] else v)"

definition merge_node :: "peerInfo \<Rightarrow> bool \<Rightarrow> node \<Rightarrow> node" where
  "merge_node pi selfAttested node =
     (let node = (if piAddress pi \<noteq> [] then node\<lparr>nAddress := piAddress pi\<rparr> else node);
          node = (if length (piPubKey pi) > 0 then node\<lparr>nPubKey := piPubKey pi\<rparr> else node);
          node = (if length (piSignKey pi) > 0 then node\<lparr>nSignKey := piSignKey pi\<rparr> else node);
          node = (if piPort pi \<noteq> 0 then node\<lparr>nPort := piPort pi\<rparr> else node);
          node = (if selfAttested \<and> length (piCapabilities pi) > 0 then node\<lparr>nCapabilities := piCapabilities pi\<rparr> else node);
          node = (if length (piMLKEMPub pi) > 0 then node\<lparr>nMLKEMPub := piMLKEMPub pi\<rparr> else node);
          node = (if selfAttested \<and> length (piRelayIDs pi) > 0 then node\<lparr>nRelayIDs := piRelayIDs pi\<rparr> else node)
      in node)"

definition mergePeer ::
  "(bytes \<Rightarrow> bytes) \<Rightarrow> node_order \<Rightarrow> int \<Rightarrow> peerInfo \<Rightarrow> bool \<Rightarrow> 'a peerTable_scheme \<Rightarrow> 'a peerTable_scheme" where
  "mergePeer sha256 iter now pi selfAttested d =
     (if piNodeID pi = [] \<or> piNodeID pi = dSelfID d then d
      else if piNodeID pi \<noteq> DeriveNodeID sha256 (piSignKey pi) then d
      else case gget (dNodes d) (piNodeID pi) of
        Some node \<Rightarrow>
          if piLastSeen pi < nLastSeen node then d
          else d\<lparr>dNodes := gput (piNodeID pi) (merge_node pi selfAttested node) (dNodes d)\<rparr>
      | None \<Rightarrow>
          (case admitLocked iter (piAddress pi) d of
             (d, False) \<Rightarrow> d
           | (d, True) \<Rightarrow>
               let lastSeen = (if piLastSeen pi = zeroTime then now else piLastSeen pi)
               in d\<lparr>dNodes := gput (piNodeID pi) \<lparr>nID = piNodeID pi, nAddress = piAddress pi, nLastSeen = lastSeen,
                      nLatency = 0, nActive = False, nPubKey = piPubKey pi, nSignKey = piSignKey pi, nPort = piPort pi,
                      nCapabilities = attestedOnly selfAttested (piCapabilities pi),
                      nRelayIDs = attestedOnly selfAttested (piRelayIDs pi), nMLKEMPub = piMLKEMPub pi\<rparr> (dNodes d),
                    dJoins := dJoins d + 1\<rparr>))"

record dhtContact =
  dcNodeID :: string
  dcAddress :: string
  dcPubKey :: bytes
  dcSignKey :: bytes
  dcPort :: u16
  dcMLKEMPub :: bytes

definition learn_contact ::
  "(bytes \<Rightarrow> bytes) \<Rightarrow> node_order \<Rightarrow> int \<Rightarrow> dhtContact \<Rightarrow> 'a peerTable_scheme \<Rightarrow> 'a peerTable_scheme" where
  "learn_contact sha256 iter now c d =
     (if dcNodeID c = [] \<or> dcNodeID c = dSelfID d \<or> length (dcSignKey c) = 0 then d
      else if DeriveNodeID sha256 (dcSignKey c) \<noteq> dcNodeID c then d
      else learnCandidate iter now (dcNodeID c) (dcAddress c) (dcPubKey c) (dcSignKey c) (dcPort c) [] [] (dcMLKEMPub c) d)"

definition learnContacts ::
  "(bytes \<Rightarrow> bytes) \<Rightarrow> node_order \<Rightarrow> int \<Rightarrow> dhtContact list \<Rightarrow> 'a peerTable_scheme \<Rightarrow> 'a peerTable_scheme" where
  "learnContacts sha256 iter now cs d = fold (learn_contact sha256 iter now) cs d"

section \<open>Latency verdicts\<close>

text \<open>
  \<^verbatim>\<open>checkLatencies\<close> probes every active node and at most \<^verbatim>\<open>maxVerifyPerRound\<close> others. The latency measured for a
  node is an argument; every probe changes its own node only.
\<close>

definition probe_node :: "int \<Rightarrow> int \<Rightarrow> bool \<Rightarrow> node \<Rightarrow> node" where
  "probe_node now latency promote node =
     (if latency > maxLatency then (if \<not> promote then node\<lparr>nActive := False\<rparr> else node)
      else let node = node\<lparr>nLatency := latency\<rparr>
           in if promote then node\<lparr>nActive := True, nLastSeen := now\<rparr> else node)"

definition probe :: "int \<Rightarrow> int \<Rightarrow> bool \<Rightarrow> string \<Rightarrow> 'a peerTable_scheme \<Rightarrow> 'a peerTable_scheme" where
  "probe now latency promote k d =
     (case gget (dNodes d) k of
        None \<Rightarrow> d
      | Some node \<Rightarrow> d\<lparr>dNodes := gput k (probe_node now latency promote node) (dNodes d)\<rparr>)"

definition latency_targets :: "node_order \<Rightarrow> 'a peerTable_scheme \<Rightarrow> string list \<times> string list" where
  "latency_targets iter d =
     (let xs = iter (dNodes d)
      in (map fst (filter (\<lambda>x. nActive (snd x)) xs),
          take maxVerifyPerRound (map fst (filter (\<lambda>x. \<not> nActive (snd x)) xs))))"

definition checkLatencies :: "node_order \<Rightarrow> int \<Rightarrow> (string \<Rightarrow> int) \<Rightarrow> 'a peerTable_scheme \<Rightarrow> 'a peerTable_scheme" where
  "checkLatencies iter now latency d =
     (let (nodes, unverified) = latency_targets iter d;
          d = fold (\<lambda>k. probe now (latency k) False k) nodes d
      in fold (\<lambda>k. probe now (latency k) True k) unverified d)"

definition adjustDiscoveryInterval :: "'a peerTable_scheme \<Rightarrow> int" where
  "adjustDiscoveryInterval d =
     (let activeNodes = int (length (filter (\<lambda>x. nActive (snd x)) (dNodes d)))
      in if activeNodes < minNodes then baseDiscoveryInterval
         else let interval = baseDiscoveryInterval * activeNodes
              in if interval > maxDiscoveryInterval then maxDiscoveryInterval else interval)"

section \<open>Views\<close>

definition GetActiveNodes :: "node_order \<Rightarrow> 'a peerTable_scheme \<Rightarrow> node list" where
  "GetActiveNodes iter d = filter nActive (map snd (iter (dNodes d)))"

definition AllNodes :: "node_order \<Rightarrow> 'a peerTable_scheme \<Rightarrow> node list" where
  "AllNodes iter d = map snd (iter (dNodes d))"

definition lookupLocal :: "string \<Rightarrow> 'a peerTable_scheme \<Rightarrow> node option" where
  "lookupLocal targetHex d = gget (dNodes d) targetHex"

definition CircuitReachable :: "string \<Rightarrow> 'a peerTable_scheme \<Rightarrow> bool" where
  "CircuitReachable k d =
     (case gget (dNodes d) k of
        None \<Rightarrow> False
      | Some n \<Rightarrow>
          if length (nRelayIDs n) = 0 then False
          else list_ex (\<lambda>rid. case gget (dNodes d) rid of Some r \<Rightarrow> nActive r | None \<Rightarrow> False) (nRelayIDs n))"

record peerHealth =
  phTotal :: nat
  phActive :: nat
  phInactive :: nat
  phSubnets :: nat
  phPerSubnet :: "(string, nat) gomap"
  phJoins :: u64
  phEvictions :: u64

definition health_step :: "string \<times> node \<Rightarrow> peerHealth \<Rightarrow> peerHealth" where
  "health_step x h =
     (let h = h\<lparr>phTotal := phTotal h + 1\<rparr>;
          h = (if nActive (snd x) then h\<lparr>phActive := phActive h + 1\<rparr> else h\<lparr>phInactive := phInactive h + 1\<rparr>);
          k = subnetKey (nAddress (snd x));
          c = (case gget (phPerSubnet h) k of Some c \<Rightarrow> c | None \<Rightarrow> 0)
      in h\<lparr>phPerSubnet := gput k (c + 1) (phPerSubnet h)\<rparr>)"

definition PeerHealth :: "node_order \<Rightarrow> 'a peerTable_scheme \<Rightarrow> peerHealth" where
  "PeerHealth iter d =
     (let h = fold health_step (iter (dNodes d))
                \<lparr>phTotal = 0, phActive = 0, phInactive = 0, phSubnets = 0, phPerSubnet = [],
                  phJoins = dJoins d, phEvictions = dEvictions d\<rparr>
      in h\<lparr>phSubnets := length (phPerSubnet h)\<rparr>)"

definition recordObserved :: "string \<Rightarrow> 'a peerTable_scheme \<Rightarrow> 'a peerTable_scheme" where
  "recordObserved addr d =
     (case SplitHostPort addr of
        None \<Rightarrow> d
      | Some (host, _) \<Rightarrow>
          if host = [] then d
          else let c = (case gget (dObservedCounts d) host of Some c \<Rightarrow> c | None \<Rightarrow> 0)
               in d\<lparr>dObservedCounts := gput host (c + 1) (dObservedCounts d)\<rparr>)"

fun best_count :: "string \<times> int \<Rightarrow> (string \<times> int) list \<Rightarrow> string \<times> int" where
  "best_count best [] = best"
| "best_count best (x # xs) = best_count (if snd x > snd best then x else best) xs"

definition ExternalHost :: "((string \<times> int) list \<Rightarrow> (string \<times> int) list) \<Rightarrow> 'a peerTable_scheme \<Rightarrow> string" where
  "ExternalHost iter d = fst (best_count ('''', 0) (iter (dObservedCounts d)))"

section \<open>Bootstrap set and peer cache\<close>

definition SetBootstrapPeers :: "string list \<Rightarrow> 'a peerTable_scheme \<Rightarrow> 'a peerTable_scheme" where
  "SetBootstrapPeers addrs d = d\<lparr>dBootstrapPeers := addrs\<rparr>"

definition addBootstrap :: "string \<Rightarrow> 'a peerTable_scheme \<Rightarrow> 'a peerTable_scheme" where
  "addBootstrap addr d =
     (if addr = [] then d
      else if addr \<in> set (dBootstrapPeers d) then d
      else d\<lparr>dBootstrapPeers := dBootstrapPeers d @ [addr]\<rparr>)"

definition later_seen :: "string \<times> int \<Rightarrow> string \<times> int \<Rightarrow> bool" where
  "later_seen x y \<longleftrightarrow> snd x > snd y"

text \<open>The addresses written to the cache file, if one is.\<close>

definition savePeerCache :: "node_order \<Rightarrow> 'a peerTable_scheme \<Rightarrow> string list option" where
  "savePeerCache iter d =
     (if dPeerCachePath d = [] then None
      else let peers = map (\<lambda>x. (nAddress (snd x), nLastSeen (snd x))) (filter (\<lambda>x. nAddress (snd x) \<noteq> []) (iter (dNodes d)));
               peers = sort_by later_seen peers;
               peers = (if length peers > maxCachedPeers then take maxCachedPeers peers else peers)
           in Some (map fst peers))"

definition loadPeerCache :: "(string \<Rightarrow> string list option) \<Rightarrow> 'a peerTable_scheme \<Rightarrow> string list" where
  "loadPeerCache read_cache d =
     (if dPeerCachePath d = [] then []
      else case read_cache (dPeerCachePath d) of None \<Rightarrow> [] | Some addrs \<Rightarrow> addrs)"

definition SetPeerCache :: "(string \<Rightarrow> string list option) \<Rightarrow> string \<Rightarrow> 'a peerTable_scheme \<Rightarrow> 'a peerTable_scheme" where
  "SetPeerCache read_cache path d =
     (if path = [] then d
      else let d = d\<lparr>dPeerCachePath := path\<rparr>
           in fold addBootstrap (loadPeerCache read_cache d) d)"

section \<open>Lemmas on admission\<close>

interpretation stalest: comparison staler
  by unfold_locales (auto simp: staler_def)

lemma range_order_filter_length:
  assumes "range_order iter"
  shows "length (filter P (iter m)) = length (filter P m)"
proof -
  have "mset (filter P (iter m)) = mset (filter P m)" using assms by (simp add: range_order_def)
  then show ?thesis by (metis size_mset)
qed

text \<open>A node at the address of a bootstrap peer is an anchor; the others are counted per network.\<close>

definition anchored :: "'a peerTable_scheme \<Rightarrow> node \<Rightarrow> bool" where
  "anchored d n \<longleftrightarrow> isBootstrapAddr (dBootstrapPeers d) (nAddress n)"

definition subnet_peers :: "'a peerTable_scheme \<Rightarrow> string \<Rightarrow> (string, node) gomap" where
  "subnet_peers d sk = filter (\<lambda>x. \<not> anchored d (snd x) \<and> subnetKey (nAddress (snd x)) = sk) (dNodes d)"

text \<open>The table is keyed by the identifiers of its nodes.\<close>

definition keyed :: "'a peerTable_scheme \<Rightarrow> bool" where
  "keyed d \<longleftrightarrow> gmap_ok (dNodes d) \<and> (\<forall>k n. gget (dNodes d) k = Some n \<longrightarrow> nID n = k)"

definition evictee :: "(node \<Rightarrow> bool) \<Rightarrow> 'a peerTable_scheme \<Rightarrow> string \<Rightarrow> node \<Rightarrow> bool" where
  "evictee P d k n \<longleftrightarrow> gget (dNodes d) k = Some n \<and> \<not> anchored d n \<and> P n \<and>
     (\<forall>j m. gget (dNodes d) j = Some m \<and> \<not> anchored d m \<and> P m \<longrightarrow> nLastSeen n \<le> nLastSeen m)"

lemma pick_evictee:
  assumes "range_order iter" "keyed d"
    and "pick_least staler None (filter (\<lambda>x. P (snd x)) (filter (\<lambda>x. \<not> anchored d (snd x)) (iter (dNodes d)))) = Some x"
  shows "evictee P d (nID (snd x)) (snd x)"
proof -
  have ok: "gmap_ok (dNodes d)" using assms(2) by (simp add: keyed_def)
  have "x \<in> set (filter (\<lambda>x. P (snd x)) (filter (\<lambda>x. \<not> anchored d (snd x)) (iter (dNodes d))))"
    using pick_least_in [OF assms(3)] by simp
  then have x: "x \<in> set (dNodes d)" "\<not> anchored d (snd x)" "P (snd x)"
    using range_order_set [OF assms(1), of "dNodes d"] by simp_all
  have g: "gget (dNodes d) (fst x) = Some (snd x)" using x(1) ok by (simp add: gget_Some_iff)
  then have "nID (snd x) = fst x" using assms(2) by (simp add: keyed_def)
  moreover have "\<forall>j m. gget (dNodes d) j = Some m \<and> \<not> anchored d m \<and> P m \<longrightarrow> nLastSeen (snd x) \<le> nLastSeen m"
  proof (intro allI impI)
    fix j m assume a: "gget (dNodes d) j = Some m \<and> \<not> anchored d m \<and> P m"
    then have "(j, m) \<in> set (filter (\<lambda>x. P (snd x)) (filter (\<lambda>x. \<not> anchored d (snd x)) (iter (dNodes d))))"
      using gget_SomeD [of "dNodes d" j m] range_order_set [OF assms(1), of "dNodes d"] by simp
    then have "\<not> staler (j, m) x" using stalest.pick_least_min [OF assms(3)] by blast
    then show "nLastSeen (snd x) \<le> nLastSeen m" by (simp add: staler_def)
  qed
  ultimately show ?thesis using g x by (simp add: evictee_def)
qed

lemma evict_node_simps [simp]:
  "dNodes (evict_node k d) = gdel k (dNodes d)"
  "dSelfID (evict_node k d) = dSelfID d" "dRT (evict_node k d) = dRT d"
  "dBootstrapPeers (evict_node k d) = dBootstrapPeers d" "dJoins (evict_node k d) = dJoins d"
  "dObservedCounts (evict_node k d) = dObservedCounts d" "dPeerCachePath (evict_node k d) = dPeerCachePath d"
  "peerTable.more (evict_node k d) = peerTable.more d"
  by (simp_all add: evict_node_def)

text \<open>
  What admission does: nothing for an address of a bootstrap peer; a refusal only from a table full of
  anchors; otherwise up to two evictions, first from the network of the address and then from the table.
\<close>

lemma admitLocked_cases:
  assumes "range_order iter" "keyed d"
  obtains (boot) "isBootstrapAddr (dBootstrapPeers d) addr" "admitLocked iter addr d = (d, True)"
  | (refuse) "\<not> isBootstrapAddr (dBootstrapPeers d) addr" "\<forall>k n. gget (dNodes d) k = Some n \<longrightarrow> anchored d n"
      "maxPeers \<le> length (dNodes d)" "admitLocked iter addr d = (d, False)"
  | (admit) subs globs where "\<not> isBootstrapAddr (dBootstrapPeers d) addr"
      "admitLocked iter addr d = (fold evict_node (subs @ globs) d, True)"
      "if maxPeersPerSubnet \<le> length (subnet_peers d (subnetKey addr))
       then \<exists>k n. subs = [k] \<and> evictee (\<lambda>n. subnetKey (nAddress n) = subnetKey addr) d k n else subs = []"
      "if maxPeers \<le> length (dNodes (fold evict_node subs d))
       then \<exists>k n. globs = [k] \<and> evictee (\<lambda>n. True) d k n else globs = []"
proof (cases "isBootstrapAddr (dBootstrapPeers d) addr")
  case True
  then show ?thesis by (intro boot) (simp_all add: admitLocked_def)
next
  case False
  let ?cand = "filter (\<lambda>x. \<not> anchored d (snd x)) (iter (dNodes d))"
  let ?same = "filter (\<lambda>x. subnetKey (nAddress (snd x)) = subnetKey addr) ?cand"
  have len: "length ?same = length (subnet_peers d (subnetKey addr))"
    using range_order_filter_length [OF assms(1), of "\<lambda>x. \<not> anchored d (snd x) \<and> subnetKey (nAddress (snd x)) = subnetKey addr" "dNodes d"]
    by (simp add: subnet_peers_def conj_commute)
  define subs where "subs = (if maxPeersPerSubnet \<le> length (subnet_peers d (subnetKey addr))
      then [nID (snd (the (pick_least staler None ?same)))] else [])"
  define globs where "globs = (if maxPeers \<le> length (dNodes (fold evict_node subs d))
      then [nID (snd (the (pick_least staler None ?cand)))] else [])"
  have same: "?same \<noteq> []" if "maxPeersPerSubnet \<le> length (subnet_peers d (subnetKey addr))"
    using that unfolding len [symmetric] by (auto simp: maxPeersPerSubnet_def)
  obtain x where x: "maxPeersPerSubnet \<le> length (subnet_peers d (subnetKey addr)) \<Longrightarrow> pick_least staler None ?same = Some x"
    using same by (cases "pick_least staler None ?same") auto
  have adm: "admitLocked iter addr d =
      (if maxPeers \<le> length (dNodes (fold evict_node subs d))
       then (case pick_least staler None ?cand of
               None \<Rightarrow> (fold evict_node subs d, False)
             | Some x \<Rightarrow> (evict_node (nID (snd x)) (fold evict_node subs d), True))
       else (fold evict_node subs d, True))"
  proof (cases "maxPeersPerSubnet \<le> length (subnet_peers d (subnetKey addr))")
    case True
    then have s: "subs = [nID (snd x)]" using x by (simp add: subs_def)
    show ?thesis unfolding s using False x [OF True] len True
      by (simp add: admitLocked_def Let_def anchored_def split: option.split)
  next
    case few: False
    then have s: "subs = []" by (simp add: subs_def)
    show ?thesis unfolding s using False len few
      by (simp add: admitLocked_def Let_def anchored_def split: option.split)
  qed
  have sub: "if maxPeersPerSubnet \<le> length (subnet_peers d (subnetKey addr))
       then \<exists>k n. subs = [k] \<and> evictee (\<lambda>n. subnetKey (nAddress n) = subnetKey addr) d k n else subs = []"
    using pick_evictee [OF assms, of "\<lambda>n. subnetKey (nAddress n) = subnetKey addr" x] x by (auto simp: subs_def)
  show ?thesis
  proof (cases "maxPeers \<le> length (dNodes (fold evict_node subs d)) \<and> ?cand = []")
    case True
    then have none: "subs = []" using same by (auto simp: subs_def)
    have anc: "anchored d n" if "gget (dNodes d) k = Some n" for k n
    proof (rule ccontr)
      assume "\<not> anchored d n"
      then have "(k, n) \<in> set ?cand" using gget_SomeD [OF that] range_order_set [OF assms(1), of "dNodes d"] by simp
      then show False using True by simp
    qed
    show ?thesis using True none anc False by (intro refuse) (simp_all add: adm)
  next
    case other: False
    have glob: "if maxPeers \<le> length (dNodes (fold evict_node subs d))
       then \<exists>k n. globs = [k] \<and> evictee (\<lambda>n. True) d k n else globs = []"
    proof (cases "maxPeers \<le> length (dNodes (fold evict_node subs d))")
      case True
      then have "?cand \<noteq> []" using other by simp
      then obtain y where y: "pick_least staler None ?cand = Some y" by (cases "pick_least staler None ?cand") auto
      then have "evictee (\<lambda>n. True) d (nID (snd y)) (snd y)" using pick_evictee [OF assms, of "\<lambda>_. True" y] by simp
      then show ?thesis using True y by (auto simp: globs_def)
    qed (simp add: globs_def)
    have "admitLocked iter addr d = (fold evict_node (subs @ globs) d, True)"
      using other by (auto simp: adm globs_def split: option.splits)
    then show ?thesis using False sub glob by (intro admit [of subs globs])
  qed
qed


lemma dNodes_fold_evict: "dNodes (fold evict_node ks d) = fold gdel ks (dNodes d)"
  by (induction ks arbitrary: d) simp_all

lemma dBootstrapPeers_fold_evict [simp]: "dBootstrapPeers (fold evict_node ks d) = dBootstrapPeers d"
  by (induction ks arbitrary: d) simp_all

lemma gget_fold_gdel: "gget (fold gdel ks m) k = (if k \<in> set ks then None else gget m k)"
  by (induction ks arbitrary: m) simp_all

lemma gmap_ok_fold_gdel: "gmap_ok m \<Longrightarrow> gmap_ok (fold gdel ks m)"
  by (induction ks arbitrary: m) simp_all

lemma length_fold_gdel: "length (fold gdel ks m) \<le> length m"
proof (induction ks arbitrary: m)
  case (Cons k ks)
  have "length (fold gdel ks (gdel k m)) \<le> length (gdel k m)" by (rule Cons.IH)
  also have "\<dots> \<le> length m" by (simp add: gdel_def)
  finally show ?case by simp
qed simp

lemma filter_gdel: "filter P (gdel k m) = gdel k (filter P m)"
  by (simp add: gdel_def conj_commute)

lemma filter_fold_gdel: "filter P (fold gdel ks m) = fold gdel ks (filter P m)"
  by (induction ks arbitrary: m) (simp_all add: filter_gdel)

section \<open>What the updates change\<close>

text \<open>A property of every entry of the table.\<close>

definition all_nodes :: "(string \<Rightarrow> node \<Rightarrow> bool) \<Rightarrow> 'a peerTable_scheme \<Rightarrow> bool" where
  "all_nodes P d \<longleftrightarrow> (\<forall>k n. gget (dNodes d) k = Some n \<longrightarrow> P k n)"

lemma all_nodesI: "(\<And>k n. gget (dNodes d) k = Some n \<Longrightarrow> P k n) \<Longrightarrow> all_nodes P d"
  by (simp add: all_nodes_def)

lemma all_nodesD: "all_nodes P d \<Longrightarrow> gget (dNodes d) k = Some n \<Longrightarrow> P k n"
  by (simp add: all_nodes_def)

definition evicted :: "'a peerTable_scheme \<Rightarrow> 'a peerTable_scheme \<Rightarrow> bool" where
  "evicted d d' \<longleftrightarrow> (\<exists>ks. length ks \<le> 2 \<and> d' = fold evict_node ks d)"

lemma evictedI: "length ks \<le> 2 \<Longrightarrow> d' = fold evict_node ks d \<Longrightarrow> evicted d d'"
  unfolding evicted_def by blast

lemma evicted_simps [simp]: "evicted d d" "evicted d (evict_node k d)" "evicted d (evict_node j (evict_node k d))"
  by (rule evictedI [of "[]"], simp, simp) (rule evictedI [of "[k]"], simp, simp, rule evictedI [of "[k, j]"], simp, simp)

text \<open>Every eviction is counted.\<close>

lemma fold_evict_frame:
  "fold evict_node ks d = d\<lparr>dNodes := fold gdel ks (dNodes d), dEvictions := dEvictions d + of_nat (length ks)\<rparr>"
  by (induction ks arbitrary: d) (simp_all add: evict_node_def add.assoc)

lemma admitLocked_evicted: "evicted d (fst (admitLocked iter addr d))"
  by (simp add: admitLocked_def Let_def split: option.split)

lemma admitLocked_frame:
  obtains ks where "length ks \<le> 2"
    "fst (admitLocked iter addr d) = d\<lparr>dNodes := fold gdel ks (dNodes d), dEvictions := dEvictions d + of_nat (length ks)\<rparr>"
  using admitLocked_evicted [of d iter addr] fold_evict_frame [of _ d] unfolding evicted_def by metis

definition table_ok :: "'a peerTable_scheme \<Rightarrow> bool" where
  "table_ok d \<longleftrightarrow> gmap_ok (dNodes d) \<and> (case dRT d of None \<Rightarrow> True | Some rt \<Rightarrow> rt_ok rt)"

text \<open>
  A step of the table: the node map, the routing table and the two counters are the only fields that change,
  and a well-formed table stays so.
\<close>

definition table_step :: "'a peerTable_scheme \<Rightarrow> 'a peerTable_scheme \<Rightarrow> bool" where
  "table_step d d' \<longleftrightarrow> (\<exists>es rt j ev. d' = d\<lparr>dNodes := es, dRT := rt, dJoins := j, dEvictions := ev\<rparr>) \<and>
     (table_ok d \<longrightarrow> table_ok d')"

lemma table_stepI:
  "d' = d\<lparr>dNodes := es, dRT := rt, dJoins := j, dEvictions := ev\<rparr> \<Longrightarrow> (table_ok d \<Longrightarrow> table_ok d') \<Longrightarrow> table_step d d'"
  unfolding table_step_def by blast

lemma table_step_refl [simp]: "table_step d d"
  by (rule table_stepI [where es = "dNodes d" and rt = "dRT d" and j = "dJoins d" and ev = "dEvictions d"]) simp_all

lemma table_step_trans [trans]: "table_step d d' \<Longrightarrow> table_step d' d'' \<Longrightarrow> table_step d d''"
proof -
  assume a: "table_step d d'" and b: "table_step d' d''"
  obtain es rt j ev where d': "d' = d\<lparr>dNodes := es, dRT := rt, dJoins := j, dEvictions := ev\<rparr>"
    using a unfolding table_step_def by blast
  obtain es' rt' j' ev' where "d'' = d'\<lparr>dNodes := es', dRT := rt', dJoins := j', dEvictions := ev'\<rparr>"
    using b unfolding table_step_def by blast
  then have "d'' = d\<lparr>dNodes := es', dRT := rt', dJoins := j', dEvictions := ev'\<rparr>" using d' by simp
  then show ?thesis by (rule table_stepI) (use a b in \<open>simp add: table_step_def\<close>)
qed

lemma table_step_fields:
  assumes "table_step d d'"
  shows "dSelfID d' = dSelfID d" "dBootstrapPeers d' = dBootstrapPeers d" "dObservedCounts d' = dObservedCounts d"
    "dPeerCachePath d' = dPeerCachePath d" "peerTable.more d' = peerTable.more d" "table_ok d \<Longrightarrow> table_ok d'"
proof -
  obtain es rt j ev where "d' = d\<lparr>dNodes := es, dRT := rt, dJoins := j, dEvictions := ev\<rparr>"
    using assms unfolding table_step_def by blast
  then show "dSelfID d' = dSelfID d" "dBootstrapPeers d' = dBootstrapPeers d" "dObservedCounts d' = dObservedCounts d"
    "dPeerCachePath d' = dPeerCachePath d" "peerTable.more d' = peerTable.more d" by simp_all
  show "table_ok d \<Longrightarrow> table_ok d'" using assms by (simp add: table_step_def)
qed

lemma table_step_fold:
  assumes "\<And>x d. x \<in> set xs \<Longrightarrow> table_step d (f x d)"
  shows "table_step d (fold f xs d)"
  using assms
proof (induction xs arbitrary: d)
  case (Cons x xs)
  have "table_step d (f x d)" using Cons.prems by simp
  also have "table_step (f x d) (fold f xs (f x d))" using Cons.prems by (intro Cons.IH [of "f x d"]) simp
  finally show ?case by simp
qed simp

lemma table_step_nodes:
  assumes "gmap_ok (dNodes d) \<Longrightarrow> gmap_ok es"
  shows "table_step d (d\<lparr>dNodes := es\<rparr>)" "table_step d (d\<lparr>dNodes := es, dJoins := j\<rparr>)"
    "table_step d (d\<lparr>dNodes := es, dEvictions := ev\<rparr>)"
proof -
  show "table_step d (d\<lparr>dNodes := es\<rparr>)"
    by (rule table_stepI [where es = es and rt = "dRT d" and j = "dJoins d" and ev = "dEvictions d"])
      (use assms in \<open>simp_all add: table_ok_def\<close>)
  show "table_step d (d\<lparr>dNodes := es, dJoins := j\<rparr>)"
    by (rule table_stepI [where es = es and rt = "dRT d" and j = j and ev = "dEvictions d"])
      (use assms in \<open>simp_all add: table_ok_def\<close>)
  show "table_step d (d\<lparr>dNodes := es, dEvictions := ev\<rparr>)"
    by (rule table_stepI [where es = es and rt = "dRT d" and j = "dJoins d" and ev = ev])
      (use assms in \<open>simp_all add: table_ok_def\<close>)
qed

lemma ParseID_length: "ParseID s = Some i \<Longrightarrow> length i = IDLen"
  by (auto simp: ParseID_def split: option.splits if_splits)

lemma table_step_rtUpdate: "table_step d (rtUpdate nodeID addr port d)"
proof (cases "dRT d = None \<or> nodeID = dSelfID d \<or> ParseID nodeID = None")
  case True
  then have "rtUpdate nodeID addr port d = d" by (auto simp: rtUpdate_def split: option.split)
  then show ?thesis by simp
next
  case False
  then obtain rt i where ri: "dRT d = Some rt" "ParseID nodeID = Some i" "nodeID \<noteq> dSelfID d" by auto
  let ?rt = "Update rt \<lparr>cID = i, cAddress = addr, cPort = port\<rparr>"
  have "rt_ok rt \<Longrightarrow> rt_ok ?rt" using ParseID_length [OF ri(2)] by (intro rt_ok_Update) simp_all
  moreover have eq: "rtUpdate nodeID addr port d = d\<lparr>dRT := Some ?rt\<rparr>" using ri by (simp add: rtUpdate_def)
  ultimately show ?thesis
    by (intro table_stepI [where es = "dNodes d" and rt = "Some ?rt" and j = "dJoins d" and ev = "dEvictions d"])
      (simp_all add: table_ok_def ri(1))
qed

lemma rtUpdate_nodes [simp]: "dNodes (rtUpdate nodeID addr port d) = dNodes d"
  by (simp add: rtUpdate_def split: option.split)

lemma table_step_admit: "table_step d (fst (admitLocked iter addr d))"
proof -
  obtain ks ev where "fst (admitLocked iter addr d) = d\<lparr>dNodes := fold gdel ks (dNodes d), dEvictions := ev\<rparr>"
    by (metis admitLocked_frame)
  then show ?thesis by (simp add: table_step_nodes gmap_ok_fold_gdel)
qed

lemma table_step_upsert: "table_step d (upsertNode iter now k addr pk sk port caps relays ml verified d)"
proof (cases "k = dSelfID d")
  case True
  then show ?thesis by (simp add: upsertNode_def)
next
  case self: False
  show ?thesis
  proof (cases "gget (dNodes d) k")
    case (Some n)
    have "table_step d (d\<lparr>dNodes := gput k (refresh_node now addr pk sk port caps relays ml verified n) (dNodes d)\<rparr>)"
      by (rule table_step_nodes) simp
    also note table_step_rtUpdate [of _ k addr port]
    finally show ?thesis using self Some by (simp add: upsertNode_def)
  next
    case nofind: None
    obtain d' ok where adm: "admitLocked iter addr d = (d', ok)" by (cases "admitLocked iter addr d")
    have step: "table_step d d'" using table_step_admit [of d iter addr] adm by simp
    show ?thesis
    proof (cases ok)
      case True
      let ?n = "\<lparr>nID = k, nAddress = addr, nLastSeen = now, nLatency = 0, nActive = verified, nPubKey = pk,
         nSignKey = sk, nPort = port, nCapabilities = caps, nRelayIDs = relays, nMLKEMPub = ml\<rparr>"
      note step
      also have "table_step d' (d'\<lparr>dNodes := gput k ?n (dNodes d'), dJoins := dJoins d' + 1\<rparr>)"
        by (rule table_step_nodes) simp
      also note table_step_rtUpdate [of _ k addr port]
      finally show ?thesis using self nofind adm True by (simp add: upsertNode_def)
    qed (use step self nofind adm in \<open>simp add: upsertNode_def\<close>)
  qed
qed

lemma table_step_merge: "table_step d (mergePeer sha256 iter now pi att d)"
proof (cases "piNodeID pi = [] \<or> piNodeID pi = dSelfID d \<or> piNodeID pi \<noteq> DeriveNodeID sha256 (piSignKey pi)")
  case True
  then have "mergePeer sha256 iter now pi att d = d" by (auto simp: mergePeer_def)
  then show ?thesis by simp
next
  case False
  let ?k = "piNodeID pi"
  have b: "?k \<noteq> []" "?k \<noteq> dSelfID d" "DeriveNodeID sha256 (piSignKey pi) = ?k" using False by argo+
  show ?thesis
  proof (cases "gget (dNodes d) ?k")
    case (Some n)
    have "table_step d (d\<lparr>dNodes := gput ?k (merge_node pi att n) (dNodes d)\<rparr>)" by (rule table_step_nodes) simp
    then show ?thesis using b Some by (simp add: mergePeer_def)
  next
    case nofind: None
    obtain d' ok where adm: "admitLocked iter (piAddress pi) d = (d', ok)" by (cases "admitLocked iter (piAddress pi) d")
    have step: "table_step d d'" using table_step_admit [of d iter "piAddress pi"] adm by simp
    have "table_step d' (d'\<lparr>dNodes := gput ?k n (dNodes d'), dJoins := dJoins d' + 1\<rparr>)" for n
      by (rule table_step_nodes) simp
    from table_step_trans [OF step this] step show ?thesis
      using b nofind adm by (simp add: mergePeer_def Let_def split: bool.split)
  qed
qed

lemma table_step_learn_contact: "table_step d (learn_contact sha256 iter now c d)"
  by (simp add: learn_contact_def learnCandidate_def table_step_upsert)

lemma table_step_contacts: "table_step d (learnContacts sha256 iter now cs d)"
  unfolding learnContacts_def by (rule table_step_fold) (rule table_step_learn_contact)

lemma table_step_probe: "table_step d (probe now latency promote k d)"
proof (cases "gget (dNodes d) k")
  case None
  then show ?thesis by (simp add: probe_def)
next
  case (Some n)
  have "table_step d (d\<lparr>dNodes := gput k (probe_node now latency promote n) (dNodes d)\<rparr>)" by (rule table_step_nodes) simp
  then show ?thesis using Some by (simp add: probe_def)
qed

lemma table_step_latencies: "table_step d (checkLatencies iter now latency d)"
proof -
  obtain xs ys where t: "latency_targets iter d = (xs, ys)" by (cases "latency_targets iter d")
  have "table_step d (fold (\<lambda>k. probe now (latency k) False k) xs d)" by (rule table_step_fold) (rule table_step_probe)
  also have "table_step (fold (\<lambda>k. probe now (latency k) False k) xs d)
      (fold (\<lambda>k. probe now (latency k) True k) ys (fold (\<lambda>k. probe now (latency k) False k) xs d))"
    by (rule table_step_fold) (rule table_step_probe)
  finally show ?thesis by (simp add: checkLatencies_def t)
qed

text \<open>The entry \<^verbatim>\<open>upsertNode\<close> and \<^verbatim>\<open>mergePeer\<close> write for a peer they did not know.\<close>

definition new_node :: "string \<Rightarrow> string \<Rightarrow> int \<Rightarrow> bool \<Rightarrow> bytes \<Rightarrow> bytes \<Rightarrow> u16 \<Rightarrow> string list \<Rightarrow> string list \<Rightarrow> bytes \<Rightarrow> node" where
  "new_node k addr seen act pk sk port caps relays ml = \<lparr>nID = k, nAddress = addr, nLastSeen = seen, nLatency = 0,
     nActive = act, nPubKey = pk, nSignKey = sk, nPort = port, nCapabilities = caps, nRelayIDs = relays, nMLKEMPub = ml\<rparr>"

text \<open>
  Every update of the table has this shape: at most two entries are dropped and counted as evictions, and at most
  one entry, of an identifier other than the local one, is written.
\<close>

definition dropped :: "string list \<Rightarrow> 'a peerTable_scheme \<Rightarrow> 'a peerTable_scheme \<Rightarrow> bool" where
  "dropped ks d d' \<longleftrightarrow> length ks \<le> 2 \<and> dNodes d' = fold gdel ks (dNodes d) \<and> dEvictions d' = dEvictions d + of_nat (length ks)"

definition wrote :: "string list \<Rightarrow> string \<Rightarrow> node \<Rightarrow> 'a peerTable_scheme \<Rightarrow> 'a peerTable_scheme \<Rightarrow> bool" where
  "wrote ks k n d d' \<longleftrightarrow> k \<noteq> dSelfID d \<and> length ks \<le> 2 \<and> dNodes d' = gput k n (fold gdel ks (dNodes d)) \<and>
     dEvictions d' = dEvictions d + of_nat (length ks)"

lemma all_nodes_wrote: "all_nodes P d \<Longrightarrow> wrote ks k n d d' \<Longrightarrow> P k n \<Longrightarrow> all_nodes P d'"
  by (auto simp: all_nodes_def wrote_def gget_fold_gdel split: if_splits)

lemma all_nodes_dropped: "all_nodes P d \<Longrightarrow> dropped ks d d' \<Longrightarrow> all_nodes P d'"
  by (auto simp: all_nodes_def dropped_def gget_fold_gdel split: if_splits)

lemma dEvictions_rt [simp]: "dEvictions (rtUpdate k addr port d) = dEvictions d"
  by (simp add: rtUpdate_def Let_def split: option.split)

lemma upsertNode_cases:
  assumes d': "d' = upsertNode iter now k addr pk sk port caps relays ml verified d"
  obtains (none) ks where "dropped ks d d'"
  | (known) n where "gget (dNodes d) k = Some n" "wrote [] k (refresh_node now addr pk sk port caps relays ml verified n) d d'"
  | (fresh) ks where "gget (dNodes d) k = None" "wrote ks k (new_node k addr now verified pk sk port caps relays ml) d d'"
proof (cases "k = dSelfID d")
  case True
  have "dropped [] d d'" using True by (simp add: d' upsertNode_def dropped_def)
  then show ?thesis by (rule none)
next
  case self: False
  show ?thesis
  proof (cases "gget (dNodes d) k")
    case (Some n)
    have "wrote [] k (refresh_node now addr pk sk port caps relays ml verified n) d d'"
      using self Some by (simp add: d' upsertNode_def wrote_def)
    then show ?thesis by (rule known [OF Some])
  next
    case nofind: None
    obtain ks where l: "length ks \<le> 2" and
      adm: "fst (admitLocked iter addr d) = d\<lparr>dNodes := fold gdel ks (dNodes d), dEvictions := dEvictions d + of_nat (length ks)\<rparr>"
      by (rule admitLocked_frame)
    show ?thesis
    proof (cases "snd (admitLocked iter addr d)")
      case True
      then have "admitLocked iter addr d =
          (d\<lparr>dNodes := fold gdel ks (dNodes d), dEvictions := dEvictions d + of_nat (length ks)\<rparr>, True)"
        using adm by (simp add: prod_eq_iff)
      then have "wrote ks k (new_node k addr now verified pk sk port caps relays ml) d d'"
        using self nofind l by (simp add: d' upsertNode_def new_node_def wrote_def)
      then show ?thesis by (rule fresh [OF nofind])
    next
      case False
      then have "admitLocked iter addr d =
          (d\<lparr>dNodes := fold gdel ks (dNodes d), dEvictions := dEvictions d + of_nat (length ks)\<rparr>, False)"
        using adm by (simp add: prod_eq_iff)
      then have "dropped ks d d'" using self nofind l by (simp add: d' upsertNode_def dropped_def)
      then show ?thesis by (rule none)
    qed
  qed
qed

lemma mergePeer_cases:
  assumes d': "d' = mergePeer sha256 iter now pi att d"
  obtains (none) ks where "dropped ks d d'"
  | (known) n where "piNodeID pi = DeriveNodeID sha256 (piSignKey pi)" "piNodeID pi \<noteq> []"
      "gget (dNodes d) (piNodeID pi) = Some n" "wrote [] (piNodeID pi) (merge_node pi att n) d d'"
  | (fresh) ks seen where "piNodeID pi = DeriveNodeID sha256 (piSignKey pi)" "piNodeID pi \<noteq> []"
      "gget (dNodes d) (piNodeID pi) = None"
      "wrote ks (piNodeID pi) (new_node (piNodeID pi) (piAddress pi) seen False (piPubKey pi) (piSignKey pi) (piPort pi)
         (attestedOnly att (piCapabilities pi)) (attestedOnly att (piRelayIDs pi)) (piMLKEMPub pi)) d d'"
proof -
  have same: ?thesis if "d' = d" by (rule none [of "[]"]) (simp add: that dropped_def)
  let ?k = "piNodeID pi"
  show ?thesis
  proof (cases "?k = [] \<or> ?k = dSelfID d \<or> ?k \<noteq> DeriveNodeID sha256 (piSignKey pi)")
    case True
    then show ?thesis by (intro same) (auto simp: d' mergePeer_def)
  next
    case False
    then have b: "?k \<noteq> []" "?k \<noteq> dSelfID d" "DeriveNodeID sha256 (piSignKey pi) = ?k" by argo+
    show ?thesis
    proof (cases "gget (dNodes d) ?k")
      case (Some n)
      show ?thesis
      proof (cases "piLastSeen pi < nLastSeen n")
        case True
        then show ?thesis using b Some by (intro same) (simp add: d' mergePeer_def)
      next
        case False
        have "wrote [] ?k (merge_node pi att n) d d'" using b Some False by (simp add: d' mergePeer_def wrote_def)
        then show ?thesis by (rule known [OF b(3) [symmetric] b(1) Some])
      qed
    next
      case nofind: None
      obtain ks where l: "length ks \<le> 2" and
        adm: "fst (admitLocked iter (piAddress pi) d) = d\<lparr>dNodes := fold gdel ks (dNodes d), dEvictions := dEvictions d + of_nat (length ks)\<rparr>"
        by (rule admitLocked_frame)
      show ?thesis
      proof (cases "snd (admitLocked iter (piAddress pi) d)")
        case True
        then have a: "admitLocked iter (piAddress pi) d =
            (d\<lparr>dNodes := fold gdel ks (dNodes d), dEvictions := dEvictions d + of_nat (length ks)\<rparr>, True)"
          using adm by (simp add: prod_eq_iff)
        have "wrote ks ?k (new_node ?k (piAddress pi) (if piLastSeen pi = zeroTime then now else piLastSeen pi)
           False (piPubKey pi) (piSignKey pi) (piPort pi) (attestedOnly att (piCapabilities pi))
           (attestedOnly att (piRelayIDs pi)) (piMLKEMPub pi)) d d'"
          using b nofind a l by (simp add: d' mergePeer_def new_node_def Let_def wrote_def)
        then show ?thesis by (rule fresh [OF b(3) [symmetric] b(1) nofind])
      next
        case False
        then have "admitLocked iter (piAddress pi) d =
            (d\<lparr>dNodes := fold gdel ks (dNodes d), dEvictions := dEvictions d + of_nat (length ks)\<rparr>, False)"
          using adm by (simp add: prod_eq_iff)
        then have "dropped ks d d'" using b nofind l by (simp add: d' mergePeer_def dropped_def)
        then show ?thesis by (rule none)
      qed
    qed
  qed
qed


section \<open>Invariants of the updates\<close>

lemma all_nodes_upsert:
  assumes "all_nodes P d"
    and "\<And>n. gget (dNodes d) k = Some n \<Longrightarrow> P k n \<Longrightarrow> k \<noteq> dSelfID d \<Longrightarrow>
           P k (refresh_node now addr pk sk port caps relays ml verified n)"
    and "k \<noteq> dSelfID d \<Longrightarrow> P k (new_node k addr now verified pk sk port caps relays ml)"
  shows "all_nodes P (upsertNode iter now k addr pk sk port caps relays ml verified d)"
proof -
  define d' where "d' = upsertNode iter now k addr pk sk port caps relays ml verified d"
  from d'_def have "all_nodes P d'"
  proof (cases rule: upsertNode_cases)
    case (none ks)
    then show ?thesis by (rule all_nodes_dropped [OF assms(1)])
  next
    case (known n)
    have "k \<noteq> dSelfID d" using known(2) by (simp add: wrote_def)
    from all_nodes_wrote [OF assms(1) known(2) assms(2) [OF known(1) all_nodesD [OF assms(1) known(1)] this]] show ?thesis .
  next
    case (fresh ks)
    have "k \<noteq> dSelfID d" using fresh(2) by (simp add: wrote_def)
    from all_nodes_wrote [OF assms(1) fresh(2) assms(3) [OF this]] show ?thesis .
  qed
  then show ?thesis by (simp add: d'_def)
qed

lemma all_nodes_merge:
  assumes "all_nodes P d"
    and "\<And>n. piNodeID pi = DeriveNodeID sha256 (piSignKey pi) \<Longrightarrow> piNodeID pi \<noteq> [] \<Longrightarrow> piNodeID pi \<noteq> dSelfID d \<Longrightarrow>
           P (piNodeID pi) n \<Longrightarrow> P (piNodeID pi) (merge_node pi att n)"
    and "\<And>seen. piNodeID pi = DeriveNodeID sha256 (piSignKey pi) \<Longrightarrow> piNodeID pi \<noteq> [] \<Longrightarrow> piNodeID pi \<noteq> dSelfID d \<Longrightarrow>
           P (piNodeID pi) (new_node (piNodeID pi) (piAddress pi) seen False (piPubKey pi) (piSignKey pi) (piPort pi)
             (attestedOnly att (piCapabilities pi)) (attestedOnly att (piRelayIDs pi)) (piMLKEMPub pi))"
  shows "all_nodes P (mergePeer sha256 iter now pi att d)"
proof -
  define d' where "d' = mergePeer sha256 iter now pi att d"
  from d'_def have "all_nodes P d'"
  proof (cases rule: mergePeer_cases)
    case (none ks)
    then show ?thesis by (rule all_nodes_dropped [OF assms(1)])
  next
    case (known n)
    have "piNodeID pi \<noteq> dSelfID d" using known(4) by (simp add: wrote_def)
    from all_nodes_wrote [OF assms(1) known(4) assms(2) [OF known(1,2) this all_nodesD [OF assms(1) known(3)]]] show ?thesis .
  next
    case (fresh ks seen)
    have "piNodeID pi \<noteq> dSelfID d" using fresh(4) by (simp add: wrote_def)
    from all_nodes_wrote [OF assms(1) fresh(4) assms(3) [OF fresh(1,2) this]] show ?thesis .
  qed
  then show ?thesis by (simp add: d'_def)
qed

lemma all_nodes_probe:
  assumes "all_nodes P d" and "\<And>n. P k n \<Longrightarrow> P k (probe_node now latency promote n)"
  shows "all_nodes P (probe now latency promote k d)"
  using assms by (auto simp: all_nodes_def probe_def split: option.splits if_splits)

lemma all_nodes_fold:
  assumes "all_nodes P d" and "\<And>x d. x \<in> set xs \<Longrightarrow> all_nodes P d \<Longrightarrow> dSelfID d = self \<Longrightarrow> all_nodes P (f x d)"
    and "\<And>x d. table_step d (f x d)" and "dSelfID d = self"
  shows "all_nodes P (fold f xs d)"
  using assms(1,2,4)
proof (induction xs arbitrary: d)
  case (Cons x xs)
  have "dSelfID (f x d) = self" using table_step_fields(1) [OF assms(3)] Cons.prems(3) by simp
  moreover have "all_nodes P (f x d)" using Cons.prems by simp
  ultimately show ?case using Cons.IH [of "f x d"] Cons.prems(2) by simp
qed simp

text \<open>The binding of a node to its key: the entry stands under the identifier its signing key gives.\<close>

definition bound_node :: "(bytes \<Rightarrow> bytes) \<Rightarrow> string \<Rightarrow> string \<Rightarrow> node \<Rightarrow> bool" where
  "bound_node sha256 self k n \<longleftrightarrow> nID n = k \<and> k \<noteq> self \<and> nSignKey n \<noteq> [] \<and> DeriveNodeID sha256 (nSignKey n) = k"

lemma DeriveNodeID_Nil [simp]: "DeriveNodeID sha256 [] = []"
  by (simp add: DeriveNodeID_def)

lemma refresh_node_id [simp]: "nID (refresh_node now addr pk sk port caps relays ml verified n) = nID n"
  by (simp add: refresh_node_def Let_def)

lemma refresh_node_key: "nSignKey (refresh_node now addr pk sk port caps relays ml verified n) = (if sk = [] then nSignKey n else sk)"
  by (simp add: refresh_node_def Let_def)

lemma refresh_node_live:
  "nActive (refresh_node now addr pk sk port caps relays ml verified n) = (verified \<or> nActive n)"
  "nLastSeen (refresh_node now addr pk sk port caps relays ml verified n) = (if verified then now else nLastSeen n)"
  "nCapabilities (refresh_node now addr pk sk port caps relays ml verified n) = (if caps = [] then nCapabilities n else caps)"
  "nRelayIDs (refresh_node now addr pk sk port caps relays ml verified n) = (if relays = [] then nRelayIDs n else relays)"
  by (simp_all add: refresh_node_def Let_def)

lemma merge_node_simps:
  "nID (merge_node pi att n) = nID n" "nSignKey (merge_node pi att n) = (if piSignKey pi = [] then nSignKey n else piSignKey pi)"
  "nActive (merge_node pi att n) = nActive n" "nLastSeen (merge_node pi att n) = nLastSeen n"
  "nCapabilities (merge_node pi att n) = (if att \<and> piCapabilities pi \<noteq> [] then piCapabilities pi else nCapabilities n)"
  "nRelayIDs (merge_node pi att n) = (if att \<and> piRelayIDs pi \<noteq> [] then piRelayIDs pi else nRelayIDs n)"
  by (simp_all add: merge_node_def Let_def)

lemma probe_node_simps [simp]: "nID (probe_node now latency promote n) = nID n" "nSignKey (probe_node now latency promote n) = nSignKey n"
  by (simp_all add: probe_node_def Let_def)

lemma bound_upsert:
  assumes "all_nodes (bound_node sha256 (dSelfID d)) d" "DeriveNodeID sha256 sk = k" "sk \<noteq> []"
  shows "all_nodes (bound_node sha256 (dSelfID d)) (upsertNode iter now k addr pk sk port caps relays ml verified d)"
  by (rule all_nodes_upsert [OF assms(1)])
    (use assms(2,3) in \<open>simp_all add: bound_node_def refresh_node_key new_node_def\<close>)

lemma bound_merge:
  assumes "all_nodes (bound_node sha256 (dSelfID d)) d"
  shows "all_nodes (bound_node sha256 (dSelfID d)) (mergePeer sha256 iter now pi att d)"
  by (rule all_nodes_merge [OF assms]) (auto simp: bound_node_def merge_node_simps new_node_def)

lemma bound_contacts:
  assumes "all_nodes (bound_node sha256 (dSelfID d)) d"
  shows "all_nodes (bound_node sha256 (dSelfID d)) (learnContacts sha256 iter now cs d)"
  unfolding learnContacts_def
proof (rule all_nodes_fold [OF assms _ table_step_learn_contact refl])
  fix c d' assume a: "all_nodes (bound_node sha256 (dSelfID d)) d'" and s: "dSelfID d' = dSelfID d"
  have "all_nodes (bound_node sha256 (dSelfID d')) d'" using a s by simp
  from bound_upsert [OF this, where sk = "dcSignKey c" and k = "dcNodeID c" and iter = iter and now = now and addr = "dcAddress c"
      and pk = "dcPubKey c" and port = "dcPort c" and caps = "[]" and relays = "[]" and ml = "dcMLKEMPub c" and verified = False]
  show "all_nodes (bound_node sha256 (dSelfID d)) (learn_contact sha256 iter now c d')"
    using a s by (auto simp: learn_contact_def learnCandidate_def)
qed

lemma bound_latencies:
  assumes "all_nodes (bound_node sha256 (dSelfID d)) d"
  shows "all_nodes (bound_node sha256 (dSelfID d)) (checkLatencies iter now latency d)"
proof -
  obtain xs ys where t: "latency_targets iter d = (xs, ys)" by (cases "latency_targets iter d")
  have p: "all_nodes (bound_node sha256 (dSelfID d)) (probe now (latency k) b k d')"
    if "all_nodes (bound_node sha256 (dSelfID d)) d'" for k b d'
    by (rule all_nodes_probe [OF that]) (simp add: bound_node_def)
  have 1: "all_nodes (bound_node sha256 (dSelfID d)) (fold (\<lambda>k. probe now (latency k) False k) xs d)"
    by (rule all_nodes_fold [OF assms p table_step_probe refl])
  have "all_nodes (bound_node sha256 (dSelfID d)) (fold (\<lambda>k. probe now (latency k) True k) ys
      (fold (\<lambda>k. probe now (latency k) False k) xs d))"
    by (rule all_nodes_fold [OF 1 p table_step_probe refl])
  then show ?thesis by (simp add: checkLatencies_def t)
qed

lemma keyed_bound: "table_ok d \<Longrightarrow> all_nodes (bound_node sha256 (dSelfID d)) d \<Longrightarrow> keyed d"
  by (auto simp: keyed_def table_ok_def all_nodes_def bound_node_def)

text \<open>Without bootstrap peers the table keeps to its cap.\<close>

definition capped :: "'a peerTable_scheme \<Rightarrow> bool" where
  "capped d \<longleftrightarrow> (dBootstrapPeers d = [] \<longrightarrow> length (dNodes d) \<le> maxPeers)"

lemma not_anchored: "dBootstrapPeers d = [] \<Longrightarrow> \<not> isBootstrapAddr (dBootstrapPeers d) addr"
  by (simp add: isBootstrapAddr_def)

lemma admit_makes_room:
  assumes "range_order iter" "keyed d" "dBootstrapPeers d = []" "length (dNodes d) \<le> maxPeers"
    and adm: "admitLocked iter addr d = (d', True)"
  shows "length (dNodes d') < maxPeers"
  using assms(1,2)
proof (cases rule: admitLocked_cases [where addr = addr])
  case boot
  then show ?thesis using not_anchored [OF assms(3)] by blast
next
  case refuse
  then show ?thesis using adm by simp
next
  case (admit subs globs)
  have ok: "gmap_ok (dNodes d)" using assms(2) by (simp add: keyed_def)
  have d': "dNodes d' = fold gdel (subs @ globs) (dNodes d)" using admit(2) adm dNodes_fold_evict [of "subs @ globs" d] by simp
  show ?thesis
  proof (cases "maxPeers \<le> length (fold gdel subs (dNodes d))")
    case False
    then have "globs = []" using admit(4) by (simp add: dNodes_fold_evict)
    then show ?thesis using False d' by simp
  next
    case True
    then obtain k n where k: "globs = [k]" "evictee (\<lambda>n. True) d k n" using admit(4) by (auto simp: dNodes_fold_evict)
    have "subs = []"
    proof (rule ccontr)
      assume "subs \<noteq> []"
      then obtain j m where "subs = [j]" "evictee (\<lambda>n. subnetKey (nAddress n) = subnetKey addr) d j m"
        using admit(3) by (auto split: if_splits)
      then have "length (fold gdel subs (dNodes d)) < maxPeers"
        using gm.evict_makes_room [OF ok assms(4), of j] by (simp add: evictee_def maxPeers_def)
      then show False using True by simp
    qed
    then show ?thesis using gm.evict_makes_room [OF ok assms(4), of k] k d' by (simp add: evictee_def maxPeers_def)
  qed
qed

lemma capped_written:
  assumes "length (dNodes d) < maxPeers"
  shows "length (gput k n (dNodes d)) \<le> maxPeers"
  using assms by (simp add: length_gput)

lemma capped_upsert:
  assumes "range_order iter" "keyed d" "capped d"
  shows "capped (upsertNode iter now k addr pk sk port caps relays ml verified d)"
proof (cases "dBootstrapPeers d = [] \<and> k \<noteq> dSelfID d")
  case True
  then have len: "length (dNodes d) \<le> maxPeers" using assms(3) by (simp add: capped_def)
  have "length (dNodes (upsertNode iter now k addr pk sk port caps relays ml verified d)) \<le> maxPeers"
  proof (cases "gget (dNodes d) k")
    case (Some n)
    then show ?thesis using True len by (simp add: upsertNode_def length_gput)
  next
    case nofind: None
    obtain d' ok where adm: "admitLocked iter addr d = (d', ok)" by (cases "admitLocked iter addr d")
    obtain ks ev where "d' = d\<lparr>dNodes := fold gdel ks (dNodes d), dEvictions := ev\<rparr>"
      using adm admitLocked_frame [of iter addr d] by (metis fst_conv)
    then have "length (dNodes d') \<le> maxPeers" using length_fold_gdel [of ks "dNodes d"] len by simp
    moreover have "length (dNodes d') < maxPeers" if ok
      using admit_makes_room [OF assms(1,2) _ len] adm True that by simp
    ultimately show ?thesis using True nofind adm by (cases ok) (simp_all add: upsertNode_def capped_written)
  qed
  then show ?thesis by (simp add: capped_def)
next
  case False
  then show ?thesis
    using assms(3) table_step_fields(2) [OF table_step_upsert, of iter now k addr pk sk port caps relays ml verified d]
    by (auto simp: capped_def upsertNode_def)
qed

lemma capped_merge:
  assumes "range_order iter" "keyed d" "capped d"
  shows "capped (mergePeer sha256 iter now pi att d)"
proof (cases "dBootstrapPeers d = [] \<and> piNodeID pi \<noteq> [] \<and> piNodeID pi \<noteq> dSelfID d \<and> DeriveNodeID sha256 (piSignKey pi) = piNodeID pi")
  case True
  then have len: "length (dNodes d) \<le> maxPeers" using assms(3) by (simp add: capped_def)
  have "length (dNodes (mergePeer sha256 iter now pi att d)) \<le> maxPeers"
  proof (cases "gget (dNodes d) (piNodeID pi)")
    case (Some n)
    then show ?thesis using True len by (simp add: mergePeer_def length_gput)
  next
    case nofind: None
    obtain d' ok where adm: "admitLocked iter (piAddress pi) d = (d', ok)" by (cases "admitLocked iter (piAddress pi) d")
    obtain ks ev where "d' = d\<lparr>dNodes := fold gdel ks (dNodes d), dEvictions := ev\<rparr>"
      using adm admitLocked_frame [of iter "piAddress pi" d] by (metis fst_conv)
    then have "length (dNodes d') \<le> maxPeers" using length_fold_gdel [of ks "dNodes d"] len by simp
    moreover have "length (dNodes d') < maxPeers" if ok
      using admit_makes_room [OF assms(1,2) _ len] adm True that by simp
    ultimately show ?thesis using True nofind adm by (cases ok) (simp_all add: mergePeer_def capped_written Let_def)
  qed
  then show ?thesis by (simp add: capped_def)
next
  case False
  then show ?thesis
    using assms(3) table_step_fields(2) [OF table_step_merge, of sha256 iter now pi att d]
    by (auto simp: capped_def mergePeer_def)
qed

section \<open>Properties\<close>

text \<open>
  C5. Admission resists eclipsing. Making room for a peer never drops a node at the address of a bootstrap
  peer; a node it drops is the one seen longest ago among those of the newcomer's network, and then that
  network was at its cap, or among all, and then the table was full; after a successful admission the
  network has room below its cap or holds fewer peers than before; and a newcomer is refused only by a full
  table that consists of anchors.
\<close>
theorem admission_resists_eclipse:
  assumes "range_order iter" "keyed d" "admitLocked iter addr d = (d', ok)"
  shows "(\<forall>k n. gget (dNodes d') k = Some n \<longrightarrow> gget (dNodes d) k = Some n) \<and>
    (\<forall>k n. gget (dNodes d) k = Some n \<and> gget (dNodes d') k = None \<longrightarrow>
       \<not> isBootstrapAddr (dBootstrapPeers d) (nAddress n) \<and>
       (maxPeersPerSubnet \<le> length (subnet_peers d (subnetKey addr)) \<and>
          evictee (\<lambda>m. subnetKey (nAddress m) = subnetKey addr) d k n \<or>
        maxPeers \<le> length (dNodes d) \<and> evictee (\<lambda>_. True) d k n)) \<and>
    (ok \<and> \<not> isBootstrapAddr (dBootstrapPeers d) addr \<longrightarrow>
       length (subnet_peers d' (subnetKey addr)) < max maxPeersPerSubnet (length (subnet_peers d (subnetKey addr)))) \<and>
    (\<not> ok \<longrightarrow> d' = d \<and> maxPeers \<le> length (dNodes d) \<and> (\<forall>k n. gget (dNodes d) k = Some n \<longrightarrow> anchored d n))"
  using assms(1,2)
proof (cases rule: admitLocked_cases [where addr = addr])
  case (admit subs globs)
  let ?sk = "subnetKey addr"
  have d': "d' = fold evict_node (subs @ globs) d" "ok" using admit(2) assms(3) by simp_all
  have nodes: "dNodes d' = fold gdel (subs @ globs) (dNodes d)" unfolding d' by (rule dNodes_fold_evict)
  have gone: "maxPeersPerSubnet \<le> length (subnet_peers d ?sk) \<and> evictee (\<lambda>m. subnetKey (nAddress m) = ?sk) d k n \<or>
        maxPeers \<le> length (dNodes d) \<and> evictee (\<lambda>_. True) d k n"
    if "gget (dNodes d) k = Some n" "gget (dNodes d') k = None" for k n
  proof -
    have "k \<in> set (subs @ globs)" using that by (auto simp: nodes gget_fold_gdel simp del: fold_append split: if_splits)
    then consider "k \<in> set subs" | "k \<in> set globs" by auto
    then show ?thesis
    proof cases
      case 1
      then show ?thesis using admit(3) that(1) by (auto simp: evictee_def split: if_splits)
    next
      case 2
      then have "maxPeers \<le> length (fold gdel subs (dNodes d))" "\<exists>n. evictee (\<lambda>_. True) d k n"
        using admit(4) by (auto simp: dNodes_fold_evict split: if_splits)
      then show ?thesis using that(1) length_fold_gdel [of subs "dNodes d"] by (auto simp: evictee_def)
    qed
  qed
  have room: "length (subnet_peers d' ?sk) < max maxPeersPerSubnet (length (subnet_peers d ?sk))"
  proof -
    have ok: "gmap_ok (subnet_peers d ?sk)" using assms(2) by (simp add: subnet_peers_def keyed_def)
    have sub: "subnet_peers d' ?sk = fold gdel (subs @ globs) (subnet_peers d ?sk)"
      by (simp only: subnet_peers_def dNodes_fold_evict filter_fold_gdel anchored_def d'(1) dBootstrapPeers_fold_evict)
    show ?thesis
    proof (cases "maxPeersPerSubnet \<le> length (subnet_peers d ?sk)")
      case True
      then obtain k n where k: "subs = [k]" "evictee (\<lambda>m. subnetKey (nAddress m) = ?sk) d k n" using admit(3) by auto
      have "(k, n) \<in> set (subnet_peers d ?sk)" using k(2) gget_SomeD [of "dNodes d" k n] by (simp add: evictee_def subnet_peers_def)
      then have "gget (subnet_peers d ?sk) k = Some n" using ok by (simp add: gget_Some_iff)
      then have "length (gdel k (subnet_peers d ?sk)) < length (subnet_peers d ?sk)"
        using gm.evict_makes_room [OF ok order_refl, of k] True by (cases "subnet_peers d ?sk") (simp_all add: maxPeersPerSubnet_def)
      then show ?thesis using length_fold_gdel [of globs "gdel k (subnet_peers d ?sk)"] sub k(1) by simp
    next
      case False
      have "length (subnet_peers d' ?sk) \<le> length (subnet_peers d ?sk)" unfolding sub by (rule length_fold_gdel)
      then show ?thesis using False by simp
    qed
  qed
  have anc: "\<not> isBootstrapAddr (dBootstrapPeers d) (nAddress n)"
    if "gget (dNodes d) k = Some n" "gget (dNodes d') k = None" for k n
    using gone [OF that] by (auto simp: evictee_def anchored_def)
  show ?thesis
  proof (intro conjI allI impI)
    fix k n assume "gget (dNodes d') k = Some n"
    then show "gget (dNodes d) k = Some n" by (simp add: nodes gget_fold_gdel del: fold_append split: if_splits)
  next
    fix k n assume "gget (dNodes d) k = Some n \<and> gget (dNodes d') k = None"
    then show "\<not> isBootstrapAddr (dBootstrapPeers d) (nAddress n)"
      "maxPeersPerSubnet \<le> length (subnet_peers d ?sk) \<and> evictee (\<lambda>m. subnetKey (nAddress m) = ?sk) d k n \<or>
        maxPeers \<le> length (dNodes d) \<and> evictee (\<lambda>_. True) d k n" using anc gone by blast+
  qed (use room d'(2) in simp_all)
qed (use assms(3) in auto)

definition sample_node :: "string \<Rightarrow> string \<Rightarrow> int \<Rightarrow> node" where
  "sample_node k addr seen = new_node k addr seen True [] [] 0 [] [] []"

definition sample_table :: peerTable where
  "sample_table = \<lparr>dNodes = map (\<lambda>i. ([i], sample_node [i] (''10.0.0.'' @ [i] @ '':1'') (if i = CHR ''4'' then 5 else 9)))
       ''12345678'', dSelfID = ''me'', dRT = None, dBootstrapPeers = [''10.0.0.1:9''], dJoins = 8, dEvictions = 0,
     dObservedCounts = [], dPeerCachePath = []\<rparr>"

theorem admission_resists_eclipse_witness:
  "let d = SetBootstrapPeers [] sample_table; r = admitLocked (\<lambda>m. m) ''10.0.0.9:1'' d in
   keyed d \<and> length (subnet_peers d ''v4:10.0.0'') = 8 \<and> snd r \<and> gget (dNodes (fst r)) ''4'' = None \<and>
   length (subnet_peers (fst r) ''v4:10.0.0'') < 8"
proof -
  let ?d = "SetBootstrapPeers [] sample_table"
  let ?r = "admitLocked (\<lambda>m. m) ''10.0.0.9:1'' ?d"
  have k: "keyed ?d" by (auto simp: keyed_def sample_table_def SetBootstrapPeers_def gmap_ok_def gget_def sample_node_def new_node_def split: if_splits)
  have c: "length (subnet_peers ?d ''v4:10.0.0'') = 8" "subnetKey ''10.0.0.9:1'' = ''v4:10.0.0''" by code_simp+
  have r: "snd ?r" "gget (dNodes (fst ?r)) ''4'' = None" by code_simp+
  have "\<not> isBootstrapAddr (dBootstrapPeers ?d) ''10.0.0.9:1''" by code_simp
  then have "length (subnet_peers (fst ?r) ''v4:10.0.0'') < 8"
    using admission_resists_eclipse [OF range_order_id k prod.collapse [symmetric], of "''10.0.0.9:1''",
        THEN conjunct2, THEN conjunct2, THEN conjunct1] r(1) c
    by (simp add: maxPeersPerSubnet_def)
  then show ?thesis using k c r by (simp add: Let_def)
qed

end
