(* ===== verification/Discovery.thy ===== *)
theory Discovery
  imports PeerTable
begin

text \<open>
  The discovery service of \<^verbatim>\<open>internal/discovery\<close>: its state, the interfaces it sends over, announces and
  path requests (\<^verbatim>\<open>announce.go\<close>), per-hop routed packets (\<^verbatim>\<open>routed.go\<close>), and the packets it originates
  (\<^verbatim>\<open>discovery.go\<close>).

  Every operation takes the environment it runs in (the clock, random numbers, the cryptographic primitives,
  address resolution, the JSON codec, the iteration orders, and whether a send succeeds) and the state, and
  returns the state. What leaves the node is appended to the field \<open>dOut\<close>: a frame handed to an interface,
  bytes handed to the application, a packet handed to the link manager, a change of the reachability verdict.
  A goroutine started by a handler is recorded and run by an operation of its own. The clock is read once per
  operation. An interface is never nil: \<^verbatim>\<open>NewDiscovery\<close> always sets one. Theorems about handlers hold for every
  decoder, so nothing is assumed of the package \<^verbatim>\<open>encoding/json\<close>.
\<close>

section \<open>State and environment\<close>

definition announceFanout :: nat where "announceFanout = 12"
definition defaultRoutedHopLimit :: byte where "defaultRoutedHopLimit = 16"
definition maxGossipPeers :: nat where "maxGossipPeers = 8"
definition bridgeLivenessTimeout :: int where "bridgeLivenessTimeout = 45 * 1000000000"
definition Broadcast :: string where "Broadcast = ''''"
definition KindTCPClient :: string where "KindTCPClient = ''tcp-client''"

record iface =
  ifName :: string
  ifKind :: string
  ifMTU :: int

record bridgeStat =
  bsAddr :: string
  bsCreated :: int
  bsActive :: bool
  bsWarned :: bool

text \<open>A channel of capacity 1 that is written at most once without blocking: what it holds, if anything.\<close>

record pendingLatency =
  plNodeID :: string
  plArrival :: "int option"

record discoveryPayload =
  dpNodeID :: string
  dpVersion :: string
  dpCapabilities :: "string list"
  dpPort :: u16
  dpNonce :: u64
  dpPubKey :: bytes
  dpSignKey :: bytes
  dpObservedAddr :: string
  dpRelayIDs :: "string list"
  dpMLKEMPub :: bytes

record findNodePayload =
  fnNodeID :: string
  fnPubKey :: bytes
  fnPort :: u16
  fnTarget :: string
  fnNonce :: u64

record findNodeReplyPayload =
  frNonce :: u64
  frTarget :: string
  frContacts :: "dhtContact list"

record reachabilityPayload =
  rpNodeID :: string
  rpNonce :: u64
  rpDataPort :: u16
  rpReachable :: bool

datatype effect =
    SendFrame iface string bytes
  | RoutedUp bytes string
  | LinkUp string packet
  | ReachabilityChanged bool

record discovery = peerTable +
  dIface :: iface
  dIfaces :: "iface list"
  dNodeIface :: "(string, iface) gomap"
  dAddrIface :: "(string, iface) gomap"
  dLinks :: bool
  dBridges :: "(string, bridgeStat) gomap"
  dPaths :: pathTable
  dSeenAnn :: dedupSet
  dRoutedSeen :: dedupSet
  dOnRouted :: bool
  dNonceCounter :: u64
  dPending :: "(u64, pendingLatency) gomap"
  dLookups :: "(u64, dhtContact list option) gomap"
  dReachEnabled :: bool
  dReachKnown :: bool
  dReachable :: bool
  dOnReachability :: bool
  dReachPending :: "(u64, nat \<times> bool list) gomap"
  dSoloFailures :: int
  dPubKey :: bytes
  dMLKEMPub :: bytes
  dPort :: u16
  dCapabilities :: "string list"
  dRelayIDs :: "string list"
  dBridgePSK :: bytes
  dSignPriv :: bytes
  dSignPub :: bytes
  dBootstrapWarned :: bool
  dListenPort :: int
  dForwards :: "announcePayload list"
  dDialBacks :: "(string \<times> reachabilityPayload) list"
  dOut :: "effect list"

record env =
  eSha256 :: "bytes \<Rightarrow> bytes"
  eEd :: ed25519
  eNow :: int
  eNowStr :: string
  eRand :: u64
  eNodeOrder :: node_order
  ePathOrder :: "(string \<times> pathEntry) list \<Rightarrow> (string \<times> pathEntry) list"
  eResolve :: "string \<Rightarrow> string option"
  eSendOK :: "iface \<Rightarrow> string \<Rightarrow> bytes \<Rightarrow> bool"
  eDial :: "string \<Rightarrow> bool"
  eDecAnnounce :: "bytes \<Rightarrow> announcePayload option"
  eDecPathRequest :: "bytes \<Rightarrow> pathRequestPayload option"
  eDecDiscovery :: "bytes \<Rightarrow> discoveryPayload option"
  eDecPeerExchange :: "bytes \<Rightarrow> peerInfo list option"
  eDecFindNode :: "bytes \<Rightarrow> findNodePayload option"
  eDecFindNodeReply :: "bytes \<Rightarrow> findNodeReplyPayload option"
  eDecReachability :: "bytes \<Rightarrow> reachabilityPayload option"
  eEncAnnounce :: "announcePayload \<Rightarrow> bytes"
  eEncPathRequest :: "pathRequestPayload \<Rightarrow> bytes"
  eEncDiscovery :: "discoveryPayload \<Rightarrow> bytes"
  eEncPeerExchange :: "peerInfo list \<Rightarrow> bytes"
  eEncFindNode :: "findNodePayload \<Rightarrow> bytes"
  eEncFindNodeReply :: "findNodeReplyPayload \<Rightarrow> bytes"
  eEncReachability :: "reachabilityPayload \<Rightarrow> bytes"

definition env_ok :: "env \<Rightarrow> bool" where
  "env_ok e \<longleftrightarrow> range_order (eNodeOrder e) \<and> range_order (ePathOrder e)"

definition NewDiscovery :: "string \<Rightarrow> iface \<Rightarrow> int \<Rightarrow> discovery" where
  "NewDiscovery selfID udp boundPort =
     \<lparr>dNodes = [], dSelfID = selfID,
      dRT = (case ParseID selfID of Some i \<Rightarrow> Some (NewRoutingTable i DefaultK) | None \<Rightarrow> None),
      dBootstrapPeers = [], dJoins = 0, dEvictions = 0, dObservedCounts = [], dPeerCachePath = [],
      dIface = udp, dIfaces = [udp], dNodeIface = [], dAddrIface = [], dLinks = False, dBridges = [],
      dPaths = newPathTable maxPaths, dSeenAnn = newDedupSet announceDedupTTL, dRoutedSeen = newDedupSet announceDedupTTL,
      dOnRouted = False, dNonceCounter = 0, dPending = [], dLookups = [], dReachEnabled = False, dReachKnown = False,
      dReachable = False, dOnReachability = False, dReachPending = [], dSoloFailures = 0, dPubKey = [], dMLKEMPub = [],
      dPort = 0, dCapabilities = [], dRelayIDs = [], dBridgePSK = [], dSignPriv = [], dSignPub = [],
      dBootstrapWarned = False, dListenPort = boundPort, dForwards = [], dDialBacks = [], dOut = []\<rparr>"

section \<open>Interfaces\<close>

definition emit :: "effect \<Rightarrow> discovery \<Rightarrow> discovery" where
  "emit x d = d\<lparr>dOut := dOut d @ [x]\<rparr>"

definition send_on :: "iface \<Rightarrow> string \<Rightarrow> bytes \<Rightarrow> discovery \<Rightarrow> discovery" where
  "send_on i addr frame d = emit (SendFrame i addr frame) d"

definition ifaceFor :: "string \<Rightarrow> discovery \<Rightarrow> iface" where
  "ifaceFor nodeID d = (case gget (dNodeIface d) nodeID of Some i \<Rightarrow> i | None \<Rightarrow> dIface d)"

definition addr_iface :: "string \<Rightarrow> discovery \<Rightarrow> iface" where
  "addr_iface addr d = (case gget (dAddrIface d) addr of Some i \<Rightarrow> i | None \<Rightarrow> dIface d)"

definition rememberIface :: "string \<Rightarrow> iface \<Rightarrow> discovery \<Rightarrow> discovery" where
  "rememberIface nodeID i d = (if nodeID = [] then d else d\<lparr>dNodeIface := gput nodeID i (dNodeIface d)\<rparr>)"

definition rememberAddrIface :: "string \<Rightarrow> iface \<Rightarrow> discovery \<Rightarrow> discovery" where
  "rememberAddrIface addr i d = (if addr = [] then d else d\<lparr>dAddrIface := gput addr i (dAddrIface d)\<rparr>)"

definition floodFrame :: "bytes \<Rightarrow> discovery \<Rightarrow> discovery" where
  "floodFrame b d = fold (\<lambda>i. send_on i Broadcast b) (dIfaces d) d"

definition fanout_targets :: "env \<Rightarrow> discovery \<Rightarrow> (string \<times> string) list" where
  "fanout_targets e d =
     take announceFanout (map (\<lambda>x. (nID (snd x), nAddress (snd x)))
       (filter (\<lambda>x. nActive (snd x) \<and> nAddress (snd x) \<noteq> []) (eNodeOrder e (dNodes d))))"

definition floodFrameDirect :: "env \<Rightarrow> bytes \<Rightarrow> discovery \<Rightarrow> discovery" where
  "floodFrameDirect e b d =
     (let d = floodFrame b d
      in fold (\<lambda>t d. send_on (ifaceFor (fst t) d) (snd t) b d) (fanout_targets e d) d)"

definition mtuFor :: "string \<Rightarrow> discovery \<Rightarrow> int" where
  "mtuFor addr d = ifMTU (addr_iface addr d)"

definition linkSend :: "string \<Rightarrow> bytes \<Rightarrow> discovery \<Rightarrow> discovery" where
  "linkSend addr frame d = send_on (addr_iface addr d) addr frame d"

definition routedOnly :: "string \<Rightarrow> discovery \<Rightarrow> bool" where
  "routedOnly nodeID d \<longleftrightarrow> ifKind (ifaceFor nodeID d) = KindTCPClient"

definition isTransport :: "discovery \<Rightarrow> bool" where
  "isTransport d = list_ex (\<lambda>c. c = ''relay'') (dCapabilities d)"

section \<open>Bridges\<close>

definition registerBridge :: "env \<Rightarrow> string \<Rightarrow> string \<Rightarrow> discovery \<Rightarrow> discovery" where
  "registerBridge e name addr d =
     d\<lparr>dBridges := gput name \<lparr>bsAddr = addr, bsCreated = eNow e, bsActive = False, bsWarned = False\<rparr> (dBridges d)\<rparr>"

definition markIfaceActive :: "string \<Rightarrow> discovery \<Rightarrow> discovery" where
  "markIfaceActive name d =
     (case gget (dBridges d) name of
        None \<Rightarrow> d
      | Some bs \<Rightarrow> d\<lparr>dBridges := gput name (bs\<lparr>bsActive := True\<rparr>) (dBridges d)\<rparr>)"

definition checkBridgeLiveness :: "env \<Rightarrow> discovery \<Rightarrow> discovery" where
  "checkBridgeLiveness e d =
     d\<lparr>dBridges := map (\<lambda>(name, bs).
         (name, if bsWarned bs \<or> bsActive bs then bs
                else if eNow e - bsCreated bs > bridgeLivenessTimeout then bs\<lparr>bsWarned := True\<rparr> else bs)) (dBridges d)\<rparr>"

definition AddBridge :: "env \<Rightarrow> iface \<Rightarrow> string \<Rightarrow> discovery \<Rightarrow> discovery" where
  "AddBridge e tc remoteAddr d =
     registerBridge e (ifName tc) remoteAddr (d\<lparr>dIfaces := dIfaces d @ [tc]\<rparr>)"

section \<open>Packets the node originates\<close>

definition new_packet :: "env \<Rightarrow> packetType \<Rightarrow> bytes \<Rightarrow> string \<Rightarrow> string \<Rightarrow> packet" where
  "new_packet e t payload destGroup destNode =
     NewPacket (eSha256 e) (word_of_int (eNow e)) (eNowStr e) t payload destGroup destNode"

definition signed_packet :: "env \<Rightarrow> packetType \<Rightarrow> bytes \<Rightarrow> string \<Rightarrow> discovery \<Rightarrow> packet" where
  "signed_packet e t payload destNode d =
     Sign (eEd e) (dSignPriv d) ((new_packet e t payload ''ANY'' destNode)\<lparr>pSourceNode := dSelfID d\<rparr>)"

definition sendJSON :: "env \<Rightarrow> string \<Rightarrow> string \<Rightarrow> packetType \<Rightarrow> bytes \<Rightarrow> discovery \<Rightarrow> discovery" where
  "sendJSON e nodeID addr t data d =
     send_on (ifaceFor nodeID d) addr (MarshalBinary (signed_packet e t data [] d)) d"

definition zero_discovery_payload :: discoveryPayload where
  "zero_discovery_payload = \<lparr>dpNodeID = [], dpVersion = [], dpCapabilities = [], dpPort = 0, dpNonce = 0, dpPubKey = [],
     dpSignKey = [], dpObservedAddr = [], dpRelayIDs = [], dpMLKEMPub = []\<rparr>"

definition discoveryPacketBytes :: "env \<Rightarrow> discovery \<Rightarrow> bytes" where
  "discoveryPacketBytes e d =
     (let payload = \<lparr>dpNodeID = dSelfID d, dpVersion = ''1.0.0'', dpCapabilities = dCapabilities d, dpPort = dPort d,
           dpNonce = 0, dpPubKey = dPubKey d, dpSignKey = dSignPub d, dpObservedAddr = [], dpRelayIDs = dRelayIDs d,
           dpMLKEMPub = dMLKEMPub d\<rparr>
      in MarshalBinary (signed_packet e PacketTypeDiscovery (eEncDiscovery e payload) [] d))"

definition broadcastDiscovery :: "env \<Rightarrow> discovery \<Rightarrow> discovery" where
  "broadcastDiscovery e d = floodFrame (discoveryPacketBytes e d) d"

definition sendBootstrapDiscovery :: "env \<Rightarrow> discovery \<Rightarrow> discovery" where
  "sendBootstrapDiscovery e d =
     (let addrs = dBootstrapPeers d in
      if length addrs = 0 then d
      else let b = discoveryPacketBytes e d;
               resolved = List.map_filter (eResolve e) addrs;
               d = fold (\<lambda>a d. send_on (dIface d) a b d) resolved d
           in if length resolved = 0 then d\<lparr>dBootstrapWarned := True\<rparr> else d\<lparr>dBootstrapWarned := False\<rparr>)"

definition sendLatencyReply :: "env \<Rightarrow> string \<Rightarrow> string \<Rightarrow> u64 \<Rightarrow> discovery \<Rightarrow> discovery" where
  "sendLatencyReply e nodeID addr nonce d =
     (let payload = zero_discovery_payload\<lparr>dpNodeID := dSelfID d, dpVersion := ''1.0.0'', dpNonce := nonce, dpObservedAddr := addr\<rparr>
      in sendJSON e nodeID addr PacketTypeLatencyReply (eEncDiscovery e payload) d)"

definition buildPeerExchangePayload :: "env \<Rightarrow> discovery \<Rightarrow> peerInfo list" where
  "buildPeerExchangePayload e d =
     \<lparr>piNodeID = dSelfID d, piAddress = [], piPubKey = dPubKey d, piSignKey = dSignPub d, piPort = dPort d,
       piCapabilities = dCapabilities d, piRelayIDs = dRelayIDs d, piMLKEMPub = dMLKEMPub d, piLastSeen = eNow e\<rparr> #
     map (\<lambda>n. \<lparr>piNodeID = nID n, piAddress = nAddress n, piPubKey = nPubKey n, piSignKey = nSignKey n, piPort = nPort n,
            piCapabilities = [], piRelayIDs = [], piMLKEMPub = nMLKEMPub n, piLastSeen = nLastSeen n\<rparr>)
       (filter nActive (map snd (eNodeOrder e (dNodes d))))"

definition gossipPeers :: "env \<Rightarrow> discovery \<Rightarrow> discovery" where
  "gossipPeers e d =
     (let data = eEncPeerExchange e (buildPeerExchangePayload e d);
          targets = take maxGossipPeers (map (\<lambda>x. (nID (snd x), nAddress (snd x)))
            (filter (\<lambda>x. nActive (snd x) \<and> nAddress (snd x) \<noteq> []) (eNodeOrder e (dNodes d))))
      in fold (\<lambda>t d. case eResolve e (snd t) of
                 None \<Rightarrow> d
               | Some udp \<Rightarrow> sendJSON e (fst t) udp PacketTypePeerExchange data d) targets d)"

section \<open>Announces\<close>

definition buildSelfAnnounce :: "env \<Rightarrow> discovery \<Rightarrow> announcePayload option" where
  "buildSelfAnnounce e d =
     (if length (dSignPriv d) = 0 \<or> dSelfID d = [] then None
      else Some (announce_Sign (eEd e) (dSignPriv d)
        \<lparr>aDestHash = dSelfID d, aSignKey = [], aPubKey = dPubKey d, aMLKEMPub = dMLKEMPub d, aPort = dPort d,
          aCapabilities = dCapabilities d, aRelayIDs = dRelayIDs d, aAppData = [], aTimestamp = word_of_int (eNow e),
          aNonce = eRand e, aHopCount = 0, aSignature = []\<rparr>))"

definition sendAnnounceMode :: "env \<Rightarrow> announcePayload \<Rightarrow> bool \<Rightarrow> discovery \<Rightarrow> discovery" where
  "sendAnnounceMode e ap direct d =
     (let b = MarshalBinary (signed_packet e PacketTypeAnnounce (eEncAnnounce e ap) [] d)
      in if direct then floodFrameDirect e b d else floodFrame b d)"

definition sendAnnounce :: "env \<Rightarrow> announcePayload \<Rightarrow> discovery \<Rightarrow> discovery" where
  "sendAnnounce e ap d = sendAnnounceMode e ap False d"

definition sendAnnounceDirect :: "env \<Rightarrow> announcePayload \<Rightarrow> discovery \<Rightarrow> discovery" where
  "sendAnnounceDirect e ap d = sendAnnounceMode e ap True d"

definition announceSelf :: "env \<Rightarrow> discovery \<Rightarrow> discovery" where
  "announceSelf e d = (case buildSelfAnnounce e d of Some ap \<Rightarrow> sendAnnounceDirect e ap d | None \<Rightarrow> d)"

definition handleAnnounce :: "env \<Rightarrow> string \<Rightarrow> iface \<Rightarrow> packet \<Rightarrow> discovery \<Rightarrow> discovery \<times> bool" where
  "handleAnnounce e remoteAddr srcIface pkt d =
     (case eDecAnnounce e (pPayload pkt) of
        None \<Rightarrow> (d, False)
      | Some ap \<Rightarrow>
          if aDestHash ap = dSelfID d \<or> \<not> VerifyBound (eEd e) (eSha256 e) ap then (d, False)
          else let d = rememberIface (aDestHash ap) srcIface d;
                   (seen, dup) = observe (eNow e) (dSeenAnn d) (announce_key (aDestHash ap) (aNonce ap));
                   d = d\<lparr>dSeenAnn := seen\<rparr>
               in if dup then (d, False)
                  else let d = (if aHopCount ap = 0
                                then updateNode (eNodeOrder e) (eNow e) (aDestHash ap) remoteAddr (aPubKey ap) (aSignKey ap)
                                       (aPort ap) (aCapabilities ap) (aRelayIDs ap) (aMLKEMPub ap) d
                                else learnCandidate (eNodeOrder e) (eNow e) (aDestHash ap) remoteAddr (aPubKey ap) (aSignKey ap)
                                       (aPort ap) (aCapabilities ap) (aRelayIDs ap) (aMLKEMPub ap) d);
                           (paths, stored) = path_update (ePathOrder e) (dPaths d) (aDestHash ap)
                             \<lparr>peIface = ifName (dIface d), peNextHop = remoteAddr, peHops = aHopCount ap, peLastSeen = eNow e,
                               peOriginTS = sint (aTimestamp ap), peAnn = Some ap\<rparr>;
                           d = d\<lparr>dPaths := paths\<rparr>;
                           d = (if stored \<and> isTransport d \<and> int (unat (aHopCount ap)) + 1 \<le> announceHopMax
                                then d\<lparr>dForwards := dForwards d @ [ap\<lparr>aHopCount := aHopCount ap + 1\<rparr>]\<rparr>
                                else d)
                       in (d, stored))"

text \<open>A forwarding goroutine runs: it was recorded by \<open>handleAnnounce\<close>.\<close>

definition forwardAnnounce :: "env \<Rightarrow> announcePayload \<Rightarrow> discovery \<Rightarrow> discovery" where
  "forwardAnnounce e ap d = sendAnnounce e ap (d\<lparr>dForwards := remove1 ap (dForwards d)\<rparr>)"

definition PathTo :: "string \<Rightarrow> discovery \<Rightarrow> (string \<times> byte) option" where
  "PathTo destHash d = map_option (\<lambda>e. (peNextHop e, peHops e)) (path_lookup (dPaths d) destHash)"

definition sendPathRequest :: "env \<Rightarrow> pathRequestPayload \<Rightarrow> discovery \<Rightarrow> discovery" where
  "sendPathRequest e pr d =
     (if length (dSignPriv d) = 0 then d
      else floodFrameDirect e (MarshalBinary (signed_packet e PacketTypePathRequest (eEncPathRequest e pr) [] d)) d)"

definition RequestPath :: "env \<Rightarrow> string \<Rightarrow> discovery \<Rightarrow> discovery" where
  "RequestPath e destHash d = sendPathRequest e \<lparr>rqDestHash = destHash, rqNonce = eRand e, rqHopCount = 0\<rparr> d"

definition handlePathRequest :: "env \<Rightarrow> packet \<Rightarrow> discovery \<Rightarrow> discovery \<times> announcePayload option \<times> bool" where
  "handlePathRequest e pkt d =
     (case eDecPathRequest e (pPayload pkt) of
        None \<Rightarrow> (d, None, False)
      | Some pr \<Rightarrow>
          if rqDestHash pr = [] then (d, None, False)
          else let (seen, dup) = observe (eNow e) (dSeenAnn d) (request_key (rqDestHash pr) (rqNonce pr));
                   d = d\<lparr>dSeenAnn := seen\<rparr>
               in if dup then (d, None, False)
                  else if rqDestHash pr = dSelfID d
                  then (case buildSelfAnnounce e d of
                          Some ap \<Rightarrow> (sendAnnounceDirect e ap d, Some ap, False)
                        | None \<Rightarrow> (d, None, False))
                  else let forward = (if isTransport d \<and> int (unat (rqHopCount pr)) + 1 \<le> requestHopMax
                                      then (sendPathRequest e (pr\<lparr>rqHopCount := rqHopCount pr + 1\<rparr>) d, None, True)
                                      else (d, None, False))
                       in case path_lookup (dPaths d) (rqDestHash pr) of
                            Some pe \<Rightarrow>
                              (case peAnn pe of
                                 Some ann \<Rightarrow>
                                   let resp = ann\<lparr>aHopCount := peHops pe + 1\<rparr>
                                   in (sendAnnounceDirect e resp d, Some resp, False)
                               | None \<Rightarrow> forward)
                          | None \<Rightarrow> forward)"

section \<open>Per-hop routing\<close>

definition routeToward :: "env \<Rightarrow> string \<Rightarrow> packet \<Rightarrow> discovery \<Rightarrow> discovery \<times> bool" where
  "routeToward e destHash pkt d =
     (case path_lookup (dPaths d) destHash of
        None \<Rightarrow> (d, False)
      | Some pe \<Rightarrow>
          if peNextHop pe = [] then (d, False)
          else let b = MarshalBinary pkt;
                   i = addr_iface (peNextHop pe) d
               in (send_on i (peNextHop pe) b d, eSendOK e i (peNextHop pe) b))"

definition SendRouted :: "env \<Rightarrow> string \<Rightarrow> bytes \<Rightarrow> byte \<Rightarrow> discovery \<Rightarrow> discovery \<times> bool" where
  "SendRouted e destHash inner hopLimit d =
     (let hopLimit = (if hopLimit = 0 then defaultRoutedHopLimit else hopLimit)
      in routeToward e destHash
           ((new_packet e PacketTypeRouted (EncodeRouted hopLimit inner) [] destHash)\<lparr>pSourceNode := dSelfID d\<rparr>) d)"

definition SendRoutedDiscovery :: "env \<Rightarrow> string \<Rightarrow> bytes \<Rightarrow> byte \<Rightarrow> discovery \<Rightarrow> discovery \<times> bool" where
  "SendRoutedDiscovery e destHash inner hopLimit d =
     (let hopLimit = (if hopLimit = 0 then defaultRoutedHopLimit else hopLimit)
      in routeToward e destHash
           ((new_packet e PacketTypeRoutedDiscovery (EncodeRouted hopLimit inner) [] destHash)\<lparr>pSourceNode := dSelfID d\<rparr>) d)"

definition MTUToward :: "string \<Rightarrow> discovery \<Rightarrow> int" where
  "MTUToward destHash d =
     (case path_lookup (dPaths d) destHash of
        None \<Rightarrow> 0
      | Some pe \<Rightarrow> if peNextHop pe = [] then 0 else ifMTU (addr_iface (peNextHop pe) d))"

text \<open>The packet with its hop limit decremented in place.\<close>

definition dec_hop :: "packet \<Rightarrow> packet" where
  "dec_hop pkt = pkt\<lparr>pPayload := (pPayload pkt)[0 := pPayload pkt ! 0 - 1]\<rparr>"

definition handleRouted :: "env \<Rightarrow> packet \<Rightarrow> discovery \<Rightarrow> discovery" where
  "handleRouted e pkt d =
     (let (seen, dup) = observe (eNow e) (dRoutedSeen d) (hex_EncodeToString (pID pkt));
          d = d\<lparr>dRoutedSeen := seen\<rparr>
      in if dup then d
         else if pDestNode pkt = dSelfID d
         then (if dOnRouted d then emit (RoutedUp (RoutedInner (pPayload pkt)) (pSourceNode pkt)) d else d)
         else if \<not> isTransport d then d
         else if RoutedHopLimit (pPayload pkt) \<le> 1 then d
         else fst (routeToward e (pDestNode pkt) (dec_hop pkt) d))"

definition resolveLatency :: "env \<Rightarrow> u64 \<Rightarrow> string \<Rightarrow> discovery \<Rightarrow> discovery" where
  "resolveLatency e nonce signer d =
     (case gget (dPending d) nonce of
        None \<Rightarrow> d
      | Some p \<Rightarrow>
          if plNodeID p = signer \<and> plArrival p = None
          then d\<lparr>dPending := gput nonce (p\<lparr>plArrival := Some (eNow e)\<rparr>) (dPending d)\<rparr>
          else d)"

definition learnRoutedPeer :: "env \<Rightarrow> string \<Rightarrow> discoveryPayload \<Rightarrow> bytes \<Rightarrow> discovery \<Rightarrow> discovery" where
  "learnRoutedPeer e k payload signKey d =
     updateNode (eNodeOrder e) (eNow e) k [] (dpPubKey payload) signKey (dpPort payload) (dpCapabilities payload)
       (dpRelayIDs payload) (dpMLKEMPub payload) d"

definition sendRoutedLatencyReply :: "env \<Rightarrow> string \<Rightarrow> u64 \<Rightarrow> discovery \<Rightarrow> discovery" where
  "sendRoutedLatencyReply e nodeID nonce d =
     (let payload = zero_discovery_payload\<lparr>dpNodeID := dSelfID d, dpVersion := ''1.0.0'', dpNonce := nonce\<rparr>
      in fst (SendRoutedDiscovery e nodeID
           (MarshalBinary (signed_packet e PacketTypeLatencyReply (eEncDiscovery e payload) nodeID d)) 0 d))"

definition deliverRoutedDiscovery :: "env \<Rightarrow> packet \<Rightarrow> string \<Rightarrow> iface \<Rightarrow> discovery \<Rightarrow> discovery" where
  "deliverRoutedDiscovery e ip from srcIface d =
     (if \<not> Verify (eEd e) ip then d
      else let signer = SignerID (eSha256 e) ip in
      if signer = [] \<or> signer = dSelfID d \<or> pSourceNode ip \<noteq> signer then d
      else case eDecDiscovery e (pPayload ip) of
        None \<Rightarrow> d
      | Some payload \<Rightarrow>
          if dpNodeID payload \<noteq> signer then d
          else let d = rememberIface signer srcIface d;
                   d = d\<lparr>dPaths := fst (path_update (ePathOrder e) (dPaths d) signer
                         \<lparr>peIface = ifName srcIface, peNextHop = from, peHops = 1, peLastSeen = eNow e,
                           peOriginTS = sint (pTimestamp ip), peAnn = None\<rparr>)\<rparr>
               in if pType ip = PacketTypeLatencyCheck then sendRoutedLatencyReply e signer (dpNonce payload) d
                  else if pType ip = PacketTypeLatencyReply then resolveLatency e (dpNonce payload) signer d
                  else if pType ip = PacketTypeDiscovery then learnRoutedPeer e signer payload (pSignerKey ip) d
                  else d)"

definition handleRoutedDiscovery :: "env \<Rightarrow> packet \<Rightarrow> string \<Rightarrow> iface \<Rightarrow> discovery \<Rightarrow> discovery" where
  "handleRoutedDiscovery e pkt from srcIface d =
     (let (seen, dup) = observe (eNow e) (dRoutedSeen d) (hex_EncodeToString (pID pkt));
          d = d\<lparr>dRoutedSeen := seen\<rparr>
      in if dup then d
         else if pDestNode pkt = dSelfID d
         then let (ip, err) = UnmarshalBinary zero_packet (RoutedInner (pPayload pkt))
              in if err then d else deliverRoutedDiscovery e ip from srcIface d
         else if \<not> isTransport d then d
         else if RoutedHopLimit (pPayload pkt) \<le> 1 then d
         else fst (routeToward e (pDestNode pkt) (dec_hop pkt) d))"

section \<open>Configuration\<close>

definition SetIdentity :: "bytes \<Rightarrow> u16 \<Rightarrow> string list \<Rightarrow> discovery \<Rightarrow> discovery" where
  "SetIdentity pubKey port capabilities d = d\<lparr>dPubKey := pubKey, dPort := port, dCapabilities := capabilities\<rparr>"

definition SetMLKEMKey :: "bytes \<Rightarrow> discovery \<Rightarrow> discovery" where
  "SetMLKEMKey pub d = d\<lparr>dMLKEMPub := pub\<rparr>"

definition SetSigningKey :: "env \<Rightarrow> bytes \<Rightarrow> discovery \<Rightarrow> discovery" where
  "SetSigningKey e priv d =
     (let d = d\<lparr>dSignPriv := priv\<rparr>
      in if length priv = PrivateKeySize then d\<lparr>dSignPub := edPublic (eEd e) priv\<rparr> else d)"

definition SetBridgePSK :: "bytes \<Rightarrow> discovery \<Rightarrow> discovery" where
  "SetBridgePSK psk d = d\<lparr>dBridgePSK := psk\<rparr>"

definition SetRoutedHandler :: "discovery \<Rightarrow> discovery" where
  "SetRoutedHandler d = d\<lparr>dOnRouted := True\<rparr>"

definition SetRelayIDs :: "env \<Rightarrow> string list \<Rightarrow> discovery \<Rightarrow> discovery" where
  "SetRelayIDs e ids d =
     (let changed = (length ids \<noteq> length (dRelayIDs d) \<or> list_ex (\<lambda>(x, y). x \<noteq> y) (zip ids (dRelayIDs d)));
          d = d\<lparr>dRelayIDs := ids\<rparr>
      in if changed then announceSelf e d else d)"

definition SetRelay :: "env \<Rightarrow> bool \<Rightarrow> discovery \<Rightarrow> discovery" where
  "SetRelay e on d =
     (let caps = filter (\<lambda>c. c \<noteq> ''relay'') (dCapabilities d);
          caps = (if on then caps @ [''relay''] else caps);
          d = d\<lparr>dCapabilities := caps\<rparr>
      in announceSelf e (broadcastDiscovery e d))"

section \<open>What the operations leave alone\<close>

text \<open>An operation that only sends.\<close>

definition out_only :: "discovery \<Rightarrow> discovery \<Rightarrow> bool" where
  "out_only d d' \<longleftrightarrow> (\<exists>out. d' = d\<lparr>dOut := dOut d @ out\<rparr>)"

lemma out_onlyI: "d' = d\<lparr>dOut := dOut d @ out\<rparr> \<Longrightarrow> out_only d d'"
  unfolding out_only_def by blast

lemma out_only_refl [simp]: "out_only d d"
  by (rule out_onlyI [where out = "[]"]) simp

lemma out_only_trans [trans]: "out_only d d' \<Longrightarrow> out_only d' d'' \<Longrightarrow> out_only d d''"
  by (auto simp: out_only_def)

lemma out_only_emit [simp]: "out_only d (emit x d)"
  by (rule out_onlyI [where out = "[x]"]) (simp add: emit_def)

lemma out_only_send_on [simp]: "out_only d (send_on i a b d)"
  by (simp add: send_on_def)

lemma out_only_fold:
  assumes "\<And>x d. out_only d (f x d)"
  shows "out_only d (fold f xs d)"
proof (induction xs arbitrary: d)
  case (Cons x xs)
  show ?case using out_only_trans [OF assms Cons.IH, of d x] by simp
qed simp

lemma out_only_floodFrame [simp]: "out_only d (floodFrame b d)"
  unfolding floodFrame_def by (rule out_only_fold) simp

lemma out_only_floodFrameDirect [simp]: "out_only d (floodFrameDirect e b d)"
  unfolding floodFrameDirect_def Let_def
  by (rule out_only_trans [OF out_only_floodFrame out_only_fold]) simp

lemma out_only_sends [simp]:
  "out_only d (sendJSON e k a t b d)" "out_only d (sendLatencyReply e k a n d)" "out_only d (broadcastDiscovery e d)"
  "out_only d (sendAnnounceMode e ap dir d)" "out_only d (sendAnnounce e ap d)" "out_only d (sendAnnounceDirect e ap d)"
  "out_only d (sendPathRequest e pr d)" "out_only d (RequestPath e k d)"
  by (simp_all add: sendJSON_def sendLatencyReply_def broadcastDiscovery_def sendAnnounceMode_def sendAnnounce_def
      sendAnnounceDirect_def sendPathRequest_def RequestPath_def Let_def)

lemma out_only_routed [simp]:
  "out_only d (fst (routeToward e k p d))" "out_only d (fst (SendRouted e k b h d))"
  "out_only d (fst (SendRoutedDiscovery e k b h d))" "out_only d (sendRoutedLatencyReply e k n d)"
  by (simp_all add: routeToward_def SendRouted_def SendRoutedDiscovery_def sendRoutedLatencyReply_def Let_def split: option.split)

lemma out_only_announceSelf [simp]: "out_only d (announceSelf e d)"
  by (simp add: announceSelf_def split: option.split)

lemma out_only_gossipPeers [simp]: "out_only d (gossipPeers e d)"
  unfolding gossipPeers_def Let_def by (rule out_only_fold) (simp split: option.split)

text \<open>The part of the state the peer table consists of.\<close>

definition core :: "discovery \<Rightarrow> (string, node) gomap \<times> routingTable option \<times> string \<times> string list \<times> u64" where
  "core d = (dNodes d, dRT d, dSelfID d, dBootstrapPeers d, dEvictions d)"

lemma core_simps [simp]:
  "core (d\<lparr>dOut := x1\<rparr>) = core d" "core (d\<lparr>dPaths := x2\<rparr>) = core d" "core (d\<lparr>dSeenAnn := x3\<rparr>) = core d"
  "core (d\<lparr>dRoutedSeen := x3\<rparr>) = core d" "core (d\<lparr>dForwards := x4\<rparr>) = core d" "core (d\<lparr>dPending := x5\<rparr>) = core d"
  "core (d\<lparr>dNodeIface := x6\<rparr>) = core d" "core (d\<lparr>dAddrIface := x6\<rparr>) = core d" "core (d\<lparr>dBridges := x7\<rparr>) = core d"
  "core (d\<lparr>dLookups := x8\<rparr>) = core d" "core (d\<lparr>dReachPending := x9\<rparr>) = core d" "core (d\<lparr>dDialBacks := x10\<rparr>) = core d"
  "core (d\<lparr>dObservedCounts := x11\<rparr>) = core d"
  by (simp_all add: core_def)

lemma core_out_only: "out_only d d' \<Longrightarrow> core d' = core d"
  by (auto simp: out_only_def)

lemma core_remember [simp]: "core (rememberIface k i d) = core d" "core (rememberAddrIface k i d) = core d"
  "core (markIfaceActive k d) = core d" "core (resolveLatency e n s d) = core d" "core (recordObserved a d) = core d"
  by (auto simp: rememberIface_def rememberAddrIface_def markIfaceActive_def resolveLatency_def recordObserved_def Let_def
      split: option.split)

lemma core_eqD:
  assumes "core d' = core d"
  shows "dNodes d' = dNodes d" "dRT d' = dRT d" "dSelfID d' = dSelfID d" "dBootstrapPeers d' = dBootstrapPeers d"
    "dEvictions d' = dEvictions d"
  using assms by (simp_all add: core_def)

end
