(* ===== verification/DiscoveryLoop.thy ===== *)
theory DiscoveryLoop
  imports Discovery
begin

text \<open>
  The read loop of \<^verbatim>\<open>internal/discovery/discovery.go\<close> and the handlers it dispatches to: gossip, Kademlia queries
  (\<^verbatim>\<open>dht.go\<close>), the reachability protocol (\<^verbatim>\<open>reachability.go\<close>), latency checks. A frame is processed by
  \<open>handle_frame\<close>, one iteration of the loop; the rounds that wait for answers are split where they wait, into
  an operation that sends and one that takes the answer.
\<close>

section \<open>Kademlia queries\<close>

definition maxGossipAccept :: nat where "maxGossipAccept = 32"

definition contact_entry :: "discovery \<Rightarrow> contact \<Rightarrow> dhtContact" where
  "contact_entry d c =
     (let hexID = ID_String (cID c);
          dc = \<lparr>dcNodeID = hexID, dcAddress = cAddress c, dcPubKey = [], dcSignKey = [], dcPort = cPort c, dcMLKEMPub = []\<rparr>
      in case gget (dNodes d) hexID of
           None \<Rightarrow> dc
         | Some n \<Rightarrow> dc\<lparr>dcPubKey := nPubKey n, dcSignKey := nSignKey n, dcMLKEMPub := nMLKEMPub n,
                        dcPort := (if nPort n \<noteq> 0 then nPort n else cPort c)\<rparr>)"

definition handleFindNode :: "env \<Rightarrow> string \<Rightarrow> findNodePayload \<Rightarrow> discovery \<Rightarrow> discovery" where
  "handleFindNode e addr fn d =
     (case dRT d of
        None \<Rightarrow> d
      | Some rt \<Rightarrow>
          (case ParseID (fnTarget fn) of
             None \<Rightarrow> d
           | Some target \<Rightarrow>
               let closest = Closest rt target DefaultK;
                   found = map (contact_entry d) (filter (\<lambda>c. ID_String (cID c) \<noteq> fnNodeID fn) closest)
               in sendJSON e (fnNodeID fn) addr PacketTypeFindNodeReply
                    (eEncFindNodeReply e \<lparr>frNonce = fnNonce fn, frTarget = fnTarget fn, frContacts = found\<rparr>) d))"

definition handleFindNodeReply :: "env \<Rightarrow> findNodeReplyPayload \<Rightarrow> discovery \<Rightarrow> discovery" where
  "handleFindNodeReply e fr d =
     (let d = learnContacts (eSha256 e) (eNodeOrder e) (eNow e) (frContacts fr) d
      in case gget (dLookups d) (frNonce fr) of
           Some None \<Rightarrow> d\<lparr>dLookups := gput (frNonce fr) (Some (frContacts fr)) (dLookups d)\<rparr>
         | _ \<Rightarrow> d)"

text \<open>\<^verbatim>\<open>sendFindNode\<close> up to where it waits, and the contacts it returns when it stops waiting.\<close>

definition sendFindNode :: "env \<Rightarrow> contact \<Rightarrow> string \<Rightarrow> discovery \<Rightarrow> discovery \<times> u64" where
  "sendFindNode e c target d =
     (let nonce = dNonceCounter d + 1;
          d = d\<lparr>dNonceCounter := nonce, dLookups := gput nonce None (dLookups d)\<rparr>
      in case eResolve e (cAddress c) of
           None \<Rightarrow> (d\<lparr>dLookups := gdel nonce (dLookups d)\<rparr>, nonce)
         | Some addr \<Rightarrow>
             (sendJSON e (ID_String (cID c)) addr PacketTypeFindNode
                (eEncFindNode e \<lparr>fnNodeID = dSelfID d, fnPubKey = dPubKey d, fnPort = dPort d, fnTarget = target, fnNonce = nonce\<rparr>) d,
              nonce))"

definition collectFindNode :: "u64 \<Rightarrow> discovery \<Rightarrow> discovery \<times> contact list" where
  "collectFindNode nonce d =
     (d\<lparr>dLookups := gdel nonce (dLookups d)\<rparr>,
      case gget (dLookups d) nonce of
        Some (Some reply) \<Rightarrow>
          List.map_filter (\<lambda>c. map_option (\<lambda>i. \<lparr>cID = i, cAddress = dcAddress c, cPort = dcPort c\<rparr>) (ParseID (dcNodeID c))) reply
      | _ \<Rightarrow> [])"

section \<open>Reachability\<close>

definition reachProbePeers :: nat where "reachProbePeers = 3"
definition reachMinResponders :: int where "reachMinResponders = 2"
definition reachSoloRounds :: int where "reachSoloRounds = 3"

definition EnableReachabilityChecks :: "discovery \<Rightarrow> discovery" where
  "EnableReachabilityChecks d = d\<lparr>dReachEnabled := True, dOnReachability := True\<rparr>"

definition Reachable :: "discovery \<Rightarrow> bool \<times> bool" where
  "Reachable d = (dReachable d, dReachKnown d)"

definition setReachable :: "bool \<Rightarrow> discovery \<Rightarrow> discovery" where
  "setReachable reachable d =
     (let changed = (\<not> dReachKnown d \<or> dReachable d \<noteq> reachable);
          d = d\<lparr>dReachKnown := True, dReachable := reachable\<rparr>
      in if changed \<and> dOnReachability d then emit (ReachabilityChanged reachable) d else d)"

definition concludeRound :: "int \<Rightarrow> bool \<Rightarrow> discovery \<Rightarrow> discovery" where
  "concludeRound responses reachable d =
     (if reachable then setReachable True (d\<lparr>dSoloFailures := 0\<rparr>)
      else if responses \<ge> reachMinResponders then setReachable False (d\<lparr>dSoloFailures := 0\<rparr>)
      else if responses = 0 then d
      else let d = d\<lparr>dSoloFailures := dSoloFailures d + 1\<rparr>
           in if dSoloFailures d \<ge> reachSoloRounds then setReachable False d else d)"

definition probeTargets :: "env \<Rightarrow> nat \<Rightarrow> discovery \<Rightarrow> string list" where
  "probeTargets e n d =
     take n (List.map_filter (\<lambda>x. if \<not> nActive (snd x) \<or> nID (snd x) = dSelfID d then None else eResolve e (nAddress (snd x)))
       (eNodeOrder e (dNodes d)))"

definition sendReachability :: "env \<Rightarrow> string \<Rightarrow> packetType \<Rightarrow> u64 \<Rightarrow> u16 \<Rightarrow> bool \<Rightarrow> discovery \<Rightarrow> discovery" where
  "sendReachability e addr t nonce dataPort reachable d =
     send_on (dIface d) addr (MarshalBinary (signed_packet e t
       (eEncReachability e \<lparr>rpNodeID = dSelfID d, rpNonce = nonce, rpDataPort = dataPort, rpReachable = reachable\<rparr>) [] d)) d"

text \<open>
  A round: \<open>startReachRound\<close> asks the peers and registers the nonce, with the capacity of its channel;
  \<open>reach_tally\<close> is the loop that counts answers until the round ends; \<open>endReachRound\<close> draws the conclusion.
\<close>

definition startReachRound :: "env \<Rightarrow> discovery \<Rightarrow> discovery \<times> (u64 \<times> nat) option" where
  "startReachRound e d =
     (if dPort d = 0 then (d, None)
      else let peers = probeTargets e reachProbePeers d in
      if length peers = 0 then (d, None)
      else let nonce = dNonceCounter d + 1;
               d = d\<lparr>dNonceCounter := nonce, dReachPending := gput nonce (length peers, []) (dReachPending d)\<rparr>;
               port = dPort d
           in (fold (\<lambda>addr. sendReachability e addr PacketTypeReachabilityCheck nonce port False) peers d, Some (nonce, length peers)))"

datatype reach_event = Answer bool | Timeout | Cancelled

fun reach_tally :: "nat \<Rightarrow> nat \<Rightarrow> reach_event list \<Rightarrow> (nat \<times> bool) option" where
  "reach_tally n responses [] = (if \<not> responses < n then Some (responses, False) else None)"
| "reach_tally n responses (ev # evs) =
     (if \<not> responses < n then Some (responses, False)
      else case ev of
        Answer ok \<Rightarrow> if ok then Some (responses + 1, True) else reach_tally n (responses + 1) evs
      | Timeout \<Rightarrow> reach_tally n n evs
      | Cancelled \<Rightarrow> None)"

definition endReachRound :: "u64 \<Rightarrow> (nat \<times> bool) option \<Rightarrow> discovery \<Rightarrow> discovery" where
  "endReachRound nonce result d =
     (let d = (case result of Some (responses, reachable) \<Rightarrow> concludeRound (int responses) reachable d | None \<Rightarrow> d)
      in d\<lparr>dReachPending := gdel nonce (dReachPending d)\<rparr>)"

definition handleReachabilityResult :: "reachabilityPayload \<Rightarrow> discovery \<Rightarrow> discovery" where
  "handleReachabilityResult p d =
     (case gget (dReachPending d) (rpNonce p) of
        None \<Rightarrow> d
      | Some (cap, xs) \<Rightarrow>
          if length xs < cap then d\<lparr>dReachPending := gput (rpNonce p) (cap, xs @ [rpReachable p]) (dReachPending d)\<rparr> else d)"

definition JoinHostPort :: "string \<Rightarrow> string \<Rightarrow> string" where
  "JoinHostPort host port =
     (if CHR '':'' \<in> set host then ''['' @ host @ '']:'' @ port else host @ '':'' @ port)"

definition handleReachabilityCheck :: "env \<Rightarrow> string \<Rightarrow> reachabilityPayload \<Rightarrow> discovery \<Rightarrow> discovery" where
  "handleReachabilityCheck e from p d =
     (let d = d\<lparr>dDialBacks := remove1 (from, p) (dDialBacks d)\<rparr>
      in case SplitHostPort from of
           None \<Rightarrow> d
         | Some (host, _) \<Rightarrow>
             let target = JoinHostPort host (dec (unat (rpDataPort p)));
                 reachable = eDial e target
             in sendReachability e from PacketTypeReachabilityResult (rpNonce p) 0 reachable d)"

section \<open>The read loop\<close>

definition handle_gossip :: "env \<Rightarrow> packet \<Rightarrow> discovery \<Rightarrow> discovery" where
  "handle_gossip e pkt d =
     (case eDecPeerExchange e (pPayload pkt) of
        None \<Rightarrow> d
      | Some peers \<Rightarrow>
          let gossiper = SignerID (eSha256 e) pkt;
              selfAttested = (gossiper \<noteq> [] \<and> pSourceNode pkt = gossiper)
          in fold (\<lambda>pi. mergePeer (eSha256 e) (eNodeOrder e) (eNow e) pi (selfAttested \<and> piNodeID pi = gossiper))
               (take maxGossipAccept peers) d)"

definition handle_find_node :: "env \<Rightarrow> string \<Rightarrow> packet \<Rightarrow> discovery \<Rightarrow> discovery" where
  "handle_find_node e remoteAddr pkt d =
     (case eDecFindNode e (pPayload pkt) of
        None \<Rightarrow> d
      | Some fn \<Rightarrow>
          let signerID = SignerID (eSha256 e) pkt in
          if fnNodeID fn \<noteq> signerID \<or> pSourceNode pkt \<noteq> signerID then d
          else handleFindNode e remoteAddr fn
                 (updateNode (eNodeOrder e) (eNow e) (fnNodeID fn) remoteAddr (fnPubKey fn) (pSignerKey pkt) (fnPort fn) [] [] [] d))"

definition handle_discovery :: "env \<Rightarrow> string \<Rightarrow> packet \<Rightarrow> discovery \<Rightarrow> discovery" where
  "handle_discovery e remoteAddr pkt d =
     (case eDecDiscovery e (pPayload pkt) of
        None \<Rightarrow> d
      | Some payload \<Rightarrow>
          let signerID = SignerID (eSha256 e) pkt;
              bound = (dpNodeID payload = signerID \<and> pSourceNode pkt = signerID);
              learn = updateNode (eNodeOrder e) (eNow e) (dpNodeID payload) remoteAddr (dpPubKey payload) (pSignerKey pkt)
                        (dpPort payload) (dpCapabilities payload) (dpRelayIDs payload) (dpMLKEMPub payload)
          in if pType pkt = PacketTypeDiscovery then (if \<not> bound then d else learn d)
             else if pType pkt = PacketTypeLatencyCheck
             then (if \<not> bound then d else sendLatencyReply e (dpNodeID payload) remoteAddr (dpNonce payload) (learn d))
             else if pType pkt = PacketTypeLatencyReply
             then resolveLatency e (dpNonce payload) signerID
                    (if dpObservedAddr payload \<noteq> [] then recordObserved (dpObservedAddr payload) d else d)
             else d)"

definition handle_verified :: "env \<Rightarrow> string \<Rightarrow> iface \<Rightarrow> packet \<Rightarrow> discovery \<Rightarrow> discovery" where
  "handle_verified e remoteAddr srcIface pkt d =
     (if pType pkt = PacketTypePeerExchange then handle_gossip e pkt d
      else if pType pkt = PacketTypeFindNode then handle_find_node e remoteAddr pkt d
      else if pType pkt = PacketTypeFindNodeReply
      then (case eDecFindNodeReply e (pPayload pkt) of None \<Rightarrow> d | Some fr \<Rightarrow> handleFindNodeReply e fr d)
      else if pType pkt = PacketTypeAnnounce then fst (handleAnnounce e remoteAddr srcIface pkt d)
      else if pType pkt = PacketTypePathRequest then fst (handlePathRequest e pkt d)
      else if pType pkt = PacketTypeReachabilityCheck
      then (case eDecReachability e (pPayload pkt) of None \<Rightarrow> d | Some rp \<Rightarrow> d\<lparr>dDialBacks := dDialBacks d @ [(remoteAddr, rp)]\<rparr>)
      else if pType pkt = PacketTypeReachabilityResult
      then (case eDecReachability e (pPayload pkt) of None \<Rightarrow> d | Some rp \<Rightarrow> handleReachabilityResult rp d)
      else handle_discovery e remoteAddr pkt d)"

definition handle_frame :: "env \<Rightarrow> iface \<Rightarrow> string \<Rightarrow> bytes \<Rightarrow> discovery \<Rightarrow> discovery" where
  "handle_frame e srcIface addr data d =
     (case eResolve e addr of
        None \<Rightarrow> d
      | Some remoteAddr \<Rightarrow>
          let (pkt, err) = UnmarshalBinary zero_packet data in
          if err then d
          else let d = rememberAddrIface addr srcIface d in
          if pType pkt = PacketTypeLinkRequest \<or> pType pkt = PacketTypeLinkProof \<or> pType pkt = PacketTypeLinkData
          then (if dLinks d then emit (LinkUp remoteAddr pkt) d else d)
          else if pType pkt = PacketTypeRoutedDiscovery then handleRoutedDiscovery e pkt remoteAddr srcIface d
          else if pType pkt = PacketTypeRouted then handleRouted e pkt d
          else if \<not> Verify (eEd e) pkt then d
          else handle_verified e remoteAddr srcIface pkt (rememberIface (SignerID (eSha256 e) pkt) srcIface d))"

text \<open>A frame taken from an interface: the liveness mark of \<^verbatim>\<open>fanIn\<close>, then the loop.\<close>

definition fanIn :: "env \<Rightarrow> iface \<Rightarrow> string \<Rightarrow> bytes \<Rightarrow> discovery \<Rightarrow> discovery" where
  "fanIn e i addr data d = handle_frame e i addr data (markIfaceActive (ifName i) d)"

section \<open>Latency checks\<close>

text \<open>\<^verbatim>\<open>measureLatency\<close> up to where it waits for the reply, and its result for each way the wait ends.\<close>

definition startLatencyCheck :: "env \<Rightarrow> node \<Rightarrow> discovery \<Rightarrow> discovery \<times> u64 \<times> bool" where
  "startLatencyCheck e node d =
     (let nodeAddr = nAddress node; nodeID = nID node;
          addr = eResolve e nodeAddr;
          viaRoute = (nodeAddr = [] \<or> addr = None \<or> routedOnly nodeID d);
          nonce = dNonceCounter d + 1;
          d = d\<lparr>dNonceCounter := nonce, dPending := gput nonce \<lparr>plNodeID = nodeID, plArrival = None\<rparr> (dPending d)\<rparr>;
          payload = zero_discovery_payload\<lparr>dpNodeID := dSelfID d, dpVersion := ''1.0.0'', dpNonce := nonce\<rparr>;
          b = MarshalBinary (signed_packet e PacketTypeLatencyCheck (eEncDiscovery e payload) nodeID d);
          (d, sent) =
            (if viaRoute
             then (case (SendRoutedDiscovery e nodeID b 0 d, addr) of
                     ((d, sent), Some a) \<Rightarrow> (send_on (dIface d) a b d, sent \<or> eSendOK e (dIface d) a b)
                   | ((d, sent), None) \<Rightarrow> (d, sent))
             else (case addr of
                     Some a \<Rightarrow> (send_on (ifaceFor nodeID d) a b d, eSendOK e (ifaceFor nodeID d) a b)
                   | None \<Rightarrow> (d, False)))
      in (d, nonce, sent))"

datatype wait_end = Replied | TimedOut | Stopped

definition endLatencyCheck :: "int \<Rightarrow> u64 \<Rightarrow> bool \<Rightarrow> wait_end \<Rightarrow> discovery \<Rightarrow> discovery \<times> int" where
  "endLatencyCheck start nonce sent w d =
     (d\<lparr>dPending := gdel nonce (dPending d)\<rparr>,
      if \<not> sent then maxLatency + 1
      else case w of
        Replied \<Rightarrow> (case gget (dPending d) nonce of
                      Some p \<Rightarrow> (case plArrival p of Some t \<Rightarrow> t - start | None \<Rightarrow> maxLatency + 1)
                    | None \<Rightarrow> maxLatency + 1)
      | TimedOut \<Rightarrow> maxLatency + 1
      | Stopped \<Rightarrow> maxLatency)"

end
