(* ===== verification/DiscoverySafety.thy ===== *)
theory DiscoverySafety
  imports DiscoveryLoop
begin

text \<open>
  What no frame can do to a node: the table of peers stays bound to keys, a peer becomes live only on its own
  word, and the tables stay within their bounds.
\<close>

text \<open>The interface of an invariant of a step relation: what one step keeps, every run keeps.\<close>

locale step_invariant =
  fixes step :: "'s \<Rightarrow> 's \<Rightarrow> bool" and inv :: "'s \<Rightarrow> bool"
  assumes kept: "inv s \<Longrightarrow> step s s' \<Longrightarrow> inv s'"
begin

lemma run_keeps: "step\<^sup>*\<^sup>* s s' \<Longrightarrow> inv s \<Longrightarrow> inv s'"
  by (induction rule: rtranclp_induct) (auto intro: kept)

end

section \<open>How a frame may change the table of peers\<close>

text \<open>
  The identifiers a frame gives first-hand evidence of: the signer of the packet, the signer of a routed inner
  packet, the origin of an announce that was not forwarded.
\<close>

definition first_hand :: "env \<Rightarrow> bytes \<Rightarrow> string set" where
  "first_hand e data = {k. \<exists>pkt. UnmarshalBinary zero_packet data = (pkt, False) \<and>
     (Verify (eEd e) pkt \<and> SignerID (eSha256 e) pkt = k \<or>
      Verify (eEd e) pkt \<and> pType pkt = PacketTypeAnnounce \<and>
        (\<exists>ap. eDecAnnounce e (pPayload pkt) = Some ap \<and> VerifyBound (eEd e) (eSha256 e) ap \<and> aDestHash ap = k \<and> aHopCount ap = 0) \<or>
      pType pkt = PacketTypeRoutedDiscovery \<and>
        (\<exists>ip. UnmarshalBinary zero_packet (RoutedInner (pPayload pkt)) = (ip, False) \<and> Verify (eEd e) ip \<and> SignerID (eSha256 e) ip = k))}"

text \<open>
  What a frame carries as a peer's own statement about itself, the peer with the capabilities and the relays it
  states: a discovery packet it signed, directly or inside a routed one; a record about itself in a gossip it
  signed; an announce it signed, forwarded or not.
\<close>

type_synonym statement = "string \<times> string list \<times> string list"

definition stated_discovery :: "env \<Rightarrow> packet \<Rightarrow> statement set" where
  "stated_discovery e pkt = {(k, dpCapabilities p, dpRelayIDs p) | k p.
     Verify (eEd e) pkt \<and> pType pkt \<in> {PacketTypeDiscovery, PacketTypeLatencyCheck} \<and> SignerID (eSha256 e) pkt = k \<and>
     eDecDiscovery e (pPayload pkt) = Some p \<and> dpNodeID p = k}"

definition stated_gossip :: "env \<Rightarrow> packet \<Rightarrow> statement set" where
  "stated_gossip e pkt = {(k, piCapabilities pi, piRelayIDs pi) | k pi. \<exists>peers.
     Verify (eEd e) pkt \<and> pType pkt = PacketTypePeerExchange \<and> SignerID (eSha256 e) pkt = k \<and>
     eDecPeerExchange e (pPayload pkt) = Some peers \<and> pi \<in> set peers \<and> piNodeID pi = k}"

definition stated_announce :: "env \<Rightarrow> packet \<Rightarrow> statement set" where
  "stated_announce e pkt = {(k, aCapabilities ap, aRelayIDs ap) | k ap.
     pType pkt = PacketTypeAnnounce \<and> eDecAnnounce e (pPayload pkt) = Some ap \<and> VerifyBound (eEd e) (eSha256 e) ap \<and> aDestHash ap = k}"

definition stated_routed :: "env \<Rightarrow> packet \<Rightarrow> statement set" where
  "stated_routed e pkt = {st. pType pkt = PacketTypeRoutedDiscovery \<and>
     (\<exists>ip. UnmarshalBinary zero_packet (RoutedInner (pPayload pkt)) = (ip, False) \<and> st \<in> stated_discovery e ip)}"

definition self_stated :: "env \<Rightarrow> bytes \<Rightarrow> statement set" where
  "self_stated e data = {st. \<exists>pkt. UnmarshalBinary zero_packet data = (pkt, False) \<and>
     st \<in> stated_discovery e pkt \<union> stated_gossip e pkt \<union> stated_announce e pkt \<union> stated_routed e pkt}"

text \<open>
  The moves of the table with evidence for the peers \<open>live\<close> and the statements \<open>stated\<close>, at most \<open>c\<close> of them updates:
  everything a handler does to the table is a sequence of these.
\<close>

inductive table_moves ::
    "(bytes \<Rightarrow> bytes) \<Rightarrow> node_order \<Rightarrow> string set \<Rightarrow> statement set \<Rightarrow> discovery \<Rightarrow> nat \<Rightarrow> discovery \<Rightarrow> bool"
  for sha256 iter live stated s where
  start: "table_moves sha256 iter live stated s 0 s"
| other: "table_moves sha256 iter live stated s c d \<Longrightarrow> core d' = core d \<Longrightarrow> c \<le> c' \<Longrightarrow> table_moves sha256 iter live stated s c' d'"
| verified: "table_moves sha256 iter live stated s c d \<Longrightarrow> DeriveNodeID sha256 sk = k \<Longrightarrow> sk \<noteq> [] \<Longrightarrow> k \<in> live \<Longrightarrow>
    (k, caps, relays) \<in> stated \<or> caps = [] \<and> relays = [] \<Longrightarrow>
    table_moves sha256 iter live stated s (Suc c) (updateNode iter now k addr pk sk port caps relays ml d)"
| candidate: "table_moves sha256 iter live stated s c d \<Longrightarrow> DeriveNodeID sha256 sk = k \<Longrightarrow> sk \<noteq> [] \<Longrightarrow>
    (k, caps, relays) \<in> stated \<or> caps = [] \<and> relays = [] \<Longrightarrow>
    table_moves sha256 iter live stated s (Suc c) (learnCandidate iter now k addr pk sk port caps relays ml d)"
| gossip: "table_moves sha256 iter live stated s c d \<Longrightarrow>
    (att \<Longrightarrow> (piNodeID pi, piCapabilities pi, piRelayIDs pi) \<in> stated) \<Longrightarrow>
    table_moves sha256 iter live stated s (Suc c) (mergePeer sha256 iter now pi att d)"

lemmas moves_same = other [OF _ _ order_refl]

lemma moves_more: "table_moves sha256 iter live stated s c d \<Longrightarrow> c \<le> c' \<Longrightarrow> table_moves sha256 iter live stated s c' d"
  by (rule other) simp_all

lemma moves_fold:
  assumes "\<And>x c d. x \<in> set xs \<Longrightarrow> table_moves sha256 iter live stated s c d \<Longrightarrow> table_moves sha256 iter live stated s (Suc c) (f x d)"
    and "table_moves sha256 iter live stated s c d"
  shows "table_moves sha256 iter live stated s (c + length xs) (fold f xs d)"
  using assms
proof (induction xs arbitrary: c d)
  case (Cons x xs)
  have "table_moves sha256 iter live stated s (Suc c) (f x d)" using Cons.prems by simp
  then show ?case using Cons.IH [of "Suc c" "f x d"] Cons.prems(1) by simp
qed simp

lemma Verify_key: "Verify ed p \<Longrightarrow> pSignerKey p \<noteq> []"
  by (auto simp: Verify_def PublicKeySize_def split: if_splits)

lemma VerifyBound_key: "VerifyBound ed sha256 ap \<Longrightarrow> aSignKey ap \<noteq> [] \<and> DeriveNodeID sha256 (aSignKey ap) = aDestHash ap \<and> aDestHash ap \<noteq> []"
  by (auto simp: VerifyBound_def VerifySig_def PublicKeySize_def split: if_splits)

lemma moves_contacts:
  assumes "table_moves sha256 iter live stated s c d"
  shows "table_moves sha256 iter live stated s (c + length cs) (learnContacts sha256 iter now cs d)"
  unfolding learnContacts_def
proof (rule moves_fold [OF _ assms])
  fix x c d assume d: "table_moves sha256 iter live stated s c d"
  show "table_moves sha256 iter live stated s (Suc c) (learn_contact sha256 iter now x d)"
  proof (cases "dcNodeID x = [] \<or> dcNodeID x = dSelfID d \<or> length (dcSignKey x) = 0 \<or> DeriveNodeID sha256 (dcSignKey x) \<noteq> dcNodeID x")
    case True
    then have "learn_contact sha256 iter now x d = d" by (auto simp: learn_contact_def)
    then show ?thesis using moves_more [OF d, of "Suc c"] by simp
  next
    case False
    then have eq: "learn_contact sha256 iter now x d =
        learnCandidate iter now (dcNodeID x) (dcAddress x) (dcPubKey x) (dcSignKey x) (dcPort x) [] [] (dcMLKEMPub x) d"
      by (simp add: learn_contact_def)
    show ?thesis unfolding eq by (rule candidate [OF d]) (use False in auto)
  qed
qed

lemma moves_out_only: "table_moves sha256 iter live stated s c d \<Longrightarrow> out_only d d' \<Longrightarrow> table_moves sha256 iter live stated s c d'"
  by (rule moves_same) (simp_all add: core_out_only)

lemma moves_gossip:
  assumes "table_moves (eSha256 e) (eNodeOrder e) live stated s c d" "Verify (eEd e) pkt" "pType pkt = PacketTypePeerExchange"
    "stated_gossip e pkt \<subseteq> stated"
  shows "table_moves (eSha256 e) (eNodeOrder e) live stated s (c + maxGossipAccept) (handle_gossip e pkt d)"
proof (cases "eDecPeerExchange e (pPayload pkt)")
  case None
  then show ?thesis using moves_more [OF assms(1)] by (simp add: handle_gossip_def)
next
  case (Some peers)
  have st: "(piNodeID pi, piCapabilities pi, piRelayIDs pi) \<in> stated"
    if "pi \<in> set (take maxGossipAccept peers)" "piNodeID pi = SignerID (eSha256 e) pkt" for pi
  proof -
    have "(piNodeID pi, piCapabilities pi, piRelayIDs pi) \<in> stated_gossip e pkt"
      unfolding stated_gossip_def mem_Collect_eq
      by (intro exI [of _ "piNodeID pi"] exI [of _ pi]) (use assms(2,3) Some that in \<open>auto dest: in_set_takeD\<close>)
    then show ?thesis using assms(4) by blast
  qed
  have "table_moves (eSha256 e) (eNodeOrder e) live stated s (c + length (take maxGossipAccept peers)) (handle_gossip e pkt d)"
    unfolding handle_gossip_def Some option.case Let_def
    by (rule moves_fold [OF _ assms(1)]) (rule gossip, use st in auto)
  then show ?thesis by (rule moves_more) simp
qed

lemma moves_find_node:
  assumes "table_moves (eSha256 e) (eNodeOrder e) live stated s c d" "Verify (eEd e) pkt" "SignerID (eSha256 e) pkt \<in> live"
  shows "table_moves (eSha256 e) (eNodeOrder e) live stated s (Suc c) (handle_find_node e a pkt d)"
proof -
  have key: "pSignerKey pkt \<noteq> []" by (rule Verify_key [OF assms(2)])
  have out: "out_only d' (handleFindNode e a fn d')" for fn d'
    by (simp add: handleFindNode_def Let_def split: option.split)
  have upd: "table_moves (eSha256 e) (eNodeOrder e) live stated s (Suc c)
      (updateNode (eNodeOrder e) (eNow e) (SignerID (eSha256 e) pkt) a pk (pSignerKey pkt) port [] [] [] d)" for pk port
    by (rule verified [OF assms(1) _ key assms(3)]) (simp_all add: SignerID_def)
  show ?thesis
    using moves_more [OF assms(1), of "Suc c"] moves_out_only [OF upd out] by (auto simp: handle_find_node_def Let_def split: option.split)
qed

lemma moves_discovery:
  assumes "table_moves (eSha256 e) (eNodeOrder e) live stated s c d" "Verify (eEd e) pkt"
    and "SignerID (eSha256 e) pkt \<in> live" "stated_discovery e pkt \<subseteq> stated"
  shows "table_moves (eSha256 e) (eNodeOrder e) live stated s (Suc c) (handle_discovery e a pkt d)"
proof (cases "eDecDiscovery e (pPayload pkt)")
  case None
  then show ?thesis using moves_more [OF assms(1)] by (simp add: handle_discovery_def)
next
  case (Some p)
  have key: "pSignerKey pkt \<noteq> []" by (rule Verify_key [OF assms(2)])
  let ?k = "SignerID (eSha256 e) pkt"
  let ?l = "updateNode (eNodeOrder e) (eNow e) ?k a (dpPubKey p) (pSignerKey pkt)
              (dpPort p) (dpCapabilities p) (dpRelayIDs p) (dpMLKEMPub p) d"
  note same = moves_more [OF assms(1), of "Suc c"]
  have obs: "table_moves (eSha256 e) (eNodeOrder e) live stated s (Suc c) (resolveLatency e n k (if b then recordObserved x d else d))" for n k b x
    by (rule other [OF assms(1)]) simp_all
  show ?thesis
  proof (cases "pType pkt \<in> {PacketTypeDiscovery, PacketTypeLatencyCheck} \<and> dpNodeID p = ?k")
    case True
    then have "(?k, dpCapabilities p, dpRelayIDs p) \<in> stated"
      using assms(2,4) Some unfolding stated_discovery_def by blast
    then have upd: "table_moves (eSha256 e) (eNodeOrder e) live stated s (Suc c) ?l"
      by (intro verified [OF assms(1) _ key assms(3)]) (simp_all add: SignerID_def)
    have reply: "table_moves (eSha256 e) (eNodeOrder e) live stated s (Suc c) (sendLatencyReply e k b n ?l)" for k b n
      by (rule moves_out_only [OF upd]) simp
    show ?thesis using same upd reply obs True by (simp add: handle_discovery_def Some Let_def)
  next
    case False
    then show ?thesis using same obs by (auto simp: handle_discovery_def Some Let_def)
  qed
qed

lemma moves_announce:
  assumes "table_moves (eSha256 e) (eNodeOrder e) live stated s c d" "pType pkt = PacketTypeAnnounce" "stated_announce e pkt \<subseteq> stated"
    and ev: "\<And>ap. eDecAnnounce e (pPayload pkt) = Some ap \<Longrightarrow> VerifyBound (eEd e) (eSha256 e) ap \<Longrightarrow> aHopCount ap = 0 \<Longrightarrow> aDestHash ap \<in> live"
  shows "table_moves (eSha256 e) (eNodeOrder e) live stated s (Suc c) (fst (handleAnnounce e a i pkt d))"
proof (cases "eDecAnnounce e (pPayload pkt)")
  case None
  then show ?thesis using moves_more [OF assms(1)] by (simp add: handleAnnounce_def)
next
  case (Some ap)
  show ?thesis
  proof (cases "aDestHash ap = dSelfID d \<or> \<not> VerifyBound (eEd e) (eSha256 e) ap")
    case True
    then show ?thesis using moves_more [OF assms(1), of "Suc c"] Some by (auto simp: handleAnnounce_def)
  next
    case False
    let ?o = "observe (eNow e) (dSeenAnn (rememberIface (aDestHash ap) i d)) (announce_key (aDestHash ap) (aNonce ap))"
    let ?ini = "(rememberIface (aDestHash ap) i d)\<lparr>dSeenAnn := fst ?o\<rparr>"
    let ?mid = "if aHopCount ap = 0
       then updateNode (eNodeOrder e) (eNow e) (aDestHash ap) a (aPubKey ap) (aSignKey ap) (aPort ap) (aCapabilities ap) (aRelayIDs ap) (aMLKEMPub ap) ?ini
       else learnCandidate (eNodeOrder e) (eNow e) (aDestHash ap) a (aPubKey ap) (aSignKey ap) (aPort ap) (aCapabilities ap) (aRelayIDs ap) (aMLKEMPub ap) ?ini"
    have ini: "table_moves (eSha256 e) (eNodeOrder e) live stated s c ?ini" by (rule moves_same [OF assms(1)]) simp
    have b: "aSignKey ap \<noteq> []" "DeriveNodeID (eSha256 e) (aSignKey ap) = aDestHash ap"
      using False VerifyBound_key [of "eEd e" "eSha256 e" ap] by simp_all
    have st: "(aDestHash ap, aCapabilities ap, aRelayIDs ap) \<in> stated"
      using False Some assms(2,3) unfolding stated_announce_def by blast
    have lv: "aHopCount ap = 0 \<Longrightarrow> aDestHash ap \<in> live" using ev [OF Some] False by simp
    have mid: "table_moves (eSha256 e) (eNodeOrder e) live stated s (Suc c) ?mid"
    proof (cases "aHopCount ap = 0")
      case True
      then show ?thesis using verified [OF ini b(2,1) lv [OF True] disjI1 [OF st]] by simp
    next
      case hop: False
      then show ?thesis using candidate [OF ini b(2,1) disjI1 [OF st]] by simp
    qed
    have "core (fst (handleAnnounce e a i pkt d)) = (if snd ?o then core ?ini else core ?mid)"
      using Some False by (simp add: handleAnnounce_def Let_def case_prod_beta)
    then show ?thesis using other [OF ini, of _ "Suc c"] moves_same [OF mid] by (cases "snd ?o") simp_all
  qed
qed

lemmas core_sends [simp] =
  out_only_sends [THEN core_out_only] out_only_routed [THEN core_out_only] out_only_announceSelf [THEN core_out_only]
  out_only_gossipPeers [THEN core_out_only] out_only_emit [THEN core_out_only] out_only_send_on [THEN core_out_only]
  out_only_floodFrame [THEN core_out_only] out_only_floodFrameDirect [THEN core_out_only]

lemma core_pathRequest: "core (fst (handlePathRequest e pkt d)) = core d"
  by (simp add: handlePathRequest_def Let_def case_prod_beta split: option.split)

lemma moves_deliver:
  assumes d: "table_moves (eSha256 e) (eNodeOrder e) live stated s c d"
    and ev: "Verify (eEd e) ip \<Longrightarrow> SignerID (eSha256 e) ip \<in> live" "stated_discovery e ip \<subseteq> stated"
  shows "table_moves (eSha256 e) (eNodeOrder e) live stated s (Suc c) (deliverRoutedDiscovery e ip from i d)"
proof (cases "Verify (eEd e) ip \<and> \<not> (SignerID (eSha256 e) ip = [] \<or> SignerID (eSha256 e) ip = dSelfID d \<or> pSourceNode ip \<noteq> SignerID (eSha256 e) ip)
     \<and> (\<exists>p. eDecDiscovery e (pPayload ip) = Some p \<and> dpNodeID p = SignerID (eSha256 e) ip)")
  case True
  then obtain p where p: "eDecDiscovery e (pPayload ip) = Some p" "dpNodeID p = SignerID (eSha256 e) ip" by blast
  have v: "Verify (eEd e) ip" using True by simp
  let ?k = "SignerID (eSha256 e) ip"
  let ?w = "rememberIface ?k i d"
  let ?d = "?w\<lparr>dPaths := fst (path_update (ePathOrder e) (dPaths ?w) ?k
       \<lparr>peIface = ifName i, peNextHop = from, peHops = 1, peLastSeen = eNow e, peOriginTS = sint (pTimestamp ip), peAnn = None\<rparr>)\<rparr>"
  have base: "table_moves (eSha256 e) (eNodeOrder e) live stated s c ?d" by (rule moves_same [OF d]) simp
  note base' = moves_more [OF base, of "Suc c"]
  have "table_moves (eSha256 e) (eNodeOrder e) live stated s (Suc c) (learnRoutedPeer e ?k p (pSignerKey ip) ?d)"
    if "pType ip = PacketTypeDiscovery"
  proof -
    have "(?k, dpCapabilities p, dpRelayIDs p) \<in> stated" using ev(2) v p that unfolding stated_discovery_def by blast
    then show ?thesis unfolding learnRoutedPeer_def
      by (intro verified [OF base]) (use ev(1) [OF v] Verify_key [OF v] in \<open>simp_all add: SignerID_def\<close>)
  qed
  moreover have "table_moves (eSha256 e) (eNodeOrder e) live stated s (Suc c) (resolveLatency e n ?k ?d)" for n
    by (rule other [OF base]) simp_all
  moreover have "table_moves (eSha256 e) (eNodeOrder e) live stated s (Suc c) (sendRoutedLatencyReply e ?k n ?d)" for n
    by (rule moves_out_only [OF base']) simp_all
  ultimately show ?thesis using True p base' by (simp add: deliverRoutedDiscovery_def Let_def)
next
  case False
  then have "deliverRoutedDiscovery e ip from i d = d" by (auto simp: deliverRoutedDiscovery_def Let_def split: option.split)
  then show ?thesis using moves_more [OF d, of "Suc c"] by simp
qed

lemma moves_routed_discovery:
  assumes "table_moves (eSha256 e) (eNodeOrder e) live stated s c d"
    and ev: "\<And>ip. UnmarshalBinary zero_packet (RoutedInner (pPayload pkt)) = (ip, False) \<Longrightarrow>
           (Verify (eEd e) ip \<longrightarrow> SignerID (eSha256 e) ip \<in> live) \<and> stated_discovery e ip \<subseteq> stated"
  shows "table_moves (eSha256 e) (eNodeOrder e) live stated s (Suc c) (handleRoutedDiscovery e pkt from i d)"
proof -
  let ?o = "observe (eNow e) (dRoutedSeen d) (hex_EncodeToString (pID pkt))"
  let ?ini = "d\<lparr>dRoutedSeen := fst ?o\<rparr>"
  have ini: "table_moves (eSha256 e) (eNodeOrder e) live stated s c ?ini" by (rule moves_same [OF assms(1)]) simp
  note ini' = moves_more [OF ini, of "Suc c"]
  have fwd: "table_moves (eSha256 e) (eNodeOrder e) live stated s (Suc c) (fst (routeToward e (pDestNode pkt) (dec_hop pkt) ?ini))"
    by (rule moves_out_only [OF ini']) simp_all
  obtain ip err where ip: "UnmarshalBinary zero_packet (RoutedInner (pPayload pkt)) = (ip, err)"
    by (cases "UnmarshalBinary zero_packet (RoutedInner (pPayload pkt))")
  have dl: "table_moves (eSha256 e) (eNodeOrder e) live stated s (Suc c) (if err then ?ini else deliverRoutedDiscovery e ip from i ?ini)"
    using moves_deliver [OF ini, of ip "from" i] ev [of ip] ip ini' by auto
  show ?thesis
    using ini' fwd dl by (cases err) (simp_all add: handleRoutedDiscovery_def Let_def case_prod_beta ip)
qed

lemma core_handleRouted: "core (handleRouted e pkt d) = core d"
  by (simp add: handleRouted_def Let_def case_prod_beta)

lemma core_reachResult: "core (handleReachabilityResult rp d) = core d"
  by (simp add: handleReachabilityResult_def split: option.split prod.split)

lemma moves_findReply:
  assumes "table_moves (eSha256 e) (eNodeOrder e) live stated s c d"
  shows "table_moves (eSha256 e) (eNodeOrder e) live stated s (c + length (frContacts fr)) (handleFindNodeReply e fr d)"
proof -
  have c: "table_moves (eSha256 e) (eNodeOrder e) live stated s (c + length (frContacts fr))
      (learnContacts (eSha256 e) (eNodeOrder e) (eNow e) (frContacts fr) d)"
    by (rule moves_contacts [OF assms])
  show ?thesis by (rule moves_same [OF c]) (simp add: handleFindNodeReply_def Let_def split: option.split)
qed

text \<open>How often one frame can update the table: by the 32 records of a gossip, or by the contacts of a reply.\<close>

definition frame_updates :: "env \<Rightarrow> packet \<Rightarrow> nat" where
  "frame_updates e pkt = maxGossipAccept +
     (case eDecFindNodeReply e (pPayload pkt) of None \<Rightarrow> 0 | Some fr \<Rightarrow> length (frContacts fr))"

lemma frame_updates_one: "Suc 0 \<le> frame_updates e pkt"
  by (simp add: frame_updates_def maxGossipAccept_def)

lemma moves_verified:
  assumes w: "table_moves (eSha256 e) (eNodeOrder e) live stated s 0 w" and v: "Verify (eEd e) pkt"
    and k: "SignerID (eSha256 e) pkt \<in> live" and st: "stated_discovery e pkt \<union> stated_gossip e pkt \<union> stated_announce e pkt \<subseteq> stated"
    and ann: "\<And>ap. pType pkt = PacketTypeAnnounce \<Longrightarrow> eDecAnnounce e (pPayload pkt) = Some ap \<Longrightarrow>
      VerifyBound (eEd e) (eSha256 e) ap \<Longrightarrow> aHopCount ap = 0 \<Longrightarrow> aDestHash ap \<in> live"
  shows "table_moves (eSha256 e) (eNodeOrder e) live stated s (frame_updates e pkt) (handle_verified e a i pkt w)"
proof -
  let ?m = "table_moves (eSha256 e) (eNodeOrder e) live stated s (frame_updates e pkt)"
  have g: "?m (handle_gossip e pkt w)" if "pType pkt = PacketTypePeerExchange"
    using moves_more [OF moves_gossip [OF w v that]] st by (simp add: frame_updates_def)
  have f: "?m (handle_find_node e a pkt w)" by (rule moves_more [OF moves_find_node [OF w v k] frame_updates_one])
  have fr: "?m (case eDecFindNodeReply e (pPayload pkt) of None \<Rightarrow> w | Some fr \<Rightarrow> handleFindNodeReply e fr w)"
  proof (cases "eDecFindNodeReply e (pPayload pkt)")
    case (Some fr)
    then show ?thesis using moves_more [OF moves_findReply [OF w, of fr]] by (simp add: frame_updates_def)
  qed (use moves_more [OF w] in simp)
  have an: "?m (fst (handleAnnounce e a i pkt w))" if t: "pType pkt = PacketTypeAnnounce"
    by (rule moves_more [OF moves_announce [OF w t] frame_updates_one]) (use st ann [OF t] in auto)
  have pr: "?m (fst (handlePathRequest e pkt w))" by (rule other [OF w]) (simp_all add: core_pathRequest)
  have rc: "?m (case eDecReachability e (pPayload pkt) of None \<Rightarrow> w | Some rp \<Rightarrow> w\<lparr>dDialBacks := dDialBacks w @ [(a, rp)]\<rparr>)"
    by (rule other [OF w]) (simp_all split: option.split)
  have rr: "?m (case eDecReachability e (pPayload pkt) of None \<Rightarrow> w | Some rp \<Rightarrow> handleReachabilityResult rp w)"
    by (rule other [OF w]) (simp_all add: core_reachResult split: option.split)
  have di: "?m (handle_discovery e a pkt w)"
    by (rule moves_more [OF moves_discovery [OF w v k] frame_updates_one]) (use st in auto)
  show ?thesis unfolding handle_verified_def using g f fr an pr rc rr di by simp
qed

lemma moves_frame:
  "table_moves (eSha256 e) (eNodeOrder e) (first_hand e data) (self_stated e data) d
     (frame_updates e (fst (UnmarshalBinary zero_packet data))) (handle_frame e i addr data d)"
proof -
  let ?n = "table_moves (eSha256 e) (eNodeOrder e) (first_hand e data) (self_stated e data) d"
  let ?c = "frame_updates e (fst (UnmarshalBinary zero_packet data))"
  have st: "?n 0 d" by (rule start)
  obtain pkt err where u: "UnmarshalBinary zero_packet data = (pkt, err)" by (cases "UnmarshalBinary zero_packet data")
  show ?thesis
  proof (cases "eResolve e addr = None \<or> err")
    case True
    then have "handle_frame e i addr data d = d" by (auto simp: handle_frame_def u split: option.split)
    then show ?thesis using moves_more [OF st, of ?c] by simp
  next
    case False
    then obtain a where a: "eResolve e addr = Some a" and ne: "\<not> err" by auto
    have u': "UnmarshalBinary zero_packet data = (pkt, False)" using u ne by simp
    let ?d = "rememberAddrIface addr i d"
    have d: "?n 0 ?d" by (rule moves_same [OF st]) simp
    have link: "?n ?c (emit (LinkUp a pkt) ?d)" by (rule other [OF d]) simp_all
    have rd: "?n ?c (handleRoutedDiscovery e pkt a i ?d)" if t: "pType pkt = PacketTypeRoutedDiscovery"
    proof (rule moves_more [OF moves_routed_discovery [OF d] frame_updates_one], rule conjI, rule impI)
      fix ip assume i: "UnmarshalBinary zero_packet (RoutedInner (pPayload pkt)) = (ip, False)"
      then show "SignerID (eSha256 e) ip \<in> first_hand e data" if "Verify (eEd e) ip" using u' t that by (simp add: first_hand_def)
      show "stated_discovery e ip \<subseteq> self_stated e data" using u' t i by (auto simp: self_stated_def stated_routed_def)
    qed
    have rt: "?n ?c (handleRouted e pkt ?d)" by (rule other [OF d]) (simp_all add: core_handleRouted)
    have vf: "?n ?c (handle_verified e a i pkt (rememberIface (SignerID (eSha256 e) pkt) i ?d))" if v: "Verify (eEd e) pkt"
    proof -
      have w: "?n 0 (rememberIface (SignerID (eSha256 e) pkt) i ?d)" by (rule moves_same [OF d]) simp
      have k: "SignerID (eSha256 e) pkt \<in> first_hand e data" using u' v by (simp add: first_hand_def)
      have "?n (frame_updates e pkt) (handle_verified e a i pkt (rememberIface (SignerID (eSha256 e) pkt) i ?d))"
        by (rule moves_verified [OF w v k]) (use u' v in \<open>auto simp: self_stated_def first_hand_def\<close>)
      then show ?thesis using u' by simp
    qed
    show ?thesis
      unfolding handle_frame_def a option.case u' prod.case Let_def
      using moves_more [OF d, of ?c] link rd rt vf u' by simp
  qed
qed

section \<open>What the moves keep\<close>

definition peers_ok :: "(bytes \<Rightarrow> bytes) \<Rightarrow> discovery \<Rightarrow> bool" where
  "peers_ok sha256 d \<longleftrightarrow> table_ok d \<and> all_nodes (bound_node sha256 (dSelfID d)) d \<and> capped d"

lemma peers_ok_core: "core d' = core d \<Longrightarrow> peers_ok sha256 d' \<longleftrightarrow> peers_ok sha256 d"
  using core_eqD [of d' d] by (simp add: peers_ok_def table_ok_def all_nodes_def capped_def)

lemma peers_ok_upsert:
  assumes "peers_ok sha256 d" "range_order iter" "DeriveNodeID sha256 sk = k" "sk \<noteq> []"
  shows "peers_ok sha256 (upsertNode iter now k addr pk sk port caps relays ml verified d)"
proof -
  have t: "table_ok d" "all_nodes (bound_node sha256 (dSelfID d)) d" "capped d" using assms(1) by (simp_all add: peers_ok_def)
  note step = table_step_upsert [of d iter now k addr pk sk port caps relays ml verified]
  have "all_nodes (bound_node sha256 (dSelfID d)) (upsertNode iter now k addr pk sk port caps relays ml verified d)"
    by (rule bound_upsert [OF t(2) assms(3,4)])
  then show ?thesis
    using table_step_fields(1,6) [OF step] t(1) capped_upsert [OF assms(2) keyed_bound [OF t(1,2)] t(3)] by (simp add: peers_ok_def)
qed

lemma peers_ok_merge:
  assumes "peers_ok sha256 d" "range_order iter"
  shows "peers_ok sha256 (mergePeer sha256 iter now pi att d)"
proof -
  have t: "table_ok d" "all_nodes (bound_node sha256 (dSelfID d)) d" "capped d" using assms(1) by (simp_all add: peers_ok_def)
  note step = table_step_merge [of d sha256 iter now pi att]
  show ?thesis
    using table_step_fields(1,6) [OF step] t(1) bound_merge [OF t(2)] capped_merge [OF assms(2) keyed_bound [OF t(1,2)] t(3)]
    by (simp add: peers_ok_def)
qed

lemma moves_ok:
  assumes "table_moves sha256 iter live stated s c d" "range_order iter" "peers_ok sha256 s"
  shows "peers_ok sha256 d"
  using assms(1)
proof induction
  case start
  show ?case by (rule assms(3))
next
  case (other c d d' c')
  then show ?case using peers_ok_core by blast
next
  case (verified c d sk k caps relays now addr pk port ml)
  then show ?case unfolding updateNode_def by (intro peers_ok_upsert [OF _ assms(2)])
next
  case (candidate c d sk k caps relays now addr pk port ml)
  then show ?case unfolding learnCandidate_def by (intro peers_ok_upsert [OF _ assms(2)])
next
  case (gossip c d att pi now)
  then show ?case by (intro peers_ok_merge [OF _ assms(2)])
qed

text \<open>
  The lists of an entry of the peer \<open>k\<close>, from lists it started with and its own statements: each is as it was, or a
  non-empty one that the peer stated.
\<close>

definition listed :: "statement set \<Rightarrow> string \<Rightarrow> string list \<Rightarrow> string list \<Rightarrow> node \<Rightarrow> bool" where
  "listed stated k caps relays n \<longleftrightarrow>
     (nCapabilities n = caps \<or> nCapabilities n \<noteq> [] \<and> (\<exists>r. (k, nCapabilities n, r) \<in> stated)) \<and>
     (nRelayIDs n = relays \<or> nRelayIDs n \<noteq> [] \<and> (\<exists>c. (k, c, nRelayIDs n) \<in> stated))"

text \<open>
  An entry is grounded in the state \<open>s\<close>: it is active only with evidence or because it was. A peer \<open>s\<close> knew stays
  active and has the lists it had but for its own statements; a new one starts with empty lists. Only when
  something was evicted may a known peer count as new, since it may have been the one.
\<close>

definition grounded :: "string set \<Rightarrow> statement set \<Rightarrow> bool \<Rightarrow> discovery \<Rightarrow> string \<Rightarrow> node \<Rightarrow> bool" where
  "grounded live stated evicting s k n \<longleftrightarrow>
     (nActive n \<longrightarrow> k \<in> live \<or> (\<exists>m. gget (dNodes s) k = Some m \<and> nActive m)) \<and>
     (case gget (dNodes s) k of
        Some m \<Rightarrow> (nActive m \<longrightarrow> nActive n) \<and> listed stated k (nCapabilities m) (nRelayIDs m) n \<or>
                  evicting \<and> listed stated k [] [] n
      | None \<Rightarrow> listed stated k [] [] n)"

lemma grounded_mono: "grounded live stated v s k n \<Longrightarrow> (v \<Longrightarrow> v') \<Longrightarrow> grounded live stated v' s k n"
  by (auto simp: grounded_def split: option.splits)

lemma listed_keep:
  "listed stated k c0 r0 n \<Longrightarrow> (nCapabilities n' = nCapabilities n \<or> nCapabilities n' \<noteq> [] \<and> (\<exists>r. (k, nCapabilities n', r) \<in> stated)) \<Longrightarrow>
   (nRelayIDs n' = nRelayIDs n \<or> nRelayIDs n' \<noteq> [] \<and> (\<exists>c. (k, c, nRelayIDs n') \<in> stated)) \<Longrightarrow> listed stated k c0 r0 n'"
  by (auto simp: listed_def)

lemma grounded_keep:
  assumes "grounded live stated v s k n" "listed stated k (nCapabilities n) (nRelayIDs n) n'"
    "nActive n \<Longrightarrow> nActive n'" "nActive n' \<Longrightarrow> nActive n \<or> k \<in> live"
  shows "grounded live stated v s k n'"
proof -
  have "listed stated k c0 r0 n \<Longrightarrow> listed stated k c0 r0 n'" for c0 r0
    by (rule listed_keep) (use assms(2) in \<open>auto simp: listed_def\<close>)
  then show ?thesis using assms(1,3,4) by (auto simp: grounded_def split: option.splits)
qed

text \<open>
  What a sequence of moves amounts to: \<open>j\<close> evictions, each counted, and without one every peer is still there.
\<close>

definition moved :: "string set \<Rightarrow> statement set \<Rightarrow> discovery \<Rightarrow> nat \<Rightarrow> discovery \<Rightarrow> bool" where
  "moved live stated s j d \<longleftrightarrow> dEvictions d = dEvictions s + of_nat j \<and> all_nodes (grounded live stated (j \<noteq> 0) s) d \<and>
     (j = 0 \<longrightarrow> (\<forall>k. gget (dNodes d) k = None \<longrightarrow> gget (dNodes s) k = None))"

lemma moved_dropped: "moved live stated s j d \<Longrightarrow> dropped ks d d' \<Longrightarrow> moved live stated s (j + length ks) d'"
  by (auto simp: moved_def dropped_def all_nodes_def gget_fold_gdel intro: grounded_mono split: if_splits)

lemma moved_known:
  assumes "moved live stated s j d" "gget (dNodes d) k = Some n" "wrote [] k n' d d'"
    "grounded live stated (j \<noteq> 0) s k n \<Longrightarrow> grounded live stated (j \<noteq> 0) s k n'"
  shows "moved live stated s j d'"
  using assms by (auto simp: moved_def wrote_def all_nodes_def split: if_splits)

lemma moved_fresh:
  assumes m: "moved live stated s j d" and new: "gget (dNodes d) k = None" and w: "wrote ks k n d d'"
    and n: "listed stated k [] [] n" "nActive n \<Longrightarrow> k \<in> live"
  shows "moved live stated s (j + length ks) d'"
proof -
  have "grounded live stated (j + length ks \<noteq> 0) s k n"
    using m new n by (auto simp: moved_def grounded_def split: option.split)
  then show ?thesis
    using m w by (auto simp: moved_def wrote_def all_nodes_def gget_fold_gdel intro: grounded_mono split: if_splits)
qed

lemma moved_upsert:
  assumes m: "moved live stated s j d" and st: "(k, caps, relays) \<in> stated \<or> caps = [] \<and> relays = []" and lv: "v \<Longrightarrow> k \<in> live"
  obtains i where "i \<le> 2" "moved live stated s (j + i) (upsertNode iter now k addr pk sk port caps relays ml v d)"
proof -
  define d' where "d' = upsertNode iter now k addr pk sk port caps relays ml v d"
  from d'_def have "\<exists>i \<le> 2. moved live stated s (j + i) d'"
  proof (cases rule: upsertNode_cases)
    case (none ks)
    then show ?thesis using moved_dropped [OF m none] by (auto simp: dropped_def)
  next
    case (known n)
    have "grounded live stated x s k n \<Longrightarrow> grounded live stated x s k (refresh_node now addr pk sk port caps relays ml v n)" for x
      by (rule grounded_keep) (use st lv in \<open>auto simp: listed_def refresh_node_live\<close>)
    from moved_known [OF m known this] show ?thesis by (intro exI [of _ 0]) simp
  next
    case (fresh ks)
    have "moved live stated s (j + length ks) d'"
      by (rule moved_fresh [OF m fresh]) (use st lv in \<open>auto simp: listed_def new_node_def\<close>)
    then show ?thesis using fresh(2) by (auto simp: wrote_def)
  qed
  then show ?thesis using that d'_def by blast
qed

lemma moved_merge:
  assumes m: "moved live stated s j d" and st: "att \<Longrightarrow> (piNodeID pi, piCapabilities pi, piRelayIDs pi) \<in> stated"
  obtains i where "i \<le> 2" "moved live stated s (j + i) (mergePeer sha256 iter now pi att d)"
proof -
  define d' where "d' = mergePeer sha256 iter now pi att d"
  from d'_def have "\<exists>i \<le> 2. moved live stated s (j + i) d'"
  proof (cases rule: mergePeer_cases)
    case (none ks)
    then show ?thesis using moved_dropped [OF m none] by (auto simp: dropped_def)
  next
    case (known n)
    have "grounded live stated x s (piNodeID pi) n \<Longrightarrow> grounded live stated x s (piNodeID pi) (merge_node pi att n)" for x
      by (rule grounded_keep) (use st in \<open>auto simp: listed_def merge_node_simps\<close>)
    from moved_known [OF m known(3,4) this] show ?thesis by (intro exI [of _ 0]) simp
  next
    case (fresh ks seen)
    have "moved live stated s (j + length ks) d'"
      by (rule moved_fresh [OF m fresh(3,4)]) (use st in \<open>auto simp: listed_def new_node_def attestedOnly_def\<close>)
    then show ?thesis using fresh(4) by (auto simp: wrote_def)
  qed
  then show ?thesis using that d'_def by blast
qed

lemma moves_moved:
  assumes "table_moves sha256 iter live stated s c d"
  shows "\<exists>j \<le> 2 * c. moved live stated s j d"
  using assms
proof induction
  case start
  have "moved live stated s 0 s" by (auto simp: moved_def all_nodes_def grounded_def listed_def)
  then show ?case by (intro exI [of _ 0]) simp
next
  case (other c d d' c')
  then obtain j where "j \<le> 2 * c" "moved live stated s j d" by blast
  then have "j \<le> 2 * c'" "moved live stated s j d" using other.hyps(3) by simp_all
  then show ?case using core_eqD [OF other.hyps(2)] by (auto simp: moved_def all_nodes_def)
next
  case (verified c d sk k caps relays now addr pk port ml)
  from verified.IH obtain j where j: "j \<le> 2 * c" "moved live stated s j d" by blast
  obtain i where "i \<le> 2" "moved live stated s (j + i) (upsertNode iter now k addr pk sk port caps relays ml True d)"
    by (rule moved_upsert [OF j(2) verified.hyps(5)]) (use verified.hyps(4) in auto)
  then show ?case using j(1) unfolding updateNode_def by (intro exI [of _ "j + i"]) simp
next
  case (candidate c d sk k caps relays now addr pk port ml)
  from candidate.IH obtain j where j: "j \<le> 2 * c" "moved live stated s j d" by blast
  obtain i where "i \<le> 2" "moved live stated s (j + i) (upsertNode iter now k addr pk sk port caps relays ml False d)"
    by (rule moved_upsert [OF j(2) candidate.hyps(4), where v = False]) auto
  then show ?case using j(1) unfolding learnCandidate_def by (intro exI [of _ "j + i"]) simp
next
  case (gossip c d att pi now)
  from gossip.IH obtain j where j: "j \<le> 2 * c" "moved live stated s j d" by blast
  obtain i where "i \<le> 2" "moved live stated s (j + i) (mergePeer sha256 iter now pi att d)"
    by (rule moved_merge [OF j(2) gossip.hyps(2)])
  then show ?case using j(1) by (intro exI [of _ "j + i"]) simp
qed

lemma frame_moved:
  assumes "\<forall>fr. eDecFindNodeReply e (pPayload (fst (UnmarshalBinary zero_packet data))) = Some fr \<longrightarrow> length (frContacts fr) < 2 ^ 62"
    and d': "d' = handle_frame e i addr data d"
  obtains j where "moved (first_hand e data) (self_stated e data) d j d'" "j = 0 \<longleftrightarrow> dEvictions d' = dEvictions d"
proof -
  let ?c = "frame_updates e (fst (UnmarshalBinary zero_packet data))"
  obtain j where j: "j \<le> 2 * ?c" "moved (first_hand e data) (self_stated e data) d j d'"
    using moves_moved [OF moves_frame [of e data d i addr]] unfolding d' by blast
  have "?c < 2 ^ 63" using assms(1) by (auto simp: frame_updates_def maxGossipAccept_def split: option.split)
  then have "j < 2 ^ 64" using j(1) by simp
  then have "of_nat j = (0 :: u64) \<longleftrightarrow> j = 0" by (auto simp: word_of_nat_eq_0_iff dest: dvd_imp_le)
  then show ?thesis using that [OF j(2)] j(2) by (simp add: moved_def)
qed

section \<open>Paths and latency checks\<close>

lemma rest_table_step:
  assumes "table_step d d'"
  shows "dPaths d' = dPaths d" "dPending d' = dPending d"
proof -
  obtain es rt j ev where "d' = d\<lparr>dNodes := es, dRT := rt, dJoins := j, dEvictions := ev\<rparr>"
    using assms unfolding table_step_def by blast
  then show "dPaths d' = dPaths d" "dPending d' = dPending d" by simp_all
qed

lemma rest_out_only:
  assumes "out_only d d'"
  shows "dPaths d' = dPaths d" "dPending d' = dPending d"
  using assms by (auto simp: out_only_def)

lemmas rest_sends [simp] =
  out_only_sends [THEN rest_out_only(1)] out_only_routed [THEN rest_out_only(1)] out_only_emit [THEN rest_out_only(1)]
  out_only_sends [THEN rest_out_only(2)] out_only_routed [THEN rest_out_only(2)] out_only_emit [THEN rest_out_only(2)]

lemmas rest_updates [simp] =
  table_step_upsert [THEN rest_table_step(1)] table_step_merge [THEN rest_table_step(1)] table_step_contacts [THEN rest_table_step(1)]
  table_step_upsert [THEN rest_table_step(2)] table_step_merge [THEN rest_table_step(2)] table_step_contacts [THEN rest_table_step(2)]

lemma rest_simple [simp]:
  "dPaths (rememberIface k i d) = dPaths d" "dPending (rememberIface k i d) = dPending d"
  "dPaths (rememberAddrIface k i d) = dPaths d" "dPending (rememberAddrIface k i d) = dPending d"
  "dPaths (recordObserved a d) = dPaths d" "dPending (recordObserved a d) = dPending d"
  "dPaths (handleReachabilityResult rp d) = dPaths d" "dPending (handleReachabilityResult rp d) = dPending d"
  "dPaths (handleFindNode e a fn d) = dPaths d" "dPending (handleFindNode e a fn d) = dPending d"
  "dPaths (handleFindNodeReply e fr d) = dPaths d" "dPending (handleFindNodeReply e fr d) = dPending d"
  "dPaths (resolveLatency e n k d) = dPaths d"
  by (auto simp: rememberIface_def rememberAddrIface_def recordObserved_def handleReachabilityResult_def handleFindNode_def
      handleFindNodeReply_def resolveLatency_def Let_def split: option.split prod.split)

lemma rest_gossip [simp]: "dPaths (handle_gossip e pkt d) = dPaths d" "dPending (handle_gossip e pkt d) = dPending d"
proof -
  have "table_step d (handle_gossip e pkt d)"
    unfolding handle_gossip_def Let_def by (simp split: option.split) (intro allI impI table_step_fold table_step_merge)
  from rest_table_step [OF this] show "dPaths (handle_gossip e pkt d) = dPaths d" "dPending (handle_gossip e pkt d) = dPending d" .
qed

lemma rest_requests [simp]:
  "dPaths (fst (handlePathRequest e pkt d)) = dPaths d" "dPending (fst (handlePathRequest e pkt d)) = dPending d"
  "dPaths (handleRouted e pkt d) = dPaths d" "dPending (handleRouted e pkt d) = dPending d"
  "dPaths (handle_find_node e a pkt d) = dPaths d" "dPending (handle_find_node e a pkt d) = dPending d"
  "dPaths (handle_discovery e a pkt d) = dPaths d"
  by (simp_all add: handlePathRequest_def handleRouted_def handle_find_node_def handle_discovery_def updateNode_def
      Let_def case_prod_beta split: option.split)

text \<open>A frame changes the path table by one update at most, and answers one latency check at most.\<close>

definition path_move :: "env \<Rightarrow> pathTable \<Rightarrow> pathTable \<Rightarrow> bool" where
  "path_move e pt pt' \<longleftrightarrow> pt' = pt \<or> (\<exists>k en. k \<noteq> [] \<and> pt' = fst (path_update (ePathOrder e) pt k en))"

lemma path_move_refl [simp]: "path_move e pt pt"
  by (simp add: path_move_def)

lemma path_move_update: "k \<noteq> [] \<Longrightarrow> path_move e pt (fst (path_update (ePathOrder e) pt k en))"
  unfolding path_move_def by blast

lemma path_move_announce: "path_move e (dPaths d) (dPaths (fst (handleAnnounce e a i pkt d)))"
proof (cases "eDecAnnounce e (pPayload pkt)")
  case None
  then show ?thesis by (simp add: handleAnnounce_def)
next
  case (Some ap)
  show ?thesis
  proof (cases "VerifyBound (eEd e) (eSha256 e) ap")
    case True
    then have "aDestHash ap \<noteq> []" using VerifyBound_key by blast
    then show ?thesis
      by (simp add: handleAnnounce_def Some Let_def case_prod_beta updateNode_def learnCandidate_def path_move_update)
  qed (simp add: handleAnnounce_def Some)
qed

lemma path_move_deliver: "path_move e (dPaths d) (dPaths (deliverRoutedDiscovery e ip from i d))"
proof (cases "SignerID (eSha256 e) ip = []")
  case False
  then show ?thesis
    by (simp add: deliverRoutedDiscovery_def Let_def learnRoutedPeer_def updateNode_def path_move_update split: option.split)
qed (simp add: deliverRoutedDiscovery_def)

lemma path_move_routed: "path_move e (dPaths d) (dPaths (handleRoutedDiscovery e pkt from i d))"
  using path_move_deliver [of e "d\<lparr>dRoutedSeen := fst (observe (eNow e) (dRoutedSeen d) (hex_EncodeToString (pID pkt)))\<rparr>"
      "fst (UnmarshalBinary zero_packet (RoutedInner (pPayload pkt)))" "from" i]
  by (simp add: handleRoutedDiscovery_def Let_def case_prod_beta)

lemma path_move_frame: "path_move e (dPaths d) (dPaths (handle_frame e i addr data d))"
proof -
  have "path_move e (dPaths d) (dPaths (handle_verified e a i pkt (rememberIface k i (rememberAddrIface addr i d))))" for a pkt k
    using path_move_announce [of e "rememberIface k i (rememberAddrIface addr i d)" a i pkt]
    by (simp add: handle_verified_def split: option.split)
  then show ?thesis
    using path_move_routed [of e "rememberAddrIface addr i d"]
    by (simp add: handle_frame_def Let_def case_prod_beta split: option.split)
qed

lemma path_move_ok: "path_move e pt pt' \<Longrightarrow> env_ok e \<Longrightarrow> path_ok pt \<Longrightarrow> path_ok pt' \<and> ptMax pt' = ptMax pt"
  using path_update_ok [of "ePathOrder e" pt] by (auto simp: path_move_def env_ok_def)

text \<open>The mailboxes of the latency checks.\<close>

definition reply_from :: "string set \<Rightarrow> (u64, pendingLatency) gomap \<Rightarrow> (u64, pendingLatency) gomap \<Rightarrow> bool" where
  "reply_from live m m' \<longleftrightarrow> (\<forall>nonce p t. gget m' nonce = Some p \<and> plArrival p = Some t \<longrightarrow> gget m nonce = Some p \<or> plNodeID p \<in> live)"

lemma reply_from_refl [simp]: "reply_from live m m"
  by (simp add: reply_from_def)

lemma reply_from_resolve: "k \<in> live \<Longrightarrow> dPending d = m \<Longrightarrow> reply_from live m (dPending (resolveLatency e n k d))"
  by (auto simp: reply_from_def resolveLatency_def split: option.split if_splits)

lemma reply_announce: "dPending (fst (handleAnnounce e a i pkt d)) = dPending d"
  by (simp add: handleAnnounce_def Let_def case_prod_beta updateNode_def learnCandidate_def split: option.split)

lemma reply_from_discovery:
  assumes "SignerID (eSha256 e) pkt \<in> live"
  shows "reply_from live (dPending d) (dPending (handle_discovery e a pkt d))"
  using assms by (simp add: handle_discovery_def Let_def updateNode_def reply_from_resolve split: option.split)

lemma reply_from_deliver:
  assumes "Verify (eEd e) ip \<Longrightarrow> SignerID (eSha256 e) ip \<in> live"
  shows "reply_from live (dPending d) (dPending (deliverRoutedDiscovery e ip from i d))"
  using assms by (simp add: deliverRoutedDiscovery_def Let_def learnRoutedPeer_def updateNode_def reply_from_resolve split: option.split)

lemma reply_from_frame: "reply_from (first_hand e data) (dPending d) (dPending (handle_frame e i addr data d))"
proof -
  obtain pkt err where u: "UnmarshalBinary zero_packet data = (pkt, err)" by (cases "UnmarshalBinary zero_packet data")
  obtain ip err' where u': "UnmarshalBinary zero_packet (RoutedInner (pPayload pkt)) = (ip, err')"
    by (cases "UnmarshalBinary zero_packet (RoutedInner (pPayload pkt))")
  let ?r = "reply_from (first_hand e data) (dPending d)"
  show ?thesis
  proof (cases err)
    case False
    have "?r (dPending (handle_verified e a i pkt (rememberIface (SignerID (eSha256 e) pkt) i (rememberAddrIface addr i d))))"
      if v: "Verify (eEd e) pkt" for a
    proof -
      have k: "SignerID (eSha256 e) pkt \<in> first_hand e data" using u False v by (simp add: first_hand_def)
      show ?thesis
        using reply_from_discovery [OF k, of "rememberIface (SignerID (eSha256 e) pkt) i (rememberAddrIface addr i d)" a]
        by (simp add: handle_verified_def reply_announce split: option.split)
    qed
    moreover have "?r (dPending (handleRoutedDiscovery e pkt a i (rememberAddrIface addr i d)))"
      if t: "pType pkt = PacketTypeRoutedDiscovery" for a
    proof -
      let ?d = "(rememberAddrIface addr i d)\<lparr>dRoutedSeen := fst (observe (eNow e) (dRoutedSeen (rememberAddrIface addr i d)) (hex_EncodeToString (pID pkt)))\<rparr>"
      have "reply_from (first_hand e data) (dPending ?d) (dPending (deliverRoutedDiscovery e ip a i ?d))" if "\<not> err'"
        by (rule reply_from_deliver) (use u u' False t that in \<open>simp add: first_hand_def\<close>)
      then show ?thesis by (simp add: handleRoutedDiscovery_def Let_def case_prod_beta u')
    qed
    ultimately show ?thesis using u False by (simp add: handle_frame_def Let_def split: option.split)
  qed (simp add: handle_frame_def u split: option.split)
qed

section \<open>Every operation of the service\<close>

text \<open>
  One step of the service: a frame, a goroutine it started, a periodic task, the start and the end of a round
  that waits, or a configuration call. \<^verbatim>\<open>Start\<close> is the step \<open>bootstrap\<close> and then the step \<open>announce\<close>; the goroutines it
  launches are the other steps. The bootstrap peers may be replaced while the service runs; only dropping the last
  of them is left out, since a table that has grown past its cap beside them is not shrunk by it.
\<close>

inductive disc_step :: "(bytes \<Rightarrow> bytes) \<Rightarrow> discovery \<Rightarrow> discovery \<Rightarrow> bool" for sha256 where
  frame: "env_ok e \<Longrightarrow> eSha256 e = sha256 \<Longrightarrow> disc_step sha256 d (fanIn e i addr data d)"
| forward: "ap \<in> set (dForwards d) \<Longrightarrow> disc_step sha256 d (forwardAnnounce e ap d)"
| dial_back: "(from, rp) \<in> set (dDialBacks d) \<Longrightarrow> disc_step sha256 d (handleReachabilityCheck e from rp d)"
| latency_round: "env_ok e \<Longrightarrow> disc_step sha256 d (checkLatencies (eNodeOrder e) (eNow e) latency d)"
| latency_start: "disc_step sha256 d (fst (startLatencyCheck e n d))"
| latency_end: "disc_step sha256 d (fst (endLatencyCheck t nonce sent w d))"
| find_start: "disc_step sha256 d (fst (sendFindNode e c target d))"
| find_end: "disc_step sha256 d (fst (collectFindNode nonce d))"
| reach_start: "disc_step sha256 d (fst (startReachRound e d))"
| reach_end: "disc_step sha256 d (endReachRound nonce result d)"
| announce: "disc_step sha256 d (announceSelf e d)"
| broadcast: "disc_step sha256 d (broadcastDiscovery e d)"
| bootstrap: "disc_step sha256 d (sendBootstrapDiscovery e d)"
| gossip: "disc_step sha256 d (gossipPeers e d)"
| request: "disc_step sha256 d (RequestPath e dest d)"
| send_routed: "disc_step sha256 d (fst (SendRouted e dest inner hops d))"
| bridge: "disc_step sha256 d (AddBridge e i addr d)"
| bridge_check: "disc_step sha256 d (checkBridgeLiveness e d)"
| relay: "disc_step sha256 d (SetRelay e on d)"
| relays: "disc_step sha256 d (SetRelayIDs e ids d)"
| identity: "disc_step sha256 d (SetIdentity pk port caps d)"
| mlkem: "disc_step sha256 d (SetMLKEMKey pk d)"
| signing: "disc_step sha256 d (SetSigningKey e priv d)"
| psk: "disc_step sha256 d (SetBridgePSK b d)"
| routed_handler: "disc_step sha256 d (SetRoutedHandler d)"
| reach_enable: "disc_step sha256 d (EnableReachabilityChecks d)"
| peer_cache: "disc_step sha256 d (SetPeerCache cache path d)"
| bootstrap_peers: "addrs \<noteq> [] \<or> dBootstrapPeers d = [] \<Longrightarrow> disc_step sha256 d (SetBootstrapPeers addrs d)"

definition disc_inv :: "(bytes \<Rightarrow> bytes) \<Rightarrow> discovery \<Rightarrow> bool" where
  "disc_inv sha256 d \<longleftrightarrow> peers_ok sha256 d \<and> path_ok (dPaths d) \<and> ptMax (dPaths d) = maxPaths"

lemma disc_inv_core:
  assumes "disc_inv sha256 d" "core d' = core d" "dPaths d' = dPaths d"
  shows "disc_inv sha256 d'"
  using assms peers_ok_core [OF assms(2)] by (simp add: disc_inv_def)

lemma core_fields [simp]:
  "core (d\<lparr>dNonceCounter := n\<rparr>) = core d" "core (d\<lparr>dIfaces := is\<rparr>) = core d" "core (d\<lparr>dCapabilities := xs\<rparr>) = core d"
  "core (d\<lparr>dRelayIDs := xs\<rparr>) = core d" "core (d\<lparr>dSignPriv := b\<rparr>) = core d" "core (d\<lparr>dSignPub := b\<rparr>) = core d"
  "core (d\<lparr>dPubKey := b\<rparr>) = core d" "core (d\<lparr>dPort := p\<rparr>) = core d" "core (d\<lparr>dMLKEMPub := b\<rparr>) = core d"
  "core (d\<lparr>dBridgePSK := b\<rparr>) = core d" "core (d\<lparr>dOnRouted := c\<rparr>) = core d" "core (d\<lparr>dReachEnabled := c\<rparr>) = core d"
  "core (d\<lparr>dOnReachability := c\<rparr>) = core d" "core (d\<lparr>dReachKnown := c\<rparr>) = core d" "core (d\<lparr>dReachable := c\<rparr>) = core d"
  "core (d\<lparr>dSoloFailures := n'\<rparr>) = core d" "core (d\<lparr>dBootstrapWarned := c\<rparr>) = core d"
  by (simp_all add: core_def)

lemma disc_inv_out_only: "disc_inv sha256 d \<Longrightarrow> out_only d d' \<Longrightarrow> disc_inv sha256 d'"
  by (rule disc_inv_core) (simp_all add: core_out_only rest_out_only)

lemma setReachable_same [simp]: "core (setReachable b d) = core d" "dPaths (setReachable b d) = dPaths d"
  by (simp_all add: setReachable_def Let_def)

lemma concludeRound_same [simp]: "core (concludeRound n b d) = core d" "dPaths (concludeRound n b d) = dPaths d"
  by (simp_all add: concludeRound_def Let_def)

lemma length_probe: "length (dNodes (probe now l b k d)) = length (dNodes d)"
  by (simp add: probe_def length_gput split: option.split)

lemma length_fold_probe: "length (dNodes (fold (\<lambda>k. probe now (latency k) b k) xs d)) = length (dNodes d)"
  by (induction xs arbitrary: d) (simp_all add: length_probe)

lemma disc_inv_latencies:
  assumes "disc_inv sha256 d"
  shows "disc_inv sha256 (checkLatencies iter now latency d)"
proof -
  note step = table_step_latencies [of d iter now latency]
  have "length (dNodes (checkLatencies iter now latency d)) = length (dNodes d)"
    by (simp add: checkLatencies_def Let_def case_prod_beta length_fold_probe)
  then show ?thesis
    using assms bound_latencies [of sha256 d iter now latency] table_step_fields(1,2,6) [OF step] rest_table_step [OF step]
    by (simp add: disc_inv_def peers_ok_def capped_def)
qed

lemma disc_inv_addBootstrap: "disc_inv sha256 d \<Longrightarrow> disc_inv sha256 (addBootstrap a d)"
  by (simp add: addBootstrap_def disc_inv_def peers_ok_def table_ok_def all_nodes_def capped_def)

lemma disc_inv_bootstrapPeers:
  "disc_inv sha256 d \<Longrightarrow> addrs \<noteq> [] \<or> dBootstrapPeers d = [] \<Longrightarrow> disc_inv sha256 (SetBootstrapPeers addrs d)"
  by (auto simp: SetBootstrapPeers_def disc_inv_def peers_ok_def table_ok_def all_nodes_def capped_def)

lemma disc_inv_peerCache:
  assumes "disc_inv sha256 d"
  shows "disc_inv sha256 (SetPeerCache cache path d)"
proof -
  have f: "disc_inv sha256 d \<Longrightarrow> disc_inv sha256 (fold addBootstrap as d)" for as and d :: discovery
    by (induction as arbitrary: d) (simp_all add: disc_inv_addBootstrap)
  have "disc_inv sha256 (d\<lparr>dPeerCachePath := path\<rparr>)"
    using assms by (simp add: disc_inv_def peers_ok_def table_ok_def all_nodes_def capped_def)
  then show ?thesis using f assms by (simp add: SetPeerCache_def Let_def)
qed

lemma disc_inv_frame:
  assumes "disc_inv sha256 d" "env_ok e" "eSha256 e = sha256"
  shows "disc_inv sha256 (fanIn e i addr data d)"
proof -
  let ?d = "markIfaceActive (ifName i) d"
  have "disc_inv sha256 ?d" by (rule disc_inv_core [OF assms(1)]) (simp_all add: markIfaceActive_def split: option.split)
  then show ?thesis
    using moves_ok [OF moves_frame [of e data ?d i addr]] path_move_ok [OF path_move_frame [of e ?d i addr data] assms(2)] assms(2,3)
    by (simp add: disc_inv_def fanIn_def env_ok_def)
qed

lemma disc_inv_startLatency: "disc_inv sha256 d \<Longrightarrow> disc_inv sha256 (fst (startLatencyCheck e n d))"
proof -
  assume a: "disc_inv sha256 d"
  let ?d = "d\<lparr>dNonceCounter := dNonceCounter d + 1,
     dPending := gput (dNonceCounter d + 1) \<lparr>plNodeID = nID n, plArrival = None\<rparr> (dPending d)\<rparr>"
  have base: "disc_inv sha256 ?d" by (rule disc_inv_core [OF a]) simp_all
  have "out_only ?d (fst (startLatencyCheck e n d))"
    by (auto simp: startLatencyCheck_def Let_def case_prod_beta split: option.split intro: out_only_trans [OF out_only_routed(3) out_only_send_on])
  then show ?thesis by (rule disc_inv_out_only [OF base])
qed

lemma disc_inv_rounds:
  assumes "disc_inv sha256 d"
  shows "disc_inv sha256 (fst (sendFindNode e c target d))" "disc_inv sha256 (fst (startReachRound e d))"
    "disc_inv sha256 (endReachRound nonce result d)"
proof -
  let ?d = "d\<lparr>dNonceCounter := dNonceCounter d + 1, dLookups := gput (dNonceCounter d + 1) None (dLookups d)\<rparr>"
  have base: "disc_inv sha256 ?d" by (rule disc_inv_core [OF assms]) simp_all
  have "disc_inv sha256 (?d\<lparr>dLookups := gdel (dNonceCounter d + 1) (dLookups ?d)\<rparr>)" by (rule disc_inv_core [OF base]) simp_all
  then show "disc_inv sha256 (fst (sendFindNode e c target d))"
    using disc_inv_out_only [OF base out_only_sends(1)] by (simp add: sendFindNode_def Let_def split: option.split)
  let ?e = "d\<lparr>dNonceCounter := dNonceCounter d + 1,
      dReachPending := gput (dNonceCounter d + 1) (length (probeTargets e reachProbePeers d), []) (dReachPending d)\<rparr>"
  have base: "disc_inv sha256 ?e" by (rule disc_inv_core [OF assms]) simp_all
  have "out_only ?e (fold (\<lambda>addr. sendReachability e addr t n p b) xs ?e)" for t n p b xs
    by (rule out_only_fold) (simp add: sendReachability_def)
  then show "disc_inv sha256 (fst (startReachRound e d))"
    using disc_inv_out_only [OF base] assms by (simp add: startReachRound_def Let_def)
  show "disc_inv sha256 (endReachRound nonce result d)"
    by (rule disc_inv_core [OF assms]) (simp_all add: endReachRound_def Let_def split: option.split prod.split)
qed

lemma disc_inv_settings:
  assumes "disc_inv sha256 d"
  shows "disc_inv sha256 (SetRelay e on d)" "disc_inv sha256 (SetRelayIDs e ids d)" "disc_inv sha256 (sendBootstrapDiscovery e d)"
    "disc_inv sha256 (AddBridge e i addr d)" "disc_inv sha256 (forwardAnnounce e ap d)" "disc_inv sha256 (handleReachabilityCheck e from rp d)"
proof -
  have r: "disc_inv sha256 (d\<lparr>dCapabilities := caps\<rparr>)" for caps by (rule disc_inv_core [OF assms]) simp_all
  show "disc_inv sha256 (SetRelay e on d)"
    unfolding SetRelay_def Let_def by (rule disc_inv_out_only [OF disc_inv_out_only [OF r out_only_sends(3)] out_only_announceSelf])
  have i: "disc_inv sha256 (d\<lparr>dRelayIDs := ids\<rparr>)" by (rule disc_inv_core [OF assms]) simp_all
  show "disc_inv sha256 (SetRelayIDs e ids d)"
    using i disc_inv_out_only [OF i out_only_announceSelf] by (simp add: SetRelayIDs_def Let_def)
  have "out_only d (fold (\<lambda>a d. send_on (dIface d) a b d) xs d)" for b xs by (rule out_only_fold) simp
  from disc_inv_out_only [OF assms this]
  have "disc_inv sha256 ((fold (\<lambda>a d. send_on (dIface d) a b d) xs d)\<lparr>dBootstrapWarned := c\<rparr>)" for b xs c
    by (rule disc_inv_core) simp_all
  moreover have "disc_inv sha256 (d\<lparr>dBootstrapWarned := c\<rparr>)" for c by (rule disc_inv_core [OF assms]) simp_all
  ultimately show "disc_inv sha256 (sendBootstrapDiscovery e d)" using assms by (simp add: sendBootstrapDiscovery_def Let_def)
  show "disc_inv sha256 (AddBridge e i addr d)"
    by (rule disc_inv_core [OF assms]) (simp_all add: AddBridge_def registerBridge_def)
  have f: "disc_inv sha256 (d\<lparr>dForwards := xs\<rparr>)" for xs by (rule disc_inv_core [OF assms]) simp_all
  show "disc_inv sha256 (forwardAnnounce e ap d)"
    unfolding forwardAnnounce_def by (rule disc_inv_out_only [OF f out_only_sends(5)])
  have b: "disc_inv sha256 (d\<lparr>dDialBacks := xs\<rparr>)" for xs by (rule disc_inv_core [OF assms]) simp_all
  show "disc_inv sha256 (handleReachabilityCheck e from rp d)"
    using b disc_inv_out_only [OF b out_only_send_on]
    by (simp add: handleReachabilityCheck_def sendReachability_def Let_def split: option.split)
qed

lemma disc_inv_step: "disc_inv sha256 d \<Longrightarrow> disc_step sha256 d d' \<Longrightarrow> disc_inv sha256 d'"
proof -
  assume a: "disc_inv sha256 d" and "disc_step sha256 d d'"
  have same: "core d'' = core d \<Longrightarrow> dPaths d'' = dPaths d \<Longrightarrow> disc_inv sha256 d''" for d'' by (rule disc_inv_core [OF a])
  from \<open>disc_step sha256 d d'\<close> show ?thesis
  proof cases
    case (frame e i addr data)
    then show ?thesis using disc_inv_frame [OF a] by simp
  next
    case (latency_round e latency)
    then show ?thesis using disc_inv_latencies [OF a] by simp
  next
    case (peer_cache cache path)
    then show ?thesis using disc_inv_peerCache [OF a] by simp
  next
    case (bootstrap_peers addrs)
    then show ?thesis using disc_inv_bootstrapPeers [OF a] by simp
  qed (use a disc_inv_settings [OF a] disc_inv_rounds [OF a] disc_inv_startLatency [OF a] disc_inv_out_only [OF a] in
      \<open>auto simp: endLatencyCheck_def collectFindNode_def checkBridgeLiveness_def SetIdentity_def SetMLKEMKey_def SetSigningKey_def
         SetBridgePSK_def SetRoutedHandler_def EnableReachabilityChecks_def Let_def intro: same\<close>)
qed

interpretation service: step_invariant "disc_step sha256" "disc_inv sha256" for sha256
  by unfold_locales (rule disc_inv_step)

lemma disc_inv_init: "disc_inv sha256 (SetBootstrapPeers boots (NewDiscovery self udp port))"
proof -
  have "case dRT (NewDiscovery self udp port) of None \<Rightarrow> True | Some rt \<Rightarrow> rt_ok rt"
    using ParseID_length [of self] by (simp add: NewDiscovery_def rt_ok_New split: option.split)
  then show ?thesis
    by (simp add: disc_inv_def peers_ok_def table_ok_def all_nodes_def capped_def SetBootstrapPeers_def path_ok_def
        NewDiscovery_def newPathTable_def)
qed

section \<open>Properties\<close>

text \<open>
  C2. Whatever frames arrive and whatever the service is asked to do, in any order: every peer in the table stands
  under the identifier derived from its own signing key and is not the node itself; without bootstrap peers the
  table holds at most 512 peers; the Kademlia table keeps its invariant; and the path table holds at most 4096
  paths.
\<close>
theorem discovery_state_invariant:
  assumes "(disc_step sha256)\<^sup>*\<^sup>* (SetBootstrapPeers boots (NewDiscovery self udp port)) d"
  shows "(\<forall>k n. gget (dNodes d) k = Some n \<longrightarrow>
      nID n = k \<and> k \<noteq> dSelfID d \<and> nSignKey n \<noteq> [] \<and> DeriveNodeID sha256 (nSignKey n) = k) \<and>
    (dBootstrapPeers d = [] \<longrightarrow> length (dNodes d) \<le> maxPeers) \<and>
    (case dRT d of Some rt \<Rightarrow> rt_ok rt | None \<Rightarrow> True) \<and>
    path_ok (dPaths d) \<and> length (ptEntries (dPaths d)) \<le> maxPaths"
proof -
  have "disc_inv sha256 d" by (rule service.run_keeps [OF assms disc_inv_init])
  then have i: "table_ok d" "all_nodes (bound_node sha256 (dSelfID d)) d" "capped d" "path_ok (dPaths d)" "ptMax (dPaths d) = maxPaths"
    by (simp_all add: disc_inv_def peers_ok_def)
  show ?thesis
    using i(1,3,4,5) i(2) [unfolded all_nodes_def bound_node_def] by (auto simp: table_ok_def capped_def path_ok_def split: option.splits)
qed

text \<open>A concrete environment: a node with the key of bytes 5, and one that decodes its discovery packets.\<close>

definition sample_id :: string where "sample_id = DeriveNodeID id (replicate 32 5)"

definition sample_env :: env where
  "sample_env = \<lparr>eSha256 = id, eEd = sample_ed25519, eNow = 1000, eNowStr = ''t'', eRand = 7, eNodeOrder = (\<lambda>m. m), ePathOrder = (\<lambda>m. m),
     eResolve = Some, eSendOK = (\<lambda>_ _ _. True), eDial = (\<lambda>_. True), eDecAnnounce = (\<lambda>_. None), eDecPathRequest = (\<lambda>_. None),
     eDecDiscovery = (\<lambda>_. Some (zero_discovery_payload\<lparr>dpNodeID := sample_id, dpCapabilities := [''relay'']\<rparr>)),
     eDecPeerExchange = (\<lambda>_. None), eDecFindNode = (\<lambda>_. None), eDecFindNodeReply = (\<lambda>_. None), eDecReachability = (\<lambda>_. None),
     eEncAnnounce = (\<lambda>_. []), eEncPathRequest = (\<lambda>_. []), eEncDiscovery = (\<lambda>_. [1]), eEncPeerExchange = (\<lambda>_. []),
     eEncFindNode = (\<lambda>_. []), eEncFindNodeReply = (\<lambda>_. []), eEncReachability = (\<lambda>_. [])\<rparr>"

definition sample_iface :: iface where "sample_iface = \<lparr>ifName = ''udp0'', ifKind = ''udp'', ifMTU = 1200\<rparr>"

definition sample_frame :: bytes where
  "sample_frame = MarshalBinary (Sign sample_ed25519 (replicate 64 5) (zero_packet\<lparr>pType := PacketTypeDiscovery, pSourceNode := sample_id\<rparr>))"

definition sample_start :: discovery where
  "sample_start = SetBootstrapPeers [] (NewDiscovery ''me'' sample_iface 1)"

definition sample_next :: discovery where
  "sample_next = fanIn sample_env sample_iface ''10.0.0.1:1'' sample_frame sample_start"

lemma sample_run: "(case gget (dNodes sample_next) sample_id of Some n \<Rightarrow> nActive n \<and> nCapabilities n = [''relay''] | None \<Rightarrow> False)"
  by code_simp

theorem discovery_state_invariant_witness:
  "(disc_step id)\<^sup>*\<^sup>* sample_start sample_next \<and>
   (\<exists>n. gget (dNodes sample_next) sample_id = Some n \<and> nActive n \<and> DeriveNodeID id (nSignKey n) = sample_id)"
proof -
  have ok: "env_ok sample_env" "eSha256 sample_env = id" by (simp_all add: env_ok_def sample_env_def)
  have run: "(disc_step id)\<^sup>*\<^sup>* sample_start sample_next"
    unfolding sample_next_def by (rule r_into_rtranclp) (rule disc_step.frame [OF ok])
  obtain n where n: "gget (dNodes sample_next) sample_id = Some n" "nActive n" using sample_run by (auto split: option.splits)
  have "DeriveNodeID id (nSignKey n) = sample_id"
    using discovery_state_invariant [of id "[]" "''me''" sample_iface 1 sample_next] run n by (simp add: sample_start_def)
  then show ?thesis using run n by blast
qed

text \<open>A gossip by another node about the first one, with a record of it that is newer and claims to be an exit.\<close>

definition gossip_env :: env where
  "gossip_env = sample_env\<lparr>eDecPeerExchange := \<lambda>_. Some [\<lparr>piNodeID = sample_id, piAddress = ''10.0.0.9:1'', piPubKey = [],
     piSignKey = replicate 32 5, piPort = 0, piCapabilities = [''exit''], piRelayIDs = [''r''], piMLKEMPub = [], piLastSeen = 2000\<rparr>]\<rparr>"

definition gossip_packet :: packet where
  "gossip_packet = Sign sample_ed25519 (replicate 64 6)
     (zero_packet\<lparr>pType := PacketTypePeerExchange, pSourceNode := DeriveNodeID id (replicate 32 6)\<rparr>)"

definition gossip_next :: discovery where
  "gossip_next = handle_frame gossip_env sample_iface ''10.0.0.2:1'' (MarshalBinary gossip_packet) sample_next"

lemma gossip_read: "UnmarshalBinary zero_packet (MarshalBinary gossip_packet) = (gossip_packet, False)"
  by code_simp

lemma gossip_kind: "pType gossip_packet = PacketTypePeerExchange" "SignerID id gossip_packet \<noteq> sample_id"
  by code_simp+

lemma gossip_run: "dEvictions gossip_next = dEvictions sample_next \<and> sample_id \<in> fst ` set (dNodes gossip_next)"
  by code_simp

lemma gossip_silent: "(sample_id, c, r) \<notin> self_stated gossip_env (MarshalBinary gossip_packet)"
proof -
  have "eSha256 gossip_env = id" by (simp add: gossip_env_def sample_env_def)
  then show ?thesis
    using gossip_kind by (auto simp: self_stated_def gossip_read stated_discovery_def stated_gossip_def stated_announce_def
        stated_routed_def packet_type_defs)
qed

text \<open>
  C1. Liveness is first-hand, and so are capabilities and relays. After any frame, a peer is active only if it was,
  or if the frame carries a valid signature by that peer's own key: on the packet, on the inner packet of a routed
  one, or on an announce that says it was not forwarded. If the frame led to no eviction, every known peer is still
  known, is still active if it was, and has exactly the capabilities and the relays it had, except for non-empty
  ones in a message it signed itself; a peer new to the table starts with none. Only if the eviction counter moved
  may a known peer have been dropped and have come back like a new one. A pending latency check is answered
  only by a packet signed by the node that was probed. The bound on the contacts of a reply keeps the 64-bit
  eviction counter from wrapping within one frame.
\<close>
theorem liveness_is_first_hand:
  assumes "\<forall>fr. eDecFindNodeReply e (pPayload (fst (UnmarshalBinary zero_packet data))) = Some fr \<longrightarrow> length (frContacts fr) < 2 ^ 62"
  shows "(\<forall>k n. gget (dNodes (handle_frame e i addr data d)) k = Some n \<longrightarrow>
      grounded (first_hand e data) (self_stated e data) (dEvictions (handle_frame e i addr data d) \<noteq> dEvictions d) d k n) \<and>
   (dEvictions (handle_frame e i addr data d) = dEvictions d \<longrightarrow>
      (\<forall>k m. gget (dNodes d) k = Some m \<longrightarrow> (\<exists>n. gget (dNodes (handle_frame e i addr data d)) k = Some n))) \<and>
   (\<forall>nonce p t. gget (dPending (handle_frame e i addr data d)) nonce = Some p \<and> plArrival p = Some t \<longrightarrow>
      gget (dPending d) nonce = Some p \<or> plNodeID p \<in> first_hand e data)"
proof -
  obtain j where j: "moved (first_hand e data) (self_stated e data) d j (handle_frame e i addr data d)"
    "j = 0 \<longleftrightarrow> dEvictions (handle_frame e i addr data d) = dEvictions d"
    by (rule frame_moved [OF assms refl])
  show ?thesis
    using j reply_from_frame [of e data d i addr] by (fastforce simp: moved_def all_nodes_def reply_from_def)
qed

theorem liveness_is_first_hand_witness:
  "\<exists>m n. gget (dNodes sample_next) sample_id = Some m \<and> nActive m \<and> nCapabilities m = [''relay''] \<and>
     gget (dNodes gossip_next) sample_id = Some n \<and> nActive n \<and> nCapabilities n = [''relay''] \<and> nRelayIDs n = nRelayIDs m"
proof -
  obtain m where m: "gget (dNodes sample_next) sample_id = Some m" "nActive m" "nCapabilities m = [''relay'']"
    using sample_run by (auto split: option.splits)
  have dec: "\<forall>fr. eDecFindNodeReply gossip_env (pPayload (fst (UnmarshalBinary zero_packet (MarshalBinary gossip_packet)))) = Some fr \<longrightarrow>
      length (frContacts fr) < 2 ^ 62" by (simp add: gossip_env_def sample_env_def)
  have ev: "dEvictions (handle_frame gossip_env sample_iface ''10.0.0.2:1'' (MarshalBinary gossip_packet) sample_next) = dEvictions sample_next"
    using gossip_run by (simp add: gossip_next_def)
  note c1 = liveness_is_first_hand [OF dec,
      where i = sample_iface and addr = "''10.0.0.2:1''" and d = sample_next]
  obtain n where n: "gget (dNodes gossip_next) sample_id = Some n"
    using c1 ev m(1) unfolding gossip_next_def by blast
  have "grounded (first_hand gossip_env (MarshalBinary gossip_packet)) (self_stated gossip_env (MarshalBinary gossip_packet))
      False sample_next sample_id n"
    using c1 [THEN conjunct1, rule_format, OF n [unfolded gossip_next_def]] ev by simp
  then have "nActive n" "nCapabilities n = nCapabilities m" "nRelayIDs n = nRelayIDs m"
    using m gossip_silent by (auto simp: grounded_def listed_def)
  then show ?thesis using m n by auto
qed

end
