(* ===== verification/DiscoveryFlows.thy ===== *)
theory DiscoveryFlows
  imports DiscoverySafety
begin

text \<open>
  The protocols of the discovery service over time: routed packets between several nodes, announces that are
  flooded, and the rounds that decide whether the node is reachable.
\<close>

section \<open>Routed packets in a swarm\<close>

text \<open>
  A swarm: the state of every node and the routed frames in flight. A frame in flight has a receiver, the
  interface and the source address it will be received with. \<open>net\<close> says where a frame sent by a node goes, if it
  is not lost.
\<close>

record swarm =
  swNodes :: "nat \<Rightarrow> discovery"
  swFlights :: "(nat \<times> iface \<times> string \<times> bytes) list"

type_synonym network = "nat \<Rightarrow> iface \<Rightarrow> string \<Rightarrow> (nat \<times> iface \<times> string) option"

definition put_in_flight :: "network \<Rightarrow> nat \<Rightarrow> effect list \<Rightarrow> (nat \<times> iface \<times> string \<times> bytes) list" where
  "put_in_flight net v out =
     List.map_filter (\<lambda>x. case x of SendFrame i a b \<Rightarrow> map_option (\<lambda>(w, j, from). (w, j, from, b)) (net v i a) | _ \<Rightarrow> None) out"

definition routed_frame :: "bytes \<Rightarrow> bool" where
  "routed_frame data \<longleftrightarrow> (case UnmarshalBinary zero_packet data of (p, err) \<Rightarrow> \<not> err \<and> pType p = PacketTypeRouted)"

inductive routed_step :: "network \<Rightarrow> swarm \<Rightarrow> swarm \<Rightarrow> bool" for net where
  deliver: "swFlights s = before @ (v, i, addr, data) # after \<Longrightarrow> routed_frame data \<Longrightarrow>
    d' = handle_frame e i addr data (swNodes s v) \<Longrightarrow>
    routed_step net s (s\<lparr>swNodes := (swNodes s)(v := d'),
      swFlights := before @ after @ put_in_flight net v (drop (length (dOut (swNodes s v))) (dOut d'))\<rparr>)"
| lose: "swFlights s = before @ x # after \<Longrightarrow> routed_step net s (s\<lparr>swFlights := before @ after\<rparr>)"

definition frame_weight :: "bytes \<Rightarrow> nat" where
  "frame_weight data =
     (if routed_frame data then unat (RoutedHopLimit (pPayload (fst (UnmarshalBinary zero_packet data)))) + 1 else 1)"

definition swarm_weight :: "swarm \<Rightarrow> nat" where
  "swarm_weight s = sum_list (map (\<lambda>x. frame_weight (snd (snd (snd x)))) (swFlights s))"

lemma handleRouted_out:
  obtains (quiet) "dOut (handleRouted e pkt d) = dOut d"
  | (up) x y where "dOut (handleRouted e pkt d) = dOut d @ [RoutedUp x y]"
  | (on) i a where "1 < RoutedHopLimit (pPayload pkt)"
      "dOut (handleRouted e pkt d) = dOut d @ [SendFrame i a (MarshalBinary (dec_hop pkt))]"
proof -
  let ?o = "observe (eNow e) (dRoutedSeen d) (hex_EncodeToString (pID pkt))"
  let ?d = "d\<lparr>dRoutedSeen := fst ?o\<rparr>"
  consider "snd ?o" | "\<not> snd ?o" "pDestNode pkt = dSelfID d" | "\<not> snd ?o" "pDestNode pkt \<noteq> dSelfID d" by blast
  then show ?thesis
  proof cases
    case 1
    then show ?thesis by (intro quiet) (simp add: handleRouted_def Let_def case_prod_beta)
  next
    case 2
    then show ?thesis
      using quiet up by (cases "dOnRouted d") (simp_all add: handleRouted_def Let_def case_prod_beta emit_def)
  next
    case 3
    show ?thesis
    proof (cases "isTransport ?d \<and> \<not> RoutedHopLimit (pPayload pkt) \<le> 1 \<and>
        (\<exists>pe. path_lookup (dPaths d) (pDestNode pkt) = Some pe \<and> peNextHop pe \<noteq> [])")
      case True
      then obtain pe where pe: "path_lookup (dPaths d) (pDestNode pkt) = Some pe" "peNextHop pe \<noteq> []" by blast
      have "dOut (handleRouted e pkt d) = dOut d @ [SendFrame (addr_iface (peNextHop pe) ?d) (peNextHop pe) (MarshalBinary (dec_hop pkt))]"
        using 3 True pe by (simp add: handleRouted_def Let_def case_prod_beta routeToward_def send_on_def emit_def)
      then show ?thesis using True by (intro on) (simp_all add: not_le)
    next
      case False
      then have "dOut (handleRouted e pkt d) = dOut d"
        using 3 by (auto simp: handleRouted_def Let_def case_prod_beta routeToward_def split: option.split)
      then show ?thesis by (rule quiet)
    qed
  qed
qed

lemma dec_hop_weight:
  assumes "packet_ok p" "pType p = PacketTypeRouted" "1 < RoutedHopLimit (pPayload p)"
  shows "frame_weight (MarshalBinary (dec_hop p)) = unat (RoutedHopLimit (pPayload p))"
proof -
  have ne: "pPayload p \<noteq> []" using assms(3) by (auto simp: RoutedHopLimit_def)
  have "packet_ok (dec_hop p)" using assms(1) by (simp add: packet_ok_def dec_hop_def)
  then have u: "UnmarshalBinary zero_packet (MarshalBinary (dec_hop p)) = (dec_hop p, False)"
    using Unmarshal_Marshal [of "dec_hop p" zero_packet "[]"] by simp
  have h: "RoutedHopLimit (pPayload (dec_hop p)) = RoutedHopLimit (pPayload p) - 1"
    using ne by (simp add: RoutedHopLimit_def dec_hop_def)
  have "unat (RoutedHopLimit (pPayload p) - 1) + 1 = unat (RoutedHopLimit (pPayload p))"
    using unat_minus_one [of "RoutedHopLimit (pPayload p)"] assms(3) by (cases "RoutedHopLimit (pPayload p) = 0") (simp_all add: unat_gt_0)
  then show ?thesis using u h assms(2) by (simp add: frame_weight_def routed_frame_def dec_hop_def)
qed

lemma delivered_weight:
  assumes "routed_frame data"
  shows "sum_list (map (\<lambda>x. frame_weight (snd (snd (snd x))))
      (put_in_flight net v (drop (length (dOut d)) (dOut (handle_frame e i addr data d))))) < frame_weight data"
proof -
  obtain pkt where u: "UnmarshalBinary zero_packet data = (pkt, False)" and t: "pType pkt = PacketTypeRouted"
    using assms by (auto simp: routed_frame_def split: prod.splits)
  have ok: "packet_ok pkt" using packet_ok_decoded [of zero_packet data] u by simp
  have w: "frame_weight data = unat (RoutedHopLimit (pPayload pkt)) + 1" using assms u by (simp add: frame_weight_def)
  show ?thesis
  proof (cases "eResolve e addr")
    case None
    then show ?thesis using w by (simp add: handle_frame_def put_in_flight_def)
  next
    case (Some a)
    let ?d = "rememberAddrIface addr i d"
    have d: "dOut ?d = dOut d" by (simp add: rememberAddrIface_def)
    have eq: "handle_frame e i addr data d = handleRouted e pkt ?d"
      using Some u t by (simp add: handle_frame_def packet_type_defs)
    show ?thesis
    proof (cases rule: handleRouted_out [of e pkt ?d])
      case quiet
      then show ?thesis using w by (simp add: eq d put_in_flight_def)
    next
      case (up x y)
      then show ?thesis using w by (simp add: eq d put_in_flight_def)
    next
      case (on j b)
      have "frame_weight (MarshalBinary (dec_hop pkt)) < frame_weight data"
        using dec_hop_weight [OF ok t on(1)] w by simp
      then show ?thesis using on(2) w by (cases "net v j b") (simp_all add: eq d put_in_flight_def case_prod_beta)
    qed
  qed
qed

lemma routed_step_weight:
  assumes "routed_step net s s'"
  shows "swarm_weight s' < swarm_weight s"
  using assms
proof cases
  case (deliver before v i addr data after d' e)
  then show ?thesis
    using delivered_weight [OF deliver(3), of net v "swNodes s v" e i addr] by (simp add: swarm_weight_def)
next
  case (lose before x after)
  moreover have "0 < frame_weight b" for b by (simp add: frame_weight_def)
  ultimately show ?thesis by (simp add: swarm_weight_def)
qed

section \<open>Reachability rounds\<close>

lemma reach_tally_silent: "reach_tally n r (replicate k (Answer False) @ evs) =
    (if n \<le> r + k then (if n \<le> r then Some (r, False) else Some (n, False)) else reach_tally n (r + k) evs)"
  by (induction k arbitrary: r) (cases evs; auto)+

lemma Reachable_setReachable [simp]: "Reachable (setReachable b d) = (b, True)"
  by (simp add: setReachable_def Reachable_def Let_def emit_def)

lemma solo_setReachable [simp]: "dSoloFailures (setReachable b d) = dSoloFailures d"
  by (simp add: setReachable_def Let_def emit_def)

lemma out_setReachable:
  "dOut (setReachable b d) = dOut d @ (if dOnReachability d \<and> Reachable d \<noteq> (b, True) then [ReachabilityChanged b] else [])"
  by (auto simp: setReachable_def Let_def emit_def Reachable_def)

lemma Reachable_pending [simp]: "Reachable (d\<lparr>dReachPending := m\<rparr>) = Reachable d" "Reachable (d\<lparr>dSoloFailures := k\<rparr>) = Reachable d"
  by (simp_all add: Reachable_def)

section \<open>Announces\<close>

lemma VerifyBound_hop [simp]: "VerifyBound ed sha256 (ap\<lparr>aHopCount := h\<rparr>) = VerifyBound ed sha256 ap"
  by (simp add: VerifyBound_def VerifySig_def signedBytes_def Let_def)

lemma announce_fields:
  assumes "table_step d d'"
  shows "dForwards d' = dForwards d" "dSeenAnn d' = dSeenAnn d" "isTransport d' = isTransport d" "dIface d' = dIface d" "dPaths d' = dPaths d"
proof -
  obtain es rt j ev where "d' = d\<lparr>dNodes := es, dRT := rt, dJoins := j, dEvictions := ev\<rparr>"
    using assms unfolding table_step_def by blast
  then show "dForwards d' = dForwards d" "dSeenAnn d' = dSeenAnn d" "isTransport d' = isTransport d" "dIface d' = dIface d" "dPaths d' = dPaths d"
    by (simp_all add: isTransport_def)
qed

lemmas announce_upsert [simp] = table_step_upsert [THEN announce_fields(1)] table_step_upsert [THEN announce_fields(2)]
  table_step_upsert [THEN announce_fields(3)] table_step_upsert [THEN announce_fields(4)]

lemma rememberIface_fields [simp]:
  "dForwards (rememberIface k i d) = dForwards d" "dSeenAnn (rememberIface k i d) = dSeenAnn d"
  "isTransport (rememberIface k i d) = isTransport d" "dIface (rememberIface k i d) = dIface d"
  by (simp_all add: rememberIface_def isTransport_def)

lemma isTransport_update [simp]: "isTransport (d\<lparr>dSeenAnn := x\<rparr>) = isTransport d" "isTransport (d\<lparr>dPaths := y\<rparr>) = isTransport d"
  by (simp_all add: isTransport_def)








section \<open>Properties\<close>

text \<open>
  C4. Forwarding routed packets always ends. In a swarm of any nodes, over a network that may lose, redirect or
  loop frames, every delivery of a routed frame uses up a hop: a run of n deliveries and losses from a state with
  m frames in flight has n at most 256 m, and n at most the sum of their hop limits plus one each.
\<close>
theorem routed_forwarding_terminates:
  assumes "(routed_step net ^^ n) s s'"
  shows "n + swarm_weight s' \<le> swarm_weight s \<and> n \<le> 256 * length (swFlights s)"
proof -
  have run: "n + swarm_weight s' \<le> swarm_weight s"
    using assms
  proof (induction n arbitrary: s')
    case (Suc n)
    then obtain t where t: "(routed_step net ^^ n) s t" "routed_step net t s'" by auto
    show ?case using Suc.IH [OF t(1)] routed_step_weight [OF t(2)] by simp
  qed simp
  have byte: "frame_weight b \<le> 256" for b
  proof -
    have "unat (RoutedHopLimit (pPayload (fst (UnmarshalBinary zero_packet b)))) < 2 ^ LENGTH(8)" by (rule unsigned_less)
    then show ?thesis by (simp add: frame_weight_def)
  qed
  have "sum_list (map (\<lambda>x. frame_weight (snd (snd (snd x)))) fl) \<le> 256 * length fl" for fl :: "(nat \<times> iface \<times> string \<times> bytes) list"
  proof (induction fl)
    case (Cons x fl)
    then show ?case using byte [of "snd (snd (snd x))"] by simp
  qed simp
  from this [of "swFlights s"] show ?thesis using run by (simp add: swarm_weight_def)
qed

definition sample_routed :: bytes where
  "sample_routed = MarshalBinary (zero_packet\<lparr>pType := PacketTypeRouted, pDestNode := ''zz'', pPayload := [3, 9]\<rparr>)"

definition sample_transport :: discovery where
  "sample_transport = (SetIdentity [] 1 [''relay''] sample_start)\<lparr>dPaths := fst (path_update (\<lambda>m. m) (newPathTable maxPaths) ''zz''
     \<lparr>peIface = ''udp0'', peNextHop = ''10.0.0.2:1'', peHops = 1, peLastSeen = 0, peOriginTS = 0, peAnn = None\<rparr>)\<rparr>"

definition sample_net :: network where
  "sample_net v i a = Some (v + 1, i, ''10.0.0.1:1'')"

definition sample_swarm :: swarm where
  "sample_swarm = \<lparr>swNodes = (\<lambda>_. sample_transport), swFlights = [(0, sample_iface, ''10.0.0.9:1'', sample_routed)]\<rparr>"

lemma sample_routed_ok: "routed_frame sample_routed" "frame_weight sample_routed = 4"
  by code_simp+

theorem routed_forwarding_terminates_witness:
  "\<exists>s'. (routed_step sample_net ^^ 1) sample_swarm s' \<and> swarm_weight s' < 4"
proof -
  let ?d = "handle_frame sample_env sample_iface ''10.0.0.9:1'' sample_routed (swNodes sample_swarm 0)"
  let ?t = "sample_swarm\<lparr>swNodes := (swNodes sample_swarm)(0 := ?d),
      swFlights := [] @ [] @ put_in_flight sample_net 0 (drop (length (dOut (swNodes sample_swarm 0))) (dOut ?d))\<rparr>"
  have fl: "swFlights sample_swarm = [] @ (0, sample_iface, ''10.0.0.9:1'', sample_routed) # []" by (simp add: sample_swarm_def)
  have "(routed_step sample_net ^^ 1) sample_swarm ?t"
    using routed_step.deliver [OF fl sample_routed_ok(1) refl, where net = sample_net and e = sample_env] by (simp only: relpowp_1)
  moreover have "swarm_weight sample_swarm = 4" using sample_routed_ok(2) by (simp add: swarm_weight_def sample_swarm_def)
  ultimately show ?thesis using routed_forwarding_terminates [where net = sample_net and n = 1 and s = sample_swarm and s' = ?t] by auto
qed







text \<open>
  C36. What a round of dial-backs concludes. A success, after any number of failures, proves the node reachable and
  clears the count of lone failures. Without a success, a round that asked two or more peers concludes that the node
  is unreachable, however few of them answered: the timeout counts as if all had, and a round in which nobody
  answered is no exception. A round that asked one peer is conclusive only as the third of its kind in a row, and a
  cancelled round concludes nothing. The callback fires exactly when the conclusion changes.
\<close>
theorem reachability_verdicts:
  "(\<forall>n k rest. k < n \<longrightarrow> (let d' = endReachRound nonce (reach_tally n 0 (replicate k (Answer False) @ Answer True # rest)) d in
      Reachable d' = (True, True) \<and> dSoloFailures d' = 0 \<and>
      dOut d' = dOut d @ (if dOnReachability d \<and> Reachable d \<noteq> (True, True) then [ReachabilityChanged True] else []))) \<and>
   (\<forall>n k rest. 2 \<le> n \<and> k \<le> n \<longrightarrow> (let d' = endReachRound nonce (reach_tally n 0 (replicate k (Answer False) @ Timeout # rest)) d in
      Reachable d' = (False, True) \<and> dSoloFailures d' = 0 \<and>
      dOut d' = dOut d @ (if dOnReachability d \<and> Reachable d \<noteq> (False, True) then [ReachabilityChanged False] else []))) \<and>
   (\<forall>k rest. k \<le> 1 \<longrightarrow> (let d' = endReachRound nonce (reach_tally 1 0 (replicate k (Answer False) @ Timeout # rest)) d in
      dSoloFailures d' = dSoloFailures d + 1 \<and> Reachable d' = (if 3 \<le> dSoloFailures d' then (False, True) else Reachable d))) \<and>
   (\<forall>n k rest. k < n \<longrightarrow> (let d' = endReachRound nonce (reach_tally n 0 (replicate k (Answer False) @ Cancelled # rest)) d in
      Reachable d' = Reachable d \<and> dSoloFailures d' = dSoloFailures d \<and> dOut d' = dOut d))"
proof -
  have tally: "reach_tally n 0 (replicate k (Answer False) @ Timeout # rest) = Some (n, False)" if "k \<le> n" "0 < n" for n k rest
    using that by (simp add: reach_tally_silent) (cases rest; simp)
  show ?thesis
  proof (intro conjI allI impI)
    fix n k rest assume "k < (n :: nat)"
    then have "reach_tally n 0 (replicate k (Answer False) @ Answer True # rest) = Some (k + 1, True)"
      by (simp add: reach_tally_silent)
    then show "let d' = endReachRound nonce (reach_tally n 0 (replicate k (Answer False) @ Answer True # rest)) d in
      Reachable d' = (True, True) \<and> dSoloFailures d' = 0 \<and>
      dOut d' = dOut d @ (if dOnReachability d \<and> Reachable d \<noteq> (True, True) then [ReachabilityChanged True] else [])"
      by (simp add: endReachRound_def concludeRound_def Let_def out_setReachable)
  next
    fix n k rest assume "2 \<le> n \<and> k \<le> (n :: nat)"
    then have "reach_tally n 0 (replicate k (Answer False) @ Timeout # rest) = Some (n, False)" "2 \<le> n" using tally [of k n rest] by simp_all
    then show "let d' = endReachRound nonce (reach_tally n 0 (replicate k (Answer False) @ Timeout # rest)) d in
      Reachable d' = (False, True) \<and> dSoloFailures d' = 0 \<and>
      dOut d' = dOut d @ (if dOnReachability d \<and> Reachable d \<noteq> (False, True) then [ReachabilityChanged False] else [])"
      by (simp add: endReachRound_def concludeRound_def reachMinResponders_def Let_def out_setReachable)
  next
    fix k rest assume "k \<le> (1 :: nat)"
    then have "reach_tally 1 0 (replicate k (Answer False) @ Timeout # rest) = Some (1, False)" using tally [of k 1 rest] by simp
    then show "let d' = endReachRound nonce (reach_tally 1 0 (replicate k (Answer False) @ Timeout # rest)) d in
      dSoloFailures d' = dSoloFailures d + 1 \<and> Reachable d' = (if 3 \<le> dSoloFailures d' then (False, True) else Reachable d)"
      by (simp add: endReachRound_def concludeRound_def reachMinResponders_def reachSoloRounds_def Let_def)
  next
    fix n k rest assume "k < (n :: nat)"
    then have "reach_tally n 0 (replicate k (Answer False) @ Cancelled # rest) = None" by (simp add: reach_tally_silent)
    then show "let d' = endReachRound nonce (reach_tally n 0 (replicate k (Answer False) @ Cancelled # rest)) d in
      Reachable d' = Reachable d \<and> dSoloFailures d' = dSoloFailures d \<and> dOut d' = dOut d"
      by (simp add: endReachRound_def Let_def)
  qed
qed

theorem reachability_verdicts_witness:
  "Reachable (endReachRound 1 (reach_tally 3 0 [Timeout]) sample_start) = (False, True) \<and>
   Reachable (endReachRound 1 (reach_tally 3 0 [Answer False, Answer True]) sample_start) = (True, True)"
proof -
  note v = reachability_verdicts [of 1 sample_start, unfolded Let_def]
  have n: "2 \<le> (3 :: nat) \<and> 0 \<le> (3 :: nat)" "1 < (3 :: nat)" by simp_all
  have "Reachable (endReachRound 1 (reach_tally 3 0 (replicate 0 (Answer False) @ [Timeout])) sample_start) = (False, True)"
    by (rule v [THEN conjunct2, THEN conjunct1, rule_format, OF n(1), THEN conjunct1])
  moreover have "Reachable (endReachRound 1 (reach_tally 3 0 (replicate 1 (Answer False) @ [Answer True])) sample_start) = (True, True)"
    by (rule v [THEN conjunct1, rule_format, OF n(2), THEN conjunct1])
  ultimately show ?thesis by (simp only: replicate_0 append.simps One_nat_def replicate_Suc)
qed

end
