(* ===== verification/Pieces.thy ===== *)
theory Pieces
  imports Packet Fragment
begin

text \<open>
  The pieces of a transfer (\<^verbatim>\<open>internal/transfer/transfer.go\<close>): a fragment larger than the wire cap is
  cut into sub-chunks, and the receiver puts the sub-chunks of a fragment together before it counts
  the fragment as received. The buffers \<^verbatim>\<open>received\<close>, \<^verbatim>\<open>chunks\<close> and \<^verbatim>\<open>subParts\<close> are shared by whole
  transfers and by the blocks of a stream; they are the record \<open>pieces\<close>, which both extend.

  The invariant \<open>pieces_inv\<close> says what the buffers hold after any sequence of genuine packets: the
  fragments all of whose pieces have arrived, in full, and the pieces of the others.
\<close>

section \<open>The scheme of a transfer\<close>

record scheme =
  scDataShards :: u32
  scParityShards :: u32
  scOriginalLen :: u64
  scVariable :: bool
  scStreaming :: bool
  scHybridSealed :: bool
  scPQ :: bool
  scResumable :: bool

definition schemeFromPacket :: "packet \<Rightarrow> scheme" where
  "schemeFromPacket p = \<lparr>scDataShards = pDataShards p, scParityShards = pParityShards p, scOriginalLen = pOriginalLen p,
     scVariable = pVariable p, scStreaming = pStreaming p, scHybridSealed = pHybridSealed p, scPQ = pPQ p,
     scResumable = pResumable p\<rparr>"

definition applyScheme :: "packet \<Rightarrow> scheme \<Rightarrow> packet" where
  "applyScheme p sc = p\<lparr>pDataShards := scDataShards sc, pParityShards := scParityShards sc,
     pOriginalLen := scOriginalLen sc, pVariable := scVariable sc, pStreaming := scStreaming sc,
     pHybridSealed := scHybridSealed sc, pPQ := scPQ sc, pResumable := scResumable sc\<rparr>"

definition stampStreaming :: "packet \<Rightarrow> fragment \<Rightarrow> packet" where
  "stampStreaming pkt fr = pkt\<lparr>pStreaming := fStreaming fr, pBlockIndex := fBlockIndex fr,
     pBlockLen := fBlockLen fr, pFinal := fFinal fr\<rparr>"

section \<open>Cutting and absorbing\<close>

definition fragmentPieces :: "fragment \<Rightarrow> int \<Rightarrow> fragment list" where
  "fragmentPieces fr subChunkSize =
     (if subChunkSize \<le> 0 \<or> int (length (fPayload fr)) \<le> subChunkSize
      then [fr\<lparr>fSubIndex := 0, fSubTotal := 1\<rparr>]
      else let parts = Split (fPayload fr) subChunkSize
           in map (\<lambda>(i, p). fr\<lparr>fSubIndex := word_of_nat i, fSubTotal := u32_len parts, fPayload := p\<rparr>)
                (enumerate 0 parts))"

record pieces =
  bReceived :: "(u32, bool) gomap"
  bChunks :: "(u32, bytes) gomap"
  bSubParts :: "(u32, (u32, bytes) gomap) gomap"

text \<open>The zero value of a missing key: \<^verbatim>\<open>received[idx]\<close>, \<^verbatim>\<open>parts[i]\<close>.\<close>

definition is_set :: "(u32, bool) gomap \<Rightarrow> u32 \<Rightarrow> bool" where
  "is_set m i \<longleftrightarrow> gget m i = Some True"

definition elem_or_nil :: "('k, 'v list) gomap \<Rightarrow> 'k \<Rightarrow> 'v list" where
  "elem_or_nil m k = (case gget m k of None \<Rightarrow> [] | Some v \<Rightarrow> v)"

definition absorbSubChunk ::
  "(u32, bool) gomap \<Rightarrow> (u32, (u32, bytes) gomap) gomap \<Rightarrow> packet \<Rightarrow>
   (u32, (u32, bytes) gomap) gomap \<times> (u32 \<times> bytes) option" where
  "absorbSubChunk received subParts pkt =
     (let idx = pChunkNumber pkt in
      if is_set received idx then (subParts, None)
      else if pSubTotal pkt \<le> 1 then (subParts, Some (idx, pPayload pkt))
      else if pSubIndex pkt \<ge> pSubTotal pkt then (subParts, None)
      else let parts = elem_or_nil subParts idx;
               parts = (case gget parts (pSubIndex pkt) of
                          Some _ \<Rightarrow> parts
                        | None \<Rightarrow> gput (pSubIndex pkt) (pPayload pkt) parts);
               subParts = gput idx parts subParts
           in if u32_len parts < pSubTotal pkt then (subParts, None)
              else (gdel idx subParts,
                    Some (idx, concat (map (\<lambda>i. elem_or_nil parts (word_of_nat i)) [0..<unat (pSubTotal pkt)]))))"

text \<open>Both receive paths store a completed fragment and mark its index.\<close>

definition absorb_piece :: "packet \<Rightarrow> 'a pieces_scheme \<Rightarrow> 'a pieces_scheme" where
  "absorb_piece pkt b =
     (case absorbSubChunk (bReceived b) (bSubParts b) pkt of
        (subParts, None) \<Rightarrow> b\<lparr>bSubParts := subParts\<rparr>
      | (subParts, Some (idx, payload)) \<Rightarrow>
          b\<lparr>bSubParts := subParts, bChunks := gput idx payload (bChunks b),
            bReceived := gput idx True (bReceived b)\<rparr>)"

section \<open>Lemmas\<close>

definition piece_payloads :: "int \<Rightarrow> bytes \<Rightarrow> bytes list" where
  "piece_payloads n payload =
     (if n \<le> 0 \<or> int (length payload) \<le> n then [payload] else Split payload n)"

lemma concat_piece_payloads [simp]: "concat (piece_payloads n p) = p"
  using Join_Split [of n p] by (simp add: piece_payloads_def Join_concat)

lemma piece_payloads_ne [simp]: "piece_payloads n p \<noteq> []"
proof
  assume n: "piece_payloads n p = []"
  then have "\<not> (n \<le> 0 \<or> int (length p) \<le> n)" by (auto simp: piece_payloads_def)
  then have "p \<noteq> []" by auto
  then show False using concat_piece_payloads [of n p] n by simp
qed

lemma fragmentPieces_eq:
  "fragmentPieces fr n = map (\<lambda>(i, p). fr\<lparr>fSubIndex := word_of_nat i, fSubTotal := u32_len (piece_payloads n (fPayload fr)),
     fPayload := p\<rparr>) (enumerate 0 (piece_payloads n (fPayload fr)))"
  by (simp add: fragmentPieces_def piece_payloads_def u32_len_def Let_def)

text \<open>A packet that carries a piece of the fragment of its index.\<close>

definition genuine_piece :: "(u32 \<Rightarrow> bytes option) \<Rightarrow> int \<Rightarrow> packet \<Rightarrow> bool" where
  "genuine_piece F n pkt \<longleftrightarrow>
     (case F (pChunkNumber pkt) of
        None \<Rightarrow> False
      | Some p \<Rightarrow> unat (pSubIndex pkt) < length (piece_payloads n p) \<and>
          pSubTotal pkt = u32_len (piece_payloads n p) \<and> pPayload pkt = piece_payloads n p ! unat (pSubIndex pkt))"

definition all_pieces :: "(u32 \<Rightarrow> bytes option) \<Rightarrow> int \<Rightarrow> (u32 \<times> u32) set \<Rightarrow> u32 \<Rightarrow> bool" where
  "all_pieces F n S idx \<longleftrightarrow>
     (case F idx of None \<Rightarrow> False | Some p \<Rightarrow> \<forall>i < length (piece_payloads n p). (idx, word_of_nat i) \<in> S)"

definition held_parts :: "(u32 \<Rightarrow> bytes option) \<Rightarrow> int \<Rightarrow> (u32 \<times> u32) set \<Rightarrow> u32 \<Rightarrow> (u32, bytes) gomap \<Rightarrow> bool" where
  "held_parts F n S idx m \<longleftrightarrow> gmap_ok m \<and>
     (\<forall>k. gget m k = (case F idx of
        None \<Rightarrow> None
      | Some p \<Rightarrow> if unat k < length (piece_payloads n p) \<and> (idx, k) \<in> S then Some (piece_payloads n p ! unat k) else None))"

definition pieces_inv :: "(u32 \<Rightarrow> bytes option) \<Rightarrow> int \<Rightarrow> (u32 \<times> u32) set \<Rightarrow> 'a pieces_scheme \<Rightarrow> bool" where
  "pieces_inv F n S b \<longleftrightarrow> gmap_ok (bReceived b) \<and> gmap_ok (bChunks b) \<and>
     (\<forall>idx. if all_pieces F n S idx
        then gget (bReceived b) idx = Some True \<and> gget (bChunks b) idx = F idx
        else gget (bReceived b) idx = None \<and> gget (bChunks b) idx = None \<and>
             held_parts F n S idx (elem_or_nil (bSubParts b) idx))"

definition few_pieces :: "(u32 \<Rightarrow> bytes option) \<Rightarrow> int \<Rightarrow> bool" where
  "few_pieces F n \<longleftrightarrow> (\<forall>idx p. F idx = Some p \<longrightarrow> length (piece_payloads n p) < 2 ^ 32)"

lemma gmap_full_iff:
  fixes m :: "(u32, bytes) gomap"
  assumes "gmap_ok m" and "\<And>k. gget m k \<noteq> None \<Longrightarrow> k < n"
  shows "length m = unat n \<longleftrightarrow> (\<forall>i < unat n. gget m (word_of_nat i) \<noteq> None)" and "length m \<le> unat n"
proof -
  let ?r = "(NewRSReassembler undefined 0 0 0)\<lparr>rrTotal := n, rrParts := m\<rparr>"
  have "rr.inv ?r" using assms by (auto simp: rr.inv_def gget_None_iff)
  from rr.full_iff [OF this] rr.length_parts [OF this]
  show "length m = unat n \<longleftrightarrow> (\<forall>i < unat n. gget m (word_of_nat i) \<noteq> None)" "length m \<le> unat n" by simp_all
qed

lemma all_pieces_other: "idx \<noteq> j \<Longrightarrow> all_pieces F n (insert (j, k) S) idx = all_pieces F n S idx"
  by (auto simp: all_pieces_def split: option.split)

lemma all_pieces_mono: "all_pieces F n S idx \<Longrightarrow> S \<subseteq> T \<Longrightarrow> all_pieces F n T idx"
  by (auto simp: all_pieces_def split: option.splits)

lemma held_parts_other: "idx \<noteq> j \<Longrightarrow> held_parts F n (insert (j, k) S) idx m = held_parts F n S idx m"
  by (simp add: held_parts_def split: option.split)

lemma elem_or_nil_gput [simp]: "elem_or_nil (gput k v m) j = (if j = k then v else elem_or_nil m j)"
  by (simp add: elem_or_nil_def)

lemma elem_or_nil_gdel [simp]: "elem_or_nil (gdel k m) j = (if j = k then [] else elem_or_nil m j)"
  by (simp add: elem_or_nil_def)

lemma held_insert:
  assumes "held_parts F n S idx m" and "F idx = Some p" and "unat k < length (piece_payloads n p)"
  shows "held_parts F n (insert (idx, k) S) idx
     (case gget m k of Some _ \<Rightarrow> m | None \<Rightarrow> gput k (piece_payloads n p ! unat k) m)"
  using assms by (auto simp: held_parts_def split: option.split)

lemma held_full:
  assumes few: "few_pieces F n" and held: "held_parts F n S idx m" and F: "F idx = Some p"
  shows "length m = length (piece_payloads n p) \<longleftrightarrow> all_pieces F n S idx" and "length m \<le> length (piece_payloads n p)"
    and "all_pieces F n S idx \<Longrightarrow>
      concat (map (\<lambda>i. elem_or_nil m (word_of_nat i)) [0..<length (piece_payloads n p)]) = p"
proof -
  let ?P = "piece_payloads n p"
  have N: "length ?P < 2 ^ 32" using few F by (auto simp: few_pieces_def)
  have u: "unat (u32_len ?P) = length ?P" using N by (rule unat_u32_len)
  have look: "gget m k = (if unat k < length ?P \<and> (idx, k) \<in> S then Some (?P ! unat k) else None)" for k
    using held F by (simp add: held_parts_def)
  have at: "gget m (word_of_nat i) = (if (idx, word_of_nat i) \<in> S then Some (?P ! i) else None)" if "i < length ?P" for i
  proof -
    have "unat (word_of_nat i :: u32) = i" using that N by (simp add: unat_u32_of_nat)
    then show ?thesis using look [of "word_of_nat i"] that by simp
  qed
  have ok: "gmap_ok m" using held by (simp add: held_parts_def)
  have below: "k < u32_len ?P" if "gget m k \<noteq> None" for k
    using that look [of k] u by (simp add: word_less_nat_alt split: if_splits)
  note full = gmap_full_iff [OF ok below, unfolded u]
  have all: "all_pieces F n S idx \<longleftrightarrow> (\<forall>i < length ?P. (idx, word_of_nat i) \<in> S)"
    using F by (simp add: all_pieces_def)
  show "length m = length ?P \<longleftrightarrow> all_pieces F n S idx"
  proof -
    have "(\<forall>i < length ?P. gget m (word_of_nat i) \<noteq> None) \<longleftrightarrow> (\<forall>i < length ?P. (idx, word_of_nat i) \<in> S)"
      by (rule all_cong) (simp add: at)
    then show ?thesis using full(1) all by simp
  qed
  show "length m \<le> length ?P" by (rule full(2))
  assume "all_pieces F n S idx"
  then have "map (\<lambda>i. elem_or_nil m (word_of_nat i)) [0..<length ?P] = map (\<lambda>i. ?P ! i) [0..<length ?P]"
    using at all by (intro map_cong) (simp_all add: elem_or_nil_def)
  then show "concat (map (\<lambda>i. elem_or_nil m (word_of_nat i)) [0..<length ?P]) = p"
    by (simp add: map_nth)
qed

lemma pieces_inv_step:
  assumes inv: "pieces_inv F n S b" and g: "genuine_piece F n pkt" and few: "few_pieces F n"
  shows "pieces_inv F n (insert (pChunkNumber pkt, pSubIndex pkt) S) (absorb_piece pkt b)"
proof -
  let ?i = "pChunkNumber pkt" and ?k = "pSubIndex pkt"
  let ?S = "insert (?i, ?k) S"
  obtain p where F: "F ?i = Some p" and k: "unat ?k < length (piece_payloads n p)"
    and tot: "pSubTotal pkt = u32_len (piece_payloads n p)" and pay: "pPayload pkt = piece_payloads n p ! unat ?k"
    using g by (auto simp: genuine_piece_def split: option.splits)
  let ?P = "piece_payloads n p" and ?parts = "elem_or_nil (bSubParts b) ?i"
  have N: "length ?P < 2 ^ 32" using few F by (auto simp: few_pieces_def)
  have u: "unat (u32_len ?P) = length ?P" using N by (rule unat_u32_len)
  note other = all_pieces_other [of _ ?i F n ?k S] held_parts_other [of _ ?i F n ?k S]
  have mono: "all_pieces F n S ?i \<Longrightarrow> all_pieces F n ?S ?i" by (rule all_pieces_mono) auto
  show ?thesis
  proof (cases "all_pieces F n S ?i")
    case True
    then have "absorb_piece pkt b = b"
      using inv by (simp add: absorb_piece_def absorbSubChunk_def is_set_def pieces_inv_def Let_def)
    moreover have "all_pieces F n ?S = all_pieces F n S" using other(1) True mono by (intro ext) metis
    ultimately show ?thesis using inv other(2) True unfolding pieces_inv_def by (metis (no_types, lifting))
  next
    case False
    then have un: "\<not> is_set (bReceived b) ?i" and held: "held_parts F n S ?i ?parts"
      and none: "gget (bReceived b) ?i = None" "gget (bChunks b) ?i = None"
      using inv by (simp_all add: pieces_inv_def is_set_def)
    define parts where "parts = (case gget ?parts ?k of Some _ \<Rightarrow> ?parts | None \<Rightarrow> gput ?k (pPayload pkt) ?parts)"
    have held': "held_parts F n ?S ?i parts" unfolding parts_def pay by (rule held_insert [OF held F k])
    note full = held_full [OF few held' F]
    have fin: "pieces_inv F n ?S (b\<lparr>bSubParts := sp, bChunks := gput ?i p (bChunks b), bReceived := gput ?i True (bReceived b)\<rparr>)"
      if "all_pieces F n ?S ?i" "\<And>j. j \<noteq> ?i \<Longrightarrow> elem_or_nil sp j = elem_or_nil (bSubParts b) j" for sp
      using inv that F other unfolding pieces_inv_def by simp
    show ?thesis
    proof (cases "length ?P = 1")
      case True
      then obtain x where x: "?P = [x]" by (auto simp: length_Suc_conv)
      have "x = p" using concat_piece_payloads [of n p] unfolding x by simp
      moreover have "?k = 0" using k x by (simp add: word_unat_eq_iff)
      ultimately have "all_pieces F n ?S ?i" "pPayload pkt = p" using F pay x by (simp_all add: all_pieces_def)
      moreover have "pSubTotal pkt \<le> 1" using tot True by (simp add: u32_len_def)
      ultimately show ?thesis
        using fin [of "bSubParts b"] un by (simp add: absorb_piece_def absorbSubChunk_def Let_def)
    next
      case False
      then have "1 < length ?P" using piece_payloads_ne [of n p] by (cases ?P) auto
      then have t: "\<not> pSubTotal pkt \<le> 1" "\<not> pSubIndex pkt \<ge> pSubTotal pkt"
        using u k unfolding tot by (simp_all add: word_le_nat_alt)
      have cnt: "u32_len parts < pSubTotal pkt \<longleftrightarrow> length parts < length ?P"
        using full(2) N unfolding tot by (simp add: word_less_nat_alt u unat_u32_len)
      have ab: "absorbSubChunk (bReceived b) (bSubParts b) pkt =
         (if length parts < length ?P then (gput ?i parts (bSubParts b), None)
          else (gdel ?i (gput ?i parts (bSubParts b)),
                Some (?i, concat (map (\<lambda>i. elem_or_nil parts (word_of_nat i)) [0..<length ?P]))))"
        using un t u unfolding cnt [symmetric] by (simp add: absorbSubChunk_def Let_def parts_def [symmetric] tot)
      show ?thesis
      proof (cases "all_pieces F n ?S ?i")
        case True
        then show ?thesis
          using full fin [of "gdel ?i (gput ?i parts (bSubParts b))"] by (simp add: absorb_piece_def ab)
      next
        case no: False
        then have "length parts < length ?P" using full(1,2) by simp
        then have "absorb_piece pkt b = b\<lparr>bSubParts := gput ?i parts (bSubParts b)\<rparr>" by (simp add: absorb_piece_def ab)
        then show ?thesis
          using inv other held' no none unfolding pieces_inv_def by auto
      qed
    qed
  qed
qed

lemma pieces_inv_steps:
  assumes "few_pieces F n" and "\<And>pkt. pkt \<in> set ps \<Longrightarrow> genuine_piece F n pkt" and "pieces_inv F n S b"
  shows "pieces_inv F n ((\<lambda>pkt. (pChunkNumber pkt, pSubIndex pkt)) ` set ps \<union> S) (fold absorb_piece ps b)"
  using assms(2,3)
proof (induction ps arbitrary: b S)
  case (Cons pkt ps)
  from Cons.IH [OF _ pieces_inv_step [OF Cons.prems(2) Cons.prems(1) assms(1)]] Cons.prems(1)
  show ?case by simp
qed simp

end
