(* ===== verification/Encryption.thy ===== *)
theory Encryption
  imports Packet Fragment
begin

text \<open>
  Package \<^verbatim>\<open>internal/encryption\<close>: the three content sealers (shared AES-256-GCM key, X25519 hybrid,
  X25519 with ML-KEM-768) and the source-routed onion (\<^verbatim>\<open>encryption.go\<close>).

  The primitives of the Go cryptographic library are the fields of the record \<open>crypto\<close>, and
  \<open>crypto_law\<close> is what their documentation promises: a Diffie-Hellman exchange gives both sides
  the same secret, decapsulation inverts encapsulation, opening inverts sealing, and the lengths
  are fixed. A random source is the sequence of bytes it returns; a read past its end is the
  error branch of \<^verbatim>\<open>rand.Read\<close>. A nil key pointer is \<open>None\<close>.

  The locale \<open>sealing\<close> is the contract between a sealer and the fragmenter of the theory
  Fragment: what one side seals, the other side opens. It is interpreted for each of the sealers.
\<close>

section \<open>Primitives\<close>

record crypto =
  cX25519Pub :: "bytes \<Rightarrow> bytes" \<comment> \<open>\<^verbatim>\<open>PrivateKey.PublicKey().Bytes()\<close>\<close>
  cNewPublicKey :: "bytes \<Rightarrow> bool" \<comment> \<open>\<^verbatim>\<open>ecdh.X25519().NewPublicKey\<close> accepts\<close>
  cECDH :: "bytes \<Rightarrow> bytes \<Rightarrow> bytes option" \<comment> \<open>private key, public key\<close>
  cHKDF :: "bytes \<Rightarrow> bytes \<Rightarrow> string \<Rightarrow> nat \<Rightarrow> bytes option" \<comment> \<open>secret, salt, info, length\<close>
  cGcmSeal :: "bytes \<Rightarrow> bytes \<Rightarrow> bytes \<Rightarrow> bytes \<Rightarrow> bytes" \<comment> \<open>key, nonce, plaintext, associated data\<close>
  cGcmOpen :: "bytes \<Rightarrow> bytes \<Rightarrow> bytes \<Rightarrow> bytes \<Rightarrow> bytes option" \<comment> \<open>key, nonce, ciphertext, associated data\<close>
  cKemPub :: "bytes \<Rightarrow> bytes" \<comment> \<open>\<^verbatim>\<open>DecapsulationKey768.EncapsulationKey()\<close>\<close>
  cEncapsulate :: "bytes \<Rightarrow> bytes \<Rightarrow> bytes \<times> bytes" \<comment> \<open>key, random bytes; secret, ciphertext\<close>
  cDecapsulate :: "bytes \<Rightarrow> bytes \<Rightarrow> bytes option"

definition gcmNonceSize :: nat where "gcmNonceSize = 12"
definition mlkem768CiphertextSize :: nat where "mlkem768CiphertextSize = 1088"

definition crypto_law :: "crypto \<Rightarrow> bool" where
  "crypto_law c \<longleftrightarrow>
     (\<forall>a b. cECDH c a (cX25519Pub c b) = cECDH c b (cX25519Pub c a) \<and> cECDH c a (cX25519Pub c b) \<noteq> None) \<and>
     (\<forall>a. length (cX25519Pub c a) = 32 \<and> cNewPublicKey c (cX25519Pub c a)) \<and>
     (\<forall>s salt info. \<exists>k. cHKDF c s salt info 32 = Some k \<and> length k = 32) \<and>
     (\<forall>k n p ad. cGcmOpen c k n (cGcmSeal c k n p ad) ad = Some p \<and> length (cGcmSeal c k n p ad) = length p + 16) \<and>
     (\<forall>d r s ct. cEncapsulate c (cKemPub c d) r = (s, ct) \<longrightarrow>
        cDecapsulate c d ct = Some s \<and> length ct = mlkem768CiphertextSize)"

datatype enc_error = ErrKeySize | ErrCiphertextShort | ErrRand | ErrECDH | ErrHKDF | ErrPublicKey
  | ErrAuthentication | ErrNoRecipientKey | ErrNoPrivateKey | ErrDecapsulate | ErrBothKeys
  | ErrTruncatedLayer | ErrEmptyPath | ErrNilHopKey

definition rand_read :: "nat \<Rightarrow> bytes \<Rightarrow> enc_error + bytes \<times> bytes" where
  "rand_read n rnd = (if length rnd < n then Inl ErrRand else Inr (take n rnd, drop n rnd))"

section \<open>The shared-key sealer\<close>

record aeadSealer =
  asKey :: bytes

definition NewAEADSealer :: "bytes \<Rightarrow> enc_error + aeadSealer" where
  "NewAEADSealer key = (if length key \<noteq> 32 then Inl ErrKeySize else Inr \<lparr>asKey = key\<rparr>)"

definition aead_Seal :: "crypto \<Rightarrow> aeadSealer \<Rightarrow> bytes \<Rightarrow> bytes \<Rightarrow> bytes \<Rightarrow> enc_error + bytes" where
  "aead_Seal c s rnd plaintext ad =
     (case rand_read gcmNonceSize rnd of
        Inl e \<Rightarrow> Inl e
      | Inr (nonce, _) \<Rightarrow> Inr (nonce @ cGcmSeal c (asKey s) nonce plaintext ad))"

definition aead_Open :: "crypto \<Rightarrow> aeadSealer \<Rightarrow> bytes \<Rightarrow> bytes \<Rightarrow> enc_error + bytes" where
  "aead_Open c s ciphertext ad =
     (let ns = gcmNonceSize in
      if length ciphertext < ns then Inl ErrCiphertextShort
      else case cGcmOpen c (asKey s) (take ns ciphertext) (drop ns ciphertext) ad of
             None \<Rightarrow> Inl ErrAuthentication
           | Some p \<Rightarrow> Inr p)"

section \<open>X25519 hybrid sealing\<close>

definition hkdfInfo :: string where "hkdfInfo = ''syncswarm/hybrid/aes-256-gcm/v1''"

definition deriveKey :: "crypto \<Rightarrow> bytes \<Rightarrow> enc_error + bytes" where
  "deriveKey c sharedSecret =
     (case cHKDF c sharedSecret [] hkdfInfo 32 of
        None \<Rightarrow> Inl ErrHKDF
      | Some out \<Rightarrow> Inr (copy_into (replicate 32 0) out))"

definition SealHybrid :: "crypto \<Rightarrow> bytes \<Rightarrow> bytes \<Rightarrow> bytes \<Rightarrow> bytes \<Rightarrow> enc_error + bytes" where
  "SealHybrid c recipientPub rnd plaintext ad =
     (case rand_read 32 rnd of
        Inl e \<Rightarrow> Inl e
      | Inr (ephPriv, rnd) \<Rightarrow>
          (case cECDH c ephPriv recipientPub of
             None \<Rightarrow> Inl ErrECDH
           | Some sharedSecret \<Rightarrow>
               (case deriveKey c sharedSecret of
                  Inl e \<Rightarrow> Inl e
                | Inr key \<Rightarrow>
                    (case NewAEADSealer key of
                       Inl e \<Rightarrow> Inl e
                     | Inr s \<Rightarrow>
                         (case aead_Seal c s rnd plaintext ad of
                            Inl e \<Rightarrow> Inl e
                          | Inr sealed \<Rightarrow> Inr (cX25519Pub c ephPriv @ sealed))))))"

definition OpenHybrid :: "crypto \<Rightarrow> bytes \<Rightarrow> bytes \<Rightarrow> bytes \<Rightarrow> enc_error + bytes" where
  "OpenHybrid c recipientPriv ciphertext ad =
     (let pubSize = length (cX25519Pub c recipientPriv) in
      if length ciphertext < pubSize then Inl ErrCiphertextShort
      else let ephPub = take pubSize ciphertext; sealed = drop pubSize ciphertext in
        if \<not> cNewPublicKey c ephPub then Inl ErrPublicKey
        else case cECDH c recipientPriv ephPub of
               None \<Rightarrow> Inl ErrECDH
             | Some sharedSecret \<Rightarrow>
                 (case deriveKey c sharedSecret of
                    Inl e \<Rightarrow> Inl e
                  | Inr key \<Rightarrow>
                      (case NewAEADSealer key of
                         Inl e \<Rightarrow> Inl e
                       | Inr s \<Rightarrow> aead_Open c s sealed ad)))"

record hybridSealer =
  hsRecipientPub :: "bytes option"
  hsMyPriv :: "bytes option"

definition NewHybridSealer :: "bytes option \<Rightarrow> bytes option \<Rightarrow> hybridSealer" where
  "NewHybridSealer recipientPub myPriv = \<lparr>hsRecipientPub = recipientPub, hsMyPriv = myPriv\<rparr>"

definition hybrid_Seal :: "crypto \<Rightarrow> hybridSealer \<Rightarrow> bytes \<Rightarrow> bytes \<Rightarrow> bytes \<Rightarrow> enc_error + bytes" where
  "hybrid_Seal c h rnd plaintext ad =
     (case hsRecipientPub h of
        None \<Rightarrow> Inl ErrNoRecipientKey
      | Some pub \<Rightarrow> SealHybrid c pub rnd plaintext ad)"

definition hybrid_Open :: "crypto \<Rightarrow> hybridSealer \<Rightarrow> bytes \<Rightarrow> bytes \<Rightarrow> enc_error + bytes" where
  "hybrid_Open c h ciphertext ad =
     (case hsMyPriv h of
        None \<Rightarrow> Inl ErrNoPrivateKey
      | Some priv \<Rightarrow> OpenHybrid c priv ciphertext ad)"

section \<open>X25519 with ML-KEM-768\<close>

definition pqHybridInfo :: string where
  "pqHybridInfo = ''syncswarm/hybrid-pq/x25519+mlkem768/aes-256-gcm/v1''"

definition pqHybridKey :: "crypto \<Rightarrow> bytes \<Rightarrow> bytes \<Rightarrow> bytes \<Rightarrow> bytes \<Rightarrow> enc_error + bytes" where
  "pqHybridKey c secretX secretPQ ephXPub ctPQ =
     (let combined = ((secretX @ secretPQ) @ ephXPub) @ ctPQ in
      case cHKDF c combined [] pqHybridInfo 32 of None \<Rightarrow> Inl ErrHKDF | Some k \<Rightarrow> Inr k)"

definition SealHybridPQ ::
  "crypto \<Rightarrow> bytes option \<Rightarrow> bytes option \<Rightarrow> bytes \<Rightarrow> bytes \<Rightarrow> bytes \<Rightarrow> enc_error + bytes" where
  "SealHybridPQ c x25519Pub mlkemPub rnd plaintext ad =
     (case (x25519Pub, mlkemPub) of
        (Some xPub, Some kPub) \<Rightarrow>
          (case rand_read 32 rnd of
             Inl e \<Rightarrow> Inl e
           | Inr (ephPriv, rnd) \<Rightarrow>
               (case cECDH c ephPriv xPub of
                  None \<Rightarrow> Inl ErrECDH
                | Some secretX \<Rightarrow>
                    let (secretPQ, ctPQ) = cEncapsulate c kPub (take 32 rnd);
                        ephPubBytes = cX25519Pub c ephPriv
                    in case pqHybridKey c secretX secretPQ ephPubBytes ctPQ of
                         Inl e \<Rightarrow> Inl e
                       | Inr key \<Rightarrow>
                           (case NewAEADSealer key of
                              Inl e \<Rightarrow> Inl e
                            | Inr s \<Rightarrow>
                                (case aead_Seal c s (drop 32 rnd) plaintext ad of
                                   Inl e \<Rightarrow> Inl e
                                 | Inr sealed \<Rightarrow> Inr ((ephPubBytes @ ctPQ) @ sealed)))))
      | _ \<Rightarrow> Inl ErrBothKeys)"

definition OpenHybridPQ ::
  "crypto \<Rightarrow> bytes option \<Rightarrow> bytes option \<Rightarrow> bytes \<Rightarrow> bytes \<Rightarrow> enc_error + bytes" where
  "OpenHybridPQ c x25519Priv mlkemDecap ciphertext ad =
     (case (x25519Priv, mlkemDecap) of
        (Some xPriv, Some decap) \<Rightarrow>
          (let xPubLen = 32 in
           if length ciphertext < xPubLen + mlkem768CiphertextSize then Inl ErrCiphertextShort
           else let ephPubBytes = take xPubLen ciphertext;
                    ctPQ = take mlkem768CiphertextSize (drop xPubLen ciphertext);
                    sealed = drop (xPubLen + mlkem768CiphertextSize) ciphertext
                in if \<not> cNewPublicKey c ephPubBytes then Inl ErrPublicKey
                   else case cECDH c xPriv ephPubBytes of
                          None \<Rightarrow> Inl ErrECDH
                        | Some secretX \<Rightarrow>
                            (case cDecapsulate c decap ctPQ of
                               None \<Rightarrow> Inl ErrDecapsulate
                             | Some secretPQ \<Rightarrow>
                                 (case pqHybridKey c secretX secretPQ ephPubBytes ctPQ of
                                    Inl e \<Rightarrow> Inl e
                                  | Inr key \<Rightarrow>
                                      (case NewAEADSealer key of
                                         Inl e \<Rightarrow> Inl e
                                       | Inr s \<Rightarrow> aead_Open c s sealed ad))))
      | _ \<Rightarrow> Inl ErrBothKeys)"

record pqHybridSealer =
  pqX25519Pub :: "bytes option"
  pqMlkemPub :: "bytes option"
  pqX25519Priv :: "bytes option"
  pqMlkemDecap :: "bytes option"

definition NewPQHybridSealer ::
  "bytes option \<Rightarrow> bytes option \<Rightarrow> bytes option \<Rightarrow> bytes option \<Rightarrow> pqHybridSealer" where
  "NewPQHybridSealer xPub kPub xPriv decap =
     \<lparr>pqX25519Pub = xPub, pqMlkemPub = kPub, pqX25519Priv = xPriv, pqMlkemDecap = decap\<rparr>"

definition pq_Seal :: "crypto \<Rightarrow> pqHybridSealer \<Rightarrow> bytes \<Rightarrow> bytes \<Rightarrow> bytes \<Rightarrow> enc_error + bytes" where
  "pq_Seal c h rnd plaintext ad = SealHybridPQ c (pqX25519Pub h) (pqMlkemPub h) rnd plaintext ad"

definition pq_Open :: "crypto \<Rightarrow> pqHybridSealer \<Rightarrow> bytes \<Rightarrow> bytes \<Rightarrow> enc_error + bytes" where
  "pq_Open c h ciphertext ad = OpenHybridPQ c (pqX25519Priv h) (pqMlkemDecap h) ciphertext ad"

section \<open>The X25519 key encapsulation\<close>

definition kem_Encapsulate :: "crypto \<Rightarrow> bytes \<Rightarrow> bytes \<Rightarrow> enc_error + bytes \<times> bytes" where
  "kem_Encapsulate c rnd peerPub =
     (if \<not> cNewPublicKey c peerPub then Inl ErrPublicKey
      else case rand_read 32 rnd of
             Inl e \<Rightarrow> Inl e
           | Inr (ephPriv, _) \<Rightarrow>
               (case cECDH c ephPriv peerPub of
                  None \<Rightarrow> Inl ErrECDH
                | Some ss \<Rightarrow> Inr (cX25519Pub c ephPriv, ss)))"

definition kem_Decapsulate :: "crypto \<Rightarrow> bytes option \<Rightarrow> bytes \<Rightarrow> enc_error + bytes" where
  "kem_Decapsulate c priv ciphertext =
     (case priv of
        None \<Rightarrow> Inl ErrNoPrivateKey
      | Some p \<Rightarrow>
          if \<not> cNewPublicKey c ciphertext then Inl ErrPublicKey
          else case cECDH c p ciphertext of None \<Rightarrow> Inl ErrECDH | Some ss \<Rightarrow> Inr ss)"

section \<open>The Sealer interface\<close>

definition ok_value :: "'e + 'a \<Rightarrow> 'a option" where
  "ok_value r = (case r of Inl _ \<Rightarrow> None | Inr v \<Rightarrow> Some v)"

definition aead_sealer :: "crypto \<Rightarrow> aeadSealer \<Rightarrow> sealer" where
  "aead_sealer c s = \<lparr>sSeal = (\<lambda>rnd p ad. ok_value (aead_Seal c s rnd p ad)),
                      sOpen = (\<lambda>ct ad. ok_value (aead_Open c s ct ad))\<rparr>"

definition hybrid_sealer :: "crypto \<Rightarrow> hybridSealer \<Rightarrow> sealer" where
  "hybrid_sealer c h = \<lparr>sSeal = (\<lambda>rnd p ad. ok_value (hybrid_Seal c h rnd p ad)),
                        sOpen = (\<lambda>ct ad. ok_value (hybrid_Open c h ct ad))\<rparr>"

definition pq_sealer :: "crypto \<Rightarrow> pqHybridSealer \<Rightarrow> sealer" where
  "pq_sealer c h = \<lparr>sSeal = (\<lambda>rnd p ad. ok_value (pq_Seal c h rnd p ad)),
                    sOpen = (\<lambda>ct ad. ok_value (pq_Open c h ct ad))\<rparr>"

section \<open>Onion layers\<close>

record onionHop =
  ohNodeID :: string
  ohAddr :: string
  ohPubKey :: "bytes option"

record onionPeel =
  opIsFinal :: bool
  opNextAddr :: string
  opNextNode :: string
  opInner :: bytes

record onionLayer =
  olIsFinal :: bool
  olNextAddr :: string
  olNextNode :: string
  olInner :: bytes

definition appendLenField :: "bytes \<Rightarrow> bytes \<Rightarrow> bytes" where
  "appendLenField b v = (b @ put_u32 (u32_len v)) @ v"

definition layer_marshal :: "onionLayer \<Rightarrow> bytes" where
  "layer_marshal l =
     (let buf = [];
          buf = (if olIsFinal l then buf @ [1] else buf @ [0]);
          buf = appendLenField buf (str_bytes (olNextAddr l));
          buf = appendLenField buf (str_bytes (olNextNode l));
          buf = appendLenField buf (olInner l)
      in buf)"

text \<open>The loop over the three fields; an \<^verbatim>\<open>int\<close> has 64 bits, so the length is never negative.\<close>

fun layer_fields :: "nat \<Rightarrow> bytes \<Rightarrow> enc_error + bytes list" where
  "layer_fields 0 rest = Inr []"
| "layer_fields (Suc i) rest =
     (if length rest < 4 then Inl ErrTruncatedLayer
      else let n = unat (get_u32 (take 4 rest)); rest = drop 4 rest in
        if length rest < n then Inl ErrTruncatedLayer
        else case layer_fields i (drop n rest) of
               Inl e \<Rightarrow> Inl e
             | Inr fs \<Rightarrow> Inr (take n rest # fs))"

definition unmarshalLayer :: "bytes \<Rightarrow> enc_error + onionLayer" where
  "unmarshalLayer data =
     (if length data < 1 then Inl ErrTruncatedLayer
      else case layer_fields 3 (drop 1 data) of
             Inl e \<Rightarrow> Inl e
           | Inr fs \<Rightarrow> Inr \<lparr>olIsFinal = (data ! 0 = 1), olNextAddr = bytes_str (fs ! 0),
                               olNextNode = bytes_str (fs ! 1), olInner = fs ! 2\<rparr>)"

text \<open>
  \<^verbatim>\<open>BuildOnion\<close>; \<open>rnd i\<close> is what sealing the layer of hop \<open>i\<close> draws. The loop counts down
  from the last hop, so its counter is the number of layers still to add.
\<close>

fun onion_wrap :: "crypto \<Rightarrow> (nat \<Rightarrow> bytes) \<Rightarrow> onionHop list \<Rightarrow> nat \<Rightarrow> bytes \<Rightarrow> enc_error + bytes" where
  "onion_wrap c rnd hops 0 blob = Inr blob"
| "onion_wrap c rnd hops (Suc i) blob =
     (let layer = \<lparr>olIsFinal = False, olNextAddr = ohAddr (hops ! (i + 1)),
                   olNextNode = ohNodeID (hops ! (i + 1)), olInner = blob\<rparr>
      in case SealHybrid c (the (ohPubKey (hops ! i))) (rnd i) (layer_marshal layer) [] of
           Inl e \<Rightarrow> Inl e
         | Inr blob \<Rightarrow> onion_wrap c rnd hops i blob)"

definition BuildOnion :: "crypto \<Rightarrow> (nat \<Rightarrow> bytes) \<Rightarrow> onionHop list \<Rightarrow> bytes \<Rightarrow> enc_error + bytes" where
  "BuildOnion c rnd hops finalPayload =
     (if length hops = 0 then Inl ErrEmptyPath
      else if list_ex (\<lambda>h. ohPubKey h = None) hops then Inl ErrNilHopKey
      else let lst = length hops - 1 in
        case SealHybrid c (the (ohPubKey (hops ! lst))) (rnd lst)
               (layer_marshal \<lparr>olIsFinal = True, olNextAddr = [], olNextNode = [], olInner = finalPayload\<rparr>) [] of
          Inl e \<Rightarrow> Inl e
        | Inr blob \<Rightarrow> onion_wrap c rnd hops lst blob)"

definition PeelOnion :: "crypto \<Rightarrow> bytes \<Rightarrow> bytes \<Rightarrow> enc_error + onionPeel" where
  "PeelOnion c myPriv blob =
     (case OpenHybrid c myPriv blob [] of
        Inl e \<Rightarrow> Inl e
      | Inr layerBytes \<Rightarrow>
          (case unmarshalLayer layerBytes of
             Inl e \<Rightarrow> Inl e
           | Inr layer \<Rightarrow> Inr \<lparr>opIsFinal = olIsFinal layer, opNextAddr = olNextAddr layer,
                             opNextNode = olNextNode layer, opInner = olInner layer\<rparr>))"

section \<open>Opening inverts sealing\<close>

lemma crypto_lawD:
  assumes "crypto_law c"
  shows "cECDH c a (cX25519Pub c b) = cECDH c b (cX25519Pub c a)" "cECDH c a (cX25519Pub c b) \<noteq> None"
    "length (cX25519Pub c a) = 32" "cNewPublicKey c (cX25519Pub c a)"
    "\<exists>k. cHKDF c s salt info 32 = Some k \<and> length k = 32"
    "cGcmOpen c k n (cGcmSeal c k n p ad) ad = Some p" "length (cGcmSeal c k n p ad) = length p + 16"
    "cEncapsulate c (cKemPub c d) r = (sec, ct) \<Longrightarrow> cDecapsulate c d ct = Some sec"
    "cEncapsulate c (cKemPub c d) r = (sec, ct) \<Longrightarrow> length ct = mlkem768CiphertextSize"
  using assms unfolding crypto_law_def by blast+

lemma rand_read_Inr: "rand_read n rnd = Inr (x, y) \<longleftrightarrow> n \<le> length rnd \<and> x = take n rnd \<and> y = drop n rnd"
  by (auto simp: rand_read_def)

lemma aead_Seal_Inr:
  "aead_Seal c s rnd p ad = Inr ct \<longleftrightarrow> gcmNonceSize \<le> length rnd \<and>
     ct = take gcmNonceSize rnd @ cGcmSeal c (asKey s) (take gcmNonceSize rnd) p ad"
  by (auto simp: aead_Seal_def rand_read_def)

lemma aead_law:
  assumes "crypto_law c" and "aead_Seal c s rnd p ad = Inr ct"
  shows "aead_Open c s ct ad = Inr p" and "length ct = length p + 28"
  using assms(2) crypto_lawD(6,7) [OF assms(1)]
  by (auto simp: aead_Seal_Inr aead_Open_def Let_def gcmNonceSize_def)

lemma SealHybridE:
  assumes "SealHybrid c pub rnd p ad = Inr ct"
  obtains sec key s sealed where "32 \<le> length rnd" "cECDH c (take 32 rnd) pub = Some sec"
    "deriveKey c sec = Inr key" "NewAEADSealer key = Inr s" "aead_Seal c s (drop 32 rnd) p ad = Inr sealed"
    "ct = cX25519Pub c (take 32 rnd) @ sealed"
  using assms by (auto simp: SealHybrid_def rand_read_def split: sum.splits option.splits if_splits)

lemma hybrid_law:
  assumes law: "crypto_law c" and "SealHybrid c (cX25519Pub c priv) rnd p ad = Inr ct"
  shows "OpenHybrid c priv ct ad = Inr p" and "length ct = length p + 60"
proof -
  obtain sec key s sealed where s: "cECDH c (take 32 rnd) (cX25519Pub c priv) = Some sec"
    "deriveKey c sec = Inr key" "NewAEADSealer key = Inr s" "aead_Seal c s (drop 32 rnd) p ad = Inr sealed"
    "ct = cX25519Pub c (take 32 rnd) @ sealed"
    using assms(2) by (rule SealHybridE)
  have "cECDH c priv (cX25519Pub c (take 32 rnd)) = Some sec"
    using s(1) crypto_lawD(1) [OF law, of priv "take 32 rnd"] by simp
  then show "OpenHybrid c priv ct ad = Inr p"
    using s(2,3,5) aead_law(1) [OF law s(4)] crypto_lawD(3,4) [OF law] by (simp add: OpenHybrid_def Let_def)
  show "length ct = length p + 60" using s(5) aead_law(2) [OF law s(4)] crypto_lawD(3) [OF law] by simp
qed

lemma SealHybrid_total:
  assumes law: "crypto_law c" and "44 \<le> length rnd"
  shows "\<exists>ct. SealHybrid c (cX25519Pub c priv) rnd p ad = Inr ct"
proof -
  obtain sec where s: "cECDH c (take 32 rnd) (cX25519Pub c priv) = Some sec"
    using crypto_lawD(2) [OF law, of "take 32 rnd" priv] by blast
  obtain k where "cHKDF c sec [] hkdfInfo 32 = Some k" "length k = 32"
    using crypto_lawD(5) [OF law, of sec "[]" hkdfInfo] by blast
  then have "deriveKey c sec = Inr k" "NewAEADSealer k = Inr \<lparr>asKey = k\<rparr>"
    by (simp_all add: deriveKey_def copy_into_full NewAEADSealer_def)
  then show ?thesis using s assms(2) by (simp add: SealHybrid_def rand_read_def aead_Seal_def gcmNonceSize_def)
qed

lemma pq_law:
  assumes law: "crypto_law c"
    and "SealHybridPQ c (Some (cX25519Pub c priv)) (Some (cKemPub c decap)) rnd p ad = Inr ct"
  shows "OpenHybridPQ c (Some priv) (Some decap) ct ad = Inr p"
proof -
  obtain sec secPQ ctPQ key s sealed where s: "cECDH c (take 32 rnd) (cX25519Pub c priv) = Some sec"
    "cEncapsulate c (cKemPub c decap) (take 32 (drop 32 rnd)) = (secPQ, ctPQ)"
    "pqHybridKey c sec secPQ (cX25519Pub c (take 32 rnd)) ctPQ = Inr key"
    "NewAEADSealer key = Inr s" "aead_Seal c s (drop 32 (drop 32 rnd)) p ad = Inr sealed"
    "ct = (cX25519Pub c (take 32 rnd) @ ctPQ) @ sealed"
    using assms(2) by (auto simp: SealHybridPQ_def Let_def rand_read_def split: sum.splits option.splits if_splits prod.splits)
  have "cECDH c priv (cX25519Pub c (take 32 rnd)) = Some sec"
    using s(1) crypto_lawD(1) [OF law, of priv "take 32 rnd"] by simp
  then show ?thesis
    using s(3,4,6) aead_law(1) [OF law s(5)] crypto_lawD(3,4) [OF law] crypto_lawD(8,9) [OF law s(2)]
    by (simp add: OpenHybridPQ_def Let_def)
qed

lemma kem_law:
  assumes "crypto_law c" and "kem_Encapsulate c rnd (cX25519Pub c priv) = Inr (ct, ss)"
  shows "kem_Decapsulate c (Some priv) ct = Inr ss"
  using assms(2) crypto_lawD(1) [OF assms(1), of priv] crypto_lawD(4) [OF assms(1)]
  by (auto simp: kem_Encapsulate_def kem_Decapsulate_def rand_read_def split: option.splits if_splits)

section \<open>The contract of a sealer\<close>

locale sealing =
  fixes keys_ok :: "'k \<Rightarrow> bool"
    and sender :: "'k \<Rightarrow> sealer"
    and receiver :: "'k \<Rightarrow> sealer"
  assumes opens: "keys_ok k \<Longrightarrow> sSeal (sender k) rnd p ad = Some ct \<Longrightarrow> sOpen (receiver k) ct ad = Some p"
begin

definition both :: "'k \<Rightarrow> sealer" where
  "both k = \<lparr>sSeal = sSeal (sender k), sOpen = sOpen (receiver k)\<rparr>"

lemma both_law: "keys_ok k \<Longrightarrow> sealer_law (both k)"
  using opens by (auto simp: sealer_law_def both_def)

end

lemma seal_loop_sealer: "sSeal s = sSeal s' \<Longrightarrow> seal_loop s rnd tid n i chunks = seal_loop s' rnd tid n i chunks"
  by (induction chunks arbitrary: i) (simp_all add: Let_def split: option.split)

lemma Add_sealer: "fst (Add (r\<lparr>rsSealer := s\<rparr>) fr) = (fst (Add r fr))\<lparr>rsSealer := s\<rparr>"
  by (simp add: Add_def split: option.split)

lemma add_all_set_sealer: "ra.add_all (r\<lparr>rsSealer := s\<rparr>) frs = (ra.add_all r frs)\<lparr>rsSealer := s\<rparr>"
  unfolding ra.add_all_def by (induction frs arbitrary: r) (simp_all add: Add_sealer)

lemma Assemble_sealer:
  assumes "sOpen s = sOpen (rsSealer r)"
  shows "Assemble (r\<lparr>rsSealer := s\<rparr>) tid = Assemble r tid"
proof -
  have "Assemble_open (r\<lparr>rsSealer := s\<rparr>) tid i = Assemble_open r tid i" for i
    using assms by (simp add: Assemble_open_def)
  then have "Assemble_loop (r\<lparr>rsSealer := s\<rparr>) tid is = Assemble_loop r tid is" for "is"
    by (induction "is") (simp_all split: option.split)
  then show ?thesis by (simp add: Assemble_def Complete_def)
qed

context sealing
begin

text \<open>The sender's fragments, in any order and with repetitions, reassemble at the receiver.\<close>

lemma transfer_opens:
  assumes "keys_ok k" and "0 < n" and "Fragmenter_Fragment \<lparr>fmSealer = sender k, fmChunkSize = n\<rparr> rnd tid data = Inr frags"
    and "length (Split data n) < 2 ^ 32" and "set frs = set frags"
  shows "Assemble (fold (\<lambda>fr r. fst (Add r fr)) frs (NewReassembler (receiver k) (u32_len (Split data n)))) tid = Inr data"
proof -
  have "seal_loop (both k) rnd tid (u32_len (Split data n)) 0 (Split data n) = Inr frags"
    using assms(3) seal_loop_sealer [of "both k" "sender k"] by (simp add: Fragmenter_Fragment_def Let_def both_def)
  from reassemble_any_order [OF both_law [OF assms(1)] this assms(4,5)]
  have *: "Assemble (ra.add_all (NewReassembler (both k) (u32_len (Split data n))) frs) tid = Inr data"
    using Join_Split assms(2) by (simp add: Join_concat)
  have "NewReassembler (receiver k) m = (NewReassembler (both k) m)\<lparr>rsSealer := receiver k\<rparr>" for m
    by (simp add: NewReassembler_def)
  then have "ra.add_all (NewReassembler (receiver k) m) frs =
      (ra.add_all (NewReassembler (both k) m) frs)\<lparr>rsSealer := receiver k\<rparr>" for m
    by (simp only: add_all_set_sealer)
  then show ?thesis using * Assemble_sealer [of "receiver k" "ra.add_all (NewReassembler (both k) (u32_len (Split data n))) frs"]
    by (simp add: ra.add_all_def [symmetric] NewReassembler_def both_def)
qed

end

text \<open>Shared key, recipient key, and recipient key with ML-KEM.\<close>

interpretation shared_key: sealing "\<lambda>(c, s). crypto_law c" "\<lambda>(c, s). aead_sealer c s" "\<lambda>(c, s). aead_sealer c s"
proof unfold_locales
  fix k :: "crypto \<times> aeadSealer" and rnd p ad ct
  assume a: "case k of (c, s) \<Rightarrow> crypto_law c" "sSeal (case k of (c, s) \<Rightarrow> aead_sealer c s) rnd p ad = Some ct"
  obtain c s where k: "k = (c, s)" by force
  have "aead_Seal c s rnd p ad = Inr ct" using a(2) k by (simp add: aead_sealer_def ok_value_def split: sum.splits)
  then show "sOpen (case k of (c, s) \<Rightarrow> aead_sealer c s) ct ad = Some p"
    using aead_law(1) [of c s rnd p ad ct] a(1) k by (simp add: aead_sealer_def ok_value_def)
qed

interpretation recipient_key: sealing "\<lambda>(c, priv). crypto_law c"
  "\<lambda>(c, priv). hybrid_sealer c (NewHybridSealer (Some (cX25519Pub c priv)) None)"
  "\<lambda>(c, priv). hybrid_sealer c (NewHybridSealer None (Some priv))"
proof unfold_locales
  fix k :: "crypto \<times> bytes" and rnd p ad ct
  assume a: "case k of (c, priv) \<Rightarrow> crypto_law c"
    "sSeal (case k of (c, priv) \<Rightarrow> hybrid_sealer c (NewHybridSealer (Some (cX25519Pub c priv)) None)) rnd p ad = Some ct"
  obtain c priv where k: "k = (c, priv)" by force
  have "SealHybrid c (cX25519Pub c priv) rnd p ad = Inr ct"
    using a(2) k by (simp add: hybrid_sealer_def hybrid_Seal_def NewHybridSealer_def ok_value_def split: sum.splits)
  then show "sOpen (case k of (c, priv) \<Rightarrow> hybrid_sealer c (NewHybridSealer None (Some priv))) ct ad = Some p"
    using hybrid_law(1) [of c priv rnd p ad ct] a(1) k
    by (simp add: hybrid_sealer_def hybrid_Open_def NewHybridSealer_def ok_value_def)
qed

interpretation post_quantum: sealing "\<lambda>(c, priv, decap). crypto_law c"
  "\<lambda>(c, priv, decap). pq_sealer c (NewPQHybridSealer (Some (cX25519Pub c priv)) (Some (cKemPub c decap)) None None)"
  "\<lambda>(c, priv, decap). pq_sealer c (NewPQHybridSealer None None (Some priv) (Some decap))"
proof unfold_locales
  fix k :: "crypto \<times> bytes \<times> bytes" and rnd p ad ct
  assume a: "case k of (c, priv, decap) \<Rightarrow> crypto_law c"
    "sSeal (case k of (c, priv, decap) \<Rightarrow>
       pq_sealer c (NewPQHybridSealer (Some (cX25519Pub c priv)) (Some (cKemPub c decap)) None None)) rnd p ad = Some ct"
  obtain c priv decap where k: "k = (c, priv, decap)" by (cases k) auto
  have "SealHybridPQ c (Some (cX25519Pub c priv)) (Some (cKemPub c decap)) rnd p ad = Inr ct"
    using a(2) k by (simp add: pq_sealer_def pq_Seal_def NewPQHybridSealer_def ok_value_def split: sum.splits)
  then show "sOpen (case k of (c, priv, decap) \<Rightarrow> pq_sealer c (NewPQHybridSealer None None (Some priv) (Some decap))) ct ad = Some p"
    using pq_law [of c priv decap rnd p ad ct] a(1) k
    by (simp add: pq_sealer_def pq_Open_def NewPQHybridSealer_def ok_value_def)
qed

section \<open>Onions\<close>

lemma layer_marshal_fields:
  "layer_marshal l = (if olIsFinal l then 1 else 0) # len_field (str_bytes (olNextAddr l)) @
     len_field (str_bytes (olNextNode l)) @ len_field (olInner l)"
  by (simp add: layer_marshal_def appendLenField_def len_field_def Let_def)

lemma layer_fields_front:
  assumes "length v < 2 ^ 32"
  shows "layer_fields (Suc i) (len_field v @ rest) =
     (case layer_fields i rest of Inl e \<Rightarrow> Inl e | Inr fs \<Rightarrow> Inr (v # fs))"
  using assms by (simp add: len_field_def unat_u32_len Let_def split: sum.split)

definition layer_ok :: "onionLayer \<Rightarrow> bool" where
  "layer_ok l \<longleftrightarrow> length (olNextAddr l) < 2 ^ 32 \<and> length (olNextNode l) < 2 ^ 32 \<and> length (olInner l) < 2 ^ 32"

lemma unmarshal_layer_marshal:
  assumes "layer_ok l"
  shows "unmarshalLayer (layer_marshal l) = Inr l"
proof -
  have "layer_fields 1 (len_field (olInner l)) = Inr [olInner l]"
    using layer_fields_front [of "olInner l" 0 "[]"] assms by (simp add: layer_ok_def)
  then have "layer_fields 3 (drop 1 (layer_marshal l)) =
      Inr [str_bytes (olNextAddr l), str_bytes (olNextNode l), olInner l]"
    using assms by (simp add: layer_marshal_fields numeral_3_eq_3 layer_fields_front layer_ok_def del: layer_fields.simps)
  then show ?thesis by (simp add: unmarshalLayer_def layer_marshal_fields)
qed

lemma length_layer_marshal:
  "length (layer_marshal l) = 13 + length (olNextAddr l) + length (olNextNode l) + length (olInner l)"
  by (simp add: layer_marshal_fields)

text \<open>What one sealed layer gives the holder of its key.\<close>

lemma peel_sealed:
  assumes "crypto_law c" and "SealHybrid c (cX25519Pub c priv) rnd (layer_marshal l) [] = Inr blob" and "layer_ok l"
  shows "PeelOnion c priv blob = Inr \<lparr>opIsFinal = olIsFinal l, opNextAddr = olNextAddr l,
      opNextNode = olNextNode l, opInner = olInner l\<rparr>"
    and "length blob = 73 + length (olNextAddr l) + length (olNextNode l) + length (olInner l)"
  using hybrid_law [OF assms(1,2)] unmarshal_layer_marshal [OF assms(3)] length_layer_marshal [of l]
  by (simp_all add: PeelOnion_def)

text \<open>
  A blob travelling along a path: every node peels one layer with its own key and hands the rest
  to the node the layer names. The result is the list of next hops read on the way, and what the
  final layer held.
\<close>

fun peel_along :: "crypto \<Rightarrow> bytes list \<Rightarrow> bytes \<Rightarrow> (string \<times> string) list \<times> bytes option" where
  "peel_along c [] blob = ([], None)"
| "peel_along c (priv # privs) blob =
     (case PeelOnion c priv blob of
        Inl _ \<Rightarrow> ([], None)
      | Inr p \<Rightarrow> if opIsFinal p then ([], Some (opInner p))
                 else (case peel_along c privs (opInner p) of
                         (route, out) \<Rightarrow> ((opNextNode p, opNextAddr p) # route, out)))"

fun onion_size :: "onionHop list \<Rightarrow> nat \<Rightarrow> nat" where
  "onion_size [] n = n"
| "onion_size [h] n = 73 + n"
| "onion_size (h # h' # hs) n = 73 + length (ohAddr h') + length (ohNodeID h') + onion_size (h' # hs) n"

definition carries :: "crypto \<Rightarrow> bytes \<Rightarrow> onionHop list \<Rightarrow> bytes list \<Rightarrow> bytes \<Rightarrow> bool" where
  "carries c payload hops privs blob \<longleftrightarrow>
     peel_along c privs blob = (map (\<lambda>h. (ohNodeID h, ohAddr h)) (tl hops), Some payload) \<and>
     length blob = onion_size hops (length payload)"

lemma carries_step:
  assumes law: "crypto_law c" and "carries c payload (h' # hs) privs blob"
    and "SealHybrid c (cX25519Pub c priv) rnd (layer_marshal \<lparr>olIsFinal = False, olNextAddr = ohAddr h',
           olNextNode = ohNodeID h', olInner = blob\<rparr>) [] = Inr blob'"
    and "onion_size (h # h' # hs) (length payload) < 2 ^ 32"
  shows "carries c payload (h # h' # hs) (priv # privs) blob'"
proof -
  have "layer_ok \<lparr>olIsFinal = False, olNextAddr = ohAddr h', olNextNode = ohNodeID h', olInner = blob\<rparr>"
    using assms(2,4) by (simp add: layer_ok_def carries_def)
  from peel_sealed [OF law assms(3) this] assms(2) show ?thesis by (simp add: carries_def)
qed

lemma onion_size_drop: "onion_size (drop i hops) n \<le> onion_size hops n"
proof (induction i arbitrary: hops)
  case (Suc i)
  show ?case
  proof (cases hops)
    case (Cons h hs)
    have "onion_size hs n \<le> onion_size (h # hs) n" by (cases hs) simp_all
    then show ?thesis using Suc [of hs] Cons by simp
  qed simp
qed simp

lemma onion_wrap_carries:
  assumes law: "crypto_law c" and keys: "map ohPubKey hops = map (\<lambda>p. Some (cX25519Pub c p)) privs"
    and size: "onion_size hops (length payload) < 2 ^ 32"
  shows "onion_wrap c rnd hops i blob = Inr out \<Longrightarrow> i < length hops \<Longrightarrow>
     carries c payload (drop i hops) (drop i privs) blob \<Longrightarrow> carries c payload hops privs out"
proof (induction i arbitrary: blob)
  case (Suc i)
  have len: "length privs = length hops" using keys by (metis length_map)
  have k: "ohPubKey (hops ! i) = Some (cX25519Pub c (privs ! i))"
    using arg_cong [OF keys, of "\<lambda>xs. xs ! i"] Suc.prems(2) len by simp
  have d: "drop (Suc i) hops = hops ! Suc i # drop (Suc (Suc i)) hops"
    "drop i hops = hops ! i # hops ! Suc i # drop (Suc (Suc i)) hops" "drop i privs = privs ! i # drop (Suc i) privs"
    using Suc.prems(2) len by (simp_all add: Cons_nth_drop_Suc)
  obtain blob' where b: "SealHybrid c (cX25519Pub c (privs ! i)) (rnd i) (layer_marshal
      \<lparr>olIsFinal = False, olNextAddr = ohAddr (hops ! Suc i), olNextNode = ohNodeID (hops ! Suc i), olInner = blob\<rparr>) [] = Inr blob'"
    "onion_wrap c rnd hops i blob' = Inr out"
    using Suc.prems(1) k by (auto simp: Let_def split: sum.splits)
  have "onion_size (drop i hops) (length payload) < 2 ^ 32"
    using onion_size_drop [of i hops "length payload"] size by (rule le_less_trans)
  then have "carries c payload (drop i hops) (drop i privs) blob'"
    unfolding d(2,3) using Suc.prems(3) b(1) unfolding d(1) by (intro carries_step [OF law])
  then show ?case using Suc.IH [OF b(2)] Suc.prems(2) by simp
qed simp

lemma onion_wrap_total:
  assumes law: "crypto_law c" and keys: "map ohPubKey hops = map (\<lambda>p. Some (cX25519Pub c p)) privs"
    and rnd: "\<And>j. 44 \<le> length (rnd j)"
  shows "i < length hops \<Longrightarrow> \<exists>out. onion_wrap c rnd hops i blob = Inr out"
proof (induction i arbitrary: blob)
  case (Suc i)
  have len: "length privs = length hops" using keys by (metis length_map)
  have k: "ohPubKey (hops ! i) = Some (cX25519Pub c (privs ! i))"
    using arg_cong [OF keys, of "\<lambda>xs. xs ! i"] Suc.prems len by simp
  obtain b where "SealHybrid c (cX25519Pub c (privs ! i)) (rnd i) (layer_marshal
      \<lparr>olIsFinal = False, olNextAddr = ohAddr (hops ! (i + 1)), olNextNode = ohNodeID (hops ! (i + 1)), olInner = blob\<rparr>) [] = Inr b"
    using SealHybrid_total [OF law rnd] by blast
  then show ?case using Suc.IH [of b] Suc.prems k by (simp add: Let_def)
qed simp

lemma BuildOnion_carries:
  assumes law: "crypto_law c" and "hops \<noteq> []" and keys: "map ohPubKey hops = map (\<lambda>p. Some (cX25519Pub c p)) privs"
    and rnd: "\<And>j. 44 \<le> length (rnd j)" and size: "onion_size hops (length payload) < 2 ^ 32"
  shows "\<exists>blob. BuildOnion c rnd hops payload = Inr blob \<and> carries c payload hops privs blob"
proof -
  let ?n = "length hops - 1"
  let ?l = "\<lparr>olIsFinal = True, olNextAddr = [], olNextNode = [], olInner = payload\<rparr>"
  have len: "length privs = length hops" using keys by (metis length_map)
  have n: "?n < length hops" using assms(2) by simp
  have k: "ohPubKey (hops ! ?n) = Some (cX25519Pub c (privs ! ?n))"
    using arg_cong [OF keys, of "\<lambda>xs. xs ! ?n"] n len by simp
  have d: "drop ?n hops = [hops ! ?n]" "drop ?n privs = [privs ! ?n]"
    using n len Cons_nth_drop_Suc [of ?n hops] Cons_nth_drop_Suc [of ?n privs] by simp_all
  have "\<forall>h \<in> set hops. ohPubKey h \<noteq> None"
  proof
    fix h assume "h \<in> set hops"
    then have "ohPubKey h \<in> set (map (\<lambda>p. Some (cX25519Pub c p)) privs)" unfolding keys [symmetric] by simp
    then show "ohPubKey h \<noteq> None" by auto
  qed
  then have nn: "\<not> list_ex (\<lambda>h. ohPubKey h = None) hops" by (simp add: list_ex_iff)
  have sz: "length payload + 73 < 2 ^ 32"
    using onion_size_drop [of ?n hops "length payload"] size unfolding d by simp
  obtain b where b: "SealHybrid c (cX25519Pub c (privs ! ?n)) (rnd ?n) (layer_marshal ?l) [] = Inr b"
    using SealHybrid_total [OF law rnd] by blast
  have "layer_ok ?l" using sz by (simp add: layer_ok_def)
  then have base: "carries c payload (drop ?n hops) (drop ?n privs) b"
    using peel_sealed [OF law b] unfolding d by (simp add: carries_def)
  obtain out where out: "onion_wrap c rnd hops ?n b = Inr out" using onion_wrap_total [OF law keys, of rnd ?n b] rnd n by blast
  have "BuildOnion c rnd hops payload = Inr out" using assms(2) nn k b out by (simp add: BuildOnion_def Let_def)
  then show ?thesis using onion_wrap_carries [OF law keys size out n base] by blast
qed

section \<open>Properties\<close>

text \<open>
  An onion built for a path always exists, and travels that path: peeled by the nodes in turn,
  each with its own key, it gives every relay exactly the next hop of the path and the last node
  exactly the payload. Its size is fixed by the path and the length of the payload: every layer
  costs 73 bytes and the name and address of the next hop.
\<close>

lemma onion_follows_path:
  assumes "crypto_law c" and "hops \<noteq> []" and "map ohPubKey hops = map (\<lambda>p. Some (cX25519Pub c p)) privs"
    and "\<And>j. 44 \<le> length (rnd j)" and "onion_size hops (length payload) < 2 ^ 32"
  shows "\<exists>blob. BuildOnion c rnd hops payload = Inr blob \<and>
     peel_along c privs blob = (map (\<lambda>h. (ohNodeID h, ohAddr h)) (tl hops), Some payload) \<and>
     length blob = onion_size hops (length payload)"
  using BuildOnion_carries [OF assms] by (simp add: carries_def)

text \<open>A stand-in for the primitives: exclusive or for the exchange, padding for the ciphers.\<close>

definition pad_to :: "nat \<Rightarrow> bytes \<Rightarrow> bytes" where
  "pad_to n b = take n (b @ replicate n 0)"

definition sample_crypto :: crypto where
  "sample_crypto = \<lparr>cX25519Pub = pad_to 32, cNewPublicKey = (\<lambda>b. length b = 32),
     cECDH = (\<lambda>a p. Some (map (\<lambda>i. pad_to 32 a ! i XOR p ! i) [0..<32])),
     cHKDF = (\<lambda>s salt info n. Some (pad_to n s)),
     cGcmSeal = (\<lambda>k n p ad. p @ replicate 16 0),
     cGcmOpen = (\<lambda>k n ct ad. if length ct < 16 then None else Some (take (length ct - 16) ct)),
     cKemPub = (\<lambda>d. d), cEncapsulate = (\<lambda>k r. (pad_to 32 r, pad_to 1088 (pad_to 32 r))),
     cDecapsulate = (\<lambda>d ct. Some (take 32 ct))\<rparr>"

lemma length_pad_to [simp]: "length (pad_to n b) = n"
  by (simp add: pad_to_def)

lemma take_pad_to: "m \<le> n \<Longrightarrow> length b = m \<Longrightarrow> take m (pad_to n b) = b"
  by (simp add: pad_to_def)

lemma pad_to_full [simp]: "length b = n \<Longrightarrow> pad_to n b = b"
  by (simp add: pad_to_def)

lemma crypto_law_sample [simp]: "crypto_law sample_crypto"
  by (simp add: crypto_law_def sample_crypto_def take_pad_to mlkem768CiphertextSize_def xor.commute)

text \<open>
  C37. Each of the three sealers carries a transfer: what the sender fragments and seals with the
  shared key, with the recipient's X25519 key, or with its X25519 and ML-KEM keys, reassembles at a
  receiver that holds only the opening half, in any order and with repetitions.
\<close>

theorem sealers_carry_transfer:
  assumes "crypto_law c" and "0 < n" and "length (Split data n) < 2 ^ 32" and "set frs = set frags"
    and "Fragmenter_Fragment \<lparr>fmSealer = sealing_half, fmChunkSize = n\<rparr> rnd tid data = Inr frags"
    and "(sealing_half, opening_half) \<in>
      {(aead_sealer c s, aead_sealer c s),
       (hybrid_sealer c (NewHybridSealer (Some (cX25519Pub c priv)) None), hybrid_sealer c (NewHybridSealer None (Some priv))),
       (pq_sealer c (NewPQHybridSealer (Some (cX25519Pub c priv)) (Some (cKemPub c decap)) None None),
        pq_sealer c (NewPQHybridSealer None None (Some priv) (Some decap)))}"
  shows "Assemble (fold (\<lambda>fr r. fst (Add r fr)) frs (NewReassembler opening_half (u32_len (Split data n)))) tid = Inr data"
  using assms(6)
proof (elim insertE emptyE)
  assume "(sealing_half, opening_half) = (aead_sealer c s, aead_sealer c s)"
  then show ?thesis using shared_key.transfer_opens [of "(c, s)" n rnd tid data frags frs] assms(1-5) by simp
next
  assume "(sealing_half, opening_half) =
    (hybrid_sealer c (NewHybridSealer (Some (cX25519Pub c priv)) None), hybrid_sealer c (NewHybridSealer None (Some priv)))"
  then show ?thesis using recipient_key.transfer_opens [of "(c, priv)" n rnd tid data frags frs] assms(1-5) by simp
next
  assume "(sealing_half, opening_half) =
    (pq_sealer c (NewPQHybridSealer (Some (cX25519Pub c priv)) (Some (cKemPub c decap)) None None),
     pq_sealer c (NewPQHybridSealer None None (Some priv) (Some decap)))"
  then show ?thesis using post_quantum.transfer_opens [of "(c, priv, decap)" n rnd tid data frags frs] assms(1-5) by simp
qed

lemma sample_hybrid_seals:
  "\<exists>ct. sSeal (hybrid_sealer sample_crypto (NewHybridSealer (Some (cX25519Pub sample_crypto priv)) None)) (replicate 44 0) p ad = Some ct"
  using SealHybrid_total [OF crypto_law_sample, of "replicate 44 0" priv p ad]
  by (auto simp: hybrid_sealer_def hybrid_Seal_def NewHybridSealer_def ok_value_def)

theorem sealers_carry_transfer_witness:
  "\<exists>a b. Assemble (fold (\<lambda>fr r. fst (Add r fr)) [b, a, b]
     (NewReassembler (hybrid_sealer sample_crypto (NewHybridSealer None (Some [5]))) 2)) (replicate 32 0) = Inr [7, 8, 9]"
proof -
  let ?s = "hybrid_sealer sample_crypto (NewHybridSealer (Some (cX25519Pub sample_crypto [5])) None)"
  have sp: "Split [7, 8, 9] 2 = [[7, 8], [9]]" by (simp add: Split_def Split_loop.simps)
  obtain x y where "sSeal ?s (replicate 44 0) [7, 8] (aad (replicate 32 0) 0 2) = Some x"
    "sSeal ?s (replicate 44 0) [9] (aad (replicate 32 0) 1 2) = Some y"
    using sample_hybrid_seals by blast
  then have f: "Fragmenter_Fragment \<lparr>fmSealer = ?s, fmChunkSize = 2\<rparr> (\<lambda>i. replicate 44 0) (replicate 32 0) [7, 8, 9] =
      Inr [mk_fragment (replicate 32 0) 0 2 x, mk_fragment (replicate 32 0) 1 2 y]"
    by (simp add: Fragmenter_Fragment_def sp Let_def u32_len_def)
  have "Assemble (fold (\<lambda>fr r. fst (Add r fr)) [mk_fragment (replicate 32 0) 1 2 y, mk_fragment (replicate 32 0) 0 2 x,
      mk_fragment (replicate 32 0) 1 2 y] (NewReassembler (hybrid_sealer sample_crypto (NewHybridSealer None (Some [5])))
      (u32_len (Split [7, 8, 9] 2)))) (replicate 32 0) = Inr [7, 8, 9]"
    by (rule sealers_carry_transfer [OF crypto_law_sample _ _ _ f, where priv = "[5]"]) (auto simp: sp)
  then show ?thesis unfolding sp u32_len_def by (intro exI) simp
qed

end
