(* ===== verification/Streaming.thy ===== *)
theory Streaming
  imports Pieces Encryption
begin

text \<open>
  Block-wise streaming (\<^verbatim>\<open>internal/transfer/streaming.go\<close>): the sender reads a payload block by block
  and erasure-codes every block on its own; the receiver rebuilds blocks in any order and flushes
  them in order to a sink or a buffer.

  The fields of \<^verbatim>\<open>Transfer\<close> that are set before \<^verbatim>\<open>Start\<close> are the record \<open>config\<close>. What the code hands to
  callbacks or starts as a goroutine is a list of events. A call through a nil \<^verbatim>\<open>Sealer\<close> panics; the
  operations that can reach one return \<open>None\<close> then. Counters and hop traces are left out.
\<close>

section \<open>Configuration and events\<close>

record config =
  tcSelfID :: string
  tcSealer :: "sealer option"
  tcNodePriv :: "bytes option"
  tcMlkemDecap :: "bytes option"
  tcSealToRecipient :: bool
  tcPostQuantum :: bool
  tcDataShards :: int
  tcParityShards :: int
  tcSubChunkSize :: int
  tcStreamBlockSize :: int
  tcStreamSink :: "bytes \<Rightarrow> bool" \<comment> \<open>whether the factory gives a sink for a transfer\<close>
  tcOnData :: bool \<comment> \<open>whether a delivery callback is set\<close>
  tcPadCell :: int

datatype tevent =
    OnData bytes bool
  | CloseSink bytes
  | AckReply bytes
  | AckDirect string bytes
  | AckRouted string bytes
  | OnDelivered bytes string
  | AckSignal bytes
  | ForwardHop string string bytes
  | ProbeHome bytes
  | ServeReservation string
  | ChunkAck u32

definition defaultStreamBlockSize :: int where "defaultStreamBlockSize = 4 * 1024 * 1024"

definition SetStreamBlockSize :: "int \<Rightarrow> 'a config_scheme \<Rightarrow> 'a config_scheme" where
  "SetStreamBlockSize n t = t\<lparr>tcStreamBlockSize := (if n \<le> 0 then defaultStreamBlockSize else n)\<rparr>"

definition recipientOpener :: "crypto \<Rightarrow> 'a config_scheme \<Rightarrow> scheme \<Rightarrow> sealer option" where
  "recipientOpener c t sc =
     (if scHybridSealed sc
      then if scPQ sc then Some (pq_sealer c (NewPQHybridSealer None None (tcNodePriv t) (tcMlkemDecap t)))
           else Some (hybrid_sealer c (NewHybridSealer None (tcNodePriv t)))
      else tcSealer t)"

section \<open>Sending\<close>

text \<open>
  The source: the bytes it still holds, and whether it fails at their end instead of reporting
  the end of the file. \<^verbatim>\<open>io.ReadFull\<close> with a full block, a short one, none, and an error.
\<close>

record source =
  srData :: bytes
  srBroken :: bool

datatype stream_error = ErrReading | ErrEncoding frag_error | ErrSending

definition readBlock :: "nat \<Rightarrow> source \<Rightarrow> stream_error + bytes option \<times> bool \<times> source" where
  "readBlock n r =
     (if n \<le> length (srData r) then Inr (Some (take n (srData r)), False, r\<lparr>srData := drop n (srData r)\<rparr>)
      else if srBroken r then Inl ErrReading
      else if srData r \<noteq> [] then Inr (Some (srData r), True, r\<lparr>srData := []\<rparr>)
      else Inr (None, True, r))"

definition encodeBlock ::
  "reedsolomon \<Rightarrow> (nat \<Rightarrow> bytes) \<Rightarrow> 'a config_scheme \<Rightarrow> sealer option \<Rightarrow> bytes \<Rightarrow> u32 \<Rightarrow> bytes \<Rightarrow> bool \<Rightarrow>
   frag_error + fragment list" where
  "encodeBlock rs rnd t so tid blockIndex data final =
     (case NewRSFragmenter so (tcDataShards t) (tcParityShards t) of
        Inl e \<Rightarrow> Inl e
      | Inr f \<Rightarrow>
          let enc = (if int (length data) < tcDataShards t
                     then copy_into (replicate (nat (tcDataShards t)) 0) data else data)
          in case RSFragmenter_Fragment rs f rnd tid enc of
               Inl e \<Rightarrow> Inl e
             | Inr (frags, _) \<Rightarrow>
                 Inr (map (\<lambda>fr. fr\<lparr>fStreaming := True, fBlockIndex := blockIndex,
                             fBlockLen := u32_len data, fFinal := final\<rparr>) frags))"

text \<open>
  Sending the fragments of a block stops at the first failure; \<open>ok\<close> says which sends succeed. The
  result holds the fragments handed to the transport.
\<close>

fun send_all :: "(fragment \<Rightarrow> bool) \<Rightarrow> fragment list \<Rightarrow> fragment list \<times> stream_error option" where
  "send_all ok [] = ([], None)"
| "send_all ok (f # fs) =
     (if ok f then case send_all ok fs of (out, e) \<Rightarrow> (f # out, e) else ([f], Some ErrSending))"

definition emit_block ::
  "reedsolomon \<Rightarrow> (u32 \<Rightarrow> nat \<Rightarrow> bytes) \<Rightarrow> 'a config_scheme \<Rightarrow> sealer option \<Rightarrow> (fragment \<Rightarrow> bool) \<Rightarrow> bytes \<Rightarrow>
   u32 \<Rightarrow> bytes \<Rightarrow> bool \<Rightarrow> fragment list \<times> stream_error option" where
  "emit_block rs rnd t so ok tid blockIndex data final =
     (case encodeBlock rs (rnd blockIndex) t so tid blockIndex data final of
        Inl e \<Rightarrow> ([], Some (ErrEncoding e))
      | Inr frags \<Rightarrow> send_all ok frags)"

text \<open>The loop with one block of lookahead; it is entered with a positive block size only.\<close>

function stream_loop ::
  "(u32 \<Rightarrow> bytes \<Rightarrow> bool \<Rightarrow> fragment list \<times> stream_error option) \<Rightarrow> nat \<Rightarrow> u32 \<Rightarrow> bytes \<Rightarrow> bool \<Rightarrow> source \<Rightarrow>
   fragment list \<times> stream_error option" where
  "stream_loop emit n blockIndex prev prevFinal r =
     (if prevFinal \<or> n = 0 then emit blockIndex prev True
      else case readBlock n r of
             Inl e \<Rightarrow> ([], Some e)
           | Inr (None, _, _) \<Rightarrow> emit blockIndex prev True
           | Inr (Some next, nextFinal, r) \<Rightarrow>
               (case emit blockIndex prev False of
                  (out, Some e) \<Rightarrow> (out, Some e)
                | (out, None) \<Rightarrow>
                    (case stream_loop emit n (blockIndex + 1) next nextFinal r of
                       (out', e) \<Rightarrow> (out @ out', e))))"
  by pat_completeness auto

termination
  by (relation "measure (\<lambda>(emit, n, i, p, f, r). length (srData r))") (auto simp: readBlock_def split: if_splits)

declare stream_loop.simps [simp del]

definition streamBlocks ::
  "reedsolomon \<Rightarrow> (u32 \<Rightarrow> nat \<Rightarrow> bytes) \<Rightarrow> 'a config_scheme \<Rightarrow> sealer option \<Rightarrow> (fragment \<Rightarrow> bool) \<Rightarrow> bytes \<Rightarrow>
   u32 \<Rightarrow> source \<Rightarrow> fragment list \<times> stream_error option" where
  "streamBlocks rs rnd t so ok tid startBlock r =
     (let n = nat (if tcStreamBlockSize t \<le> 0 then defaultStreamBlockSize else tcStreamBlockSize t);
          emit = emit_block rs rnd t so ok tid
      in case readBlock n r of
           Inl e \<Rightarrow> ([], Some e)
         | Inr (None, _, _) \<Rightarrow> emit startBlock [] True
         | Inr (Some prev, prevFinal, r) \<Rightarrow> stream_loop emit n startBlock prev prevFinal r)"

section \<open>Receiving\<close>

record streamBlock = pieces +
  skTotal :: u32
  skBlockLen :: int
  skFinal :: bool
  skData :: bytes
  skReady :: bool

text \<open>\<open>saSink\<close> holds what has been written to the sink, if there is one.\<close>

record streamAssembler =
  saID :: bytes
  saDataShards :: int
  saParityShards :: int
  saSink :: "bytes option"
  saBuf :: bytes
  saBlocks :: "(u32, streamBlock) gomap"
  saNextFlush :: u32
  saDone :: bool
  saReplyBlock :: bytes
  saSourceNode :: string
  saHybridSealed :: bool
  saPQ :: bool
  saLastActivity :: int

definition newStreamAssembler :: "'a config_scheme \<Rightarrow> int \<Rightarrow> packet \<Rightarrow> streamAssembler" where
  "newStreamAssembler t now pkt =
     \<lparr>saID = pID pkt, saDataShards = uint (pDataShards pkt), saParityShards = uint (pParityShards pkt),
      saSink = (if tcStreamSink t (pID pkt) then Some [] else None), saBuf = [], saBlocks = [],
      saNextFlush = 0, saDone = False, saReplyBlock = pReplyBlock pkt, saSourceNode = pSourceNode pkt,
      saHybridSealed = pHybridSealed pkt, saPQ = pPQ pkt, saLastActivity = now\<rparr>"

definition new_block :: "packet \<Rightarrow> streamBlock" where
  "new_block pkt = \<lparr>bReceived = [], bChunks = [], bSubParts = [], skTotal = pTotalChunks pkt,
     skBlockLen = uint (pBlockLen pkt), skFinal = pFinal pkt, skData = [], skReady = False\<rparr>"

text \<open>
  Reconstruction calls \<^verbatim>\<open>Open\<close> for every shard present, so it panics on a nil sealer as soon as there
  is one. The order in which the chunk table is walked does not matter: its keys are distinct.
\<close>

definition nil_sealer :: sealer where
  "nil_sealer = \<lparr>sSeal = (\<lambda>_ _ _. None), sOpen = (\<lambda>_ _. None)\<rparr>"

definition opens_shard :: "reedsolomon \<Rightarrow> rsReassembler \<Rightarrow> bool" where
  "opens_shard rs r \<longleftrightarrow> rdNew rs (rrData r) (rrParity r) \<and>
     list_ex (\<lambda>i. gget (rrParts r) (word_of_nat i) \<noteq> None) [0..<unat (rrTotal r)]"

definition rs_rebuild ::
  "reedsolomon \<Rightarrow> sealer option \<Rightarrow> int \<Rightarrow> int \<Rightarrow> int \<Rightarrow> bytes \<Rightarrow> u32 \<Rightarrow> (u32, bytes) gomap \<Rightarrow>
   (frag_error + bytes) option" where
  "rs_rebuild rs so dataShards parityShards len tid tot chunks =
     (let r = NewRSReassembler (case so of None \<Rightarrow> nil_sealer | Some s \<Rightarrow> s) dataShards parityShards len;
          r = fold (\<lambda>(idx, payload) r. fst (RS_Add r (mk_fragment tid idx tot payload))) chunks r
      in if so = None \<and> opens_shard rs r then None else Some (Reconstruct rs r tid))"

definition reconstructBlock ::
  "crypto \<Rightarrow> reedsolomon \<Rightarrow> 'a config_scheme \<Rightarrow> streamAssembler \<Rightarrow> streamBlock \<Rightarrow> (frag_error + bytes) option" where
  "reconstructBlock c rs t sa b =
     rs_rebuild rs (recipientOpener c t \<lparr>scDataShards = 0, scParityShards = 0, scOriginalLen = 0, scVariable = False,
         scStreaming = False, scHybridSealed = saHybridSealed sa, scPQ = saPQ sa, scResumable = False\<rparr>)
       (saDataShards sa) (saParityShards sa) (skBlockLen b) (saID sa) (skTotal b) (bChunks b)"

definition sa_finish :: "'a config_scheme \<Rightarrow> streamAssembler \<Rightarrow> streamAssembler \<times> tevent list" where
  "sa_finish t sa =
     (sa\<lparr>saDone := True\<rparr>,
      (case saSink sa of
         Some _ \<Rightarrow> [CloseSink (saID sa)]
       | None \<Rightarrow> if tcOnData t then [OnData (saBuf sa) False] else []) @
      (if saReplyBlock sa \<noteq> [] then [AckReply (saReplyBlock sa)]
       else if saSourceNode sa \<noteq> [] then [AckDirect (saSourceNode sa) (saID sa)] else []))"

definition sa_write :: "bytes \<Rightarrow> streamAssembler \<Rightarrow> streamAssembler" where
  "sa_write data sa =
     (case saSink sa of
        Some w \<Rightarrow> sa\<lparr>saSink := Some (w @ data)\<rparr>
      | None \<Rightarrow> sa\<lparr>saBuf := saBuf sa @ data\<rparr>)"

lemma length_gdel_less: "gget m k = Some v \<Longrightarrow> length (gdel k m) < length m"
  unfolding gdel_def by (rule length_filter_less [of "(k, v)"]) (simp_all add: gget_SomeD)

lemma sa_write_simps [simp]:
  "saBlocks (sa_write d sa) = saBlocks sa" "saNextFlush (sa_write d sa) = saNextFlush sa" "saDone (sa_write d sa) = saDone sa"
  "saID (sa_write d sa) = saID sa" "saDataShards (sa_write d sa) = saDataShards sa"
  "saParityShards (sa_write d sa) = saParityShards sa" "saHybridSealed (sa_write d sa) = saHybridSealed sa"
  "saPQ (sa_write d sa) = saPQ sa"
  by (simp_all add: sa_write_def split: option.split)

function flushReady :: "'a config_scheme \<Rightarrow> streamAssembler \<Rightarrow> streamAssembler \<times> tevent list" where
  "flushReady t sa =
     (case gget (saBlocks sa) (saNextFlush sa) of
        None \<Rightarrow> (sa, [])
      | Some b \<Rightarrow>
          if \<not> skReady b then (sa, [])
          else let sa = sa_write (skData b) sa;
                   sa = sa\<lparr>saBlocks := gdel (saNextFlush sa) (saBlocks sa), saNextFlush := saNextFlush sa + 1\<rparr>
               in if skFinal b then sa_finish t sa else flushReady t sa)"
  by pat_completeness auto

termination
  by (relation "measure (\<lambda>(t, sa). length (saBlocks sa))") (auto simp: length_gdel_less)

declare flushReady.simps [simp del]

definition sa_add ::
  "crypto \<Rightarrow> reedsolomon \<Rightarrow> 'a config_scheme \<Rightarrow> int \<Rightarrow> packet \<Rightarrow> streamAssembler \<Rightarrow>
   (streamAssembler \<times> tevent list \<times> bool) option" where
  "sa_add c rs t now pkt sa =
     (if saDone sa then Some (sa, [], True)
      else let sa = sa\<lparr>saLastActivity := now\<rparr>;
               b = (case gget (saBlocks sa) (pBlockIndex pkt) of None \<Rightarrow> new_block pkt | Some b \<Rightarrow> b)
           in if skReady b then Some (sa, [], saDone sa)
              else let b = absorb_piece pkt b in
                case (if u32_len (bReceived b) \<ge> word_of_int (saDataShards sa)
                      then reconstructBlock c rs t sa b else Some (Inl ErrIncomplete)) of
                  None \<Rightarrow> None
                | Some res \<Rightarrow>
                    let b = (case res of
                               Inl _ \<Rightarrow> b
                             | Inr data \<Rightarrow> b\<lparr>skData := data, skReady := True, bReceived := [], bChunks := [], bSubParts := []\<rparr>);
                        (sa, ev) = flushReady t (sa\<lparr>saBlocks := gput (pBlockIndex pkt) b (saBlocks sa)\<rparr>)
                    in Some (sa, ev, saDone sa))"

definition resumeFrom :: "streamAssembler \<Rightarrow> u32" where
  "resumeFrom sa = saNextFlush sa"

definition abandonIfIdle :: "int \<Rightarrow> streamAssembler \<Rightarrow> streamAssembler \<times> tevent list \<times> bool" where
  "abandonIfIdle cutoff sa =
     (if saDone sa \<or> saLastActivity sa > cutoff then (sa, [], False)
      else (sa\<lparr>saDone := True\<rparr>, (case saSink sa of Some _ \<Rightarrow> [CloseSink (saID sa)] | None \<Rightarrow> []), True))"

section \<open>Rebuilding a block\<close>

lemma RS_Add_sealer: "fst (RS_Add (r\<lparr>rrSealer := s\<rparr>) fr) = (fst (RS_Add r fr))\<lparr>rrSealer := s\<rparr>"
  by (simp add: RS_Add_def split: option.split)

lemma rr_add_all_set_sealer: "rr.add_all (r\<lparr>rrSealer := s\<rparr>) frs = (rr.add_all r frs)\<lparr>rrSealer := s\<rparr>"
  unfolding rr.add_all_def by (induction frs arbitrary: r) (simp_all add: RS_Add_sealer)

lemma Reconstruct_sealer:
  assumes "sOpen s = sOpen (rrSealer r)"
  shows "Reconstruct rs (r\<lparr>rrSealer := s\<rparr>) tid = Reconstruct rs r tid"
proof -
  have "Reconstruct_open (r\<lparr>rrSealer := s\<rparr>) tid = Reconstruct_open r tid"
    using assms by (intro ext) (simp add: Reconstruct_open_def split: option.split)
  then show ?thesis by (simp add: Reconstruct_def split: option.split)
qed

lemma RSFragmenter_Inr:
  "RSFragmenter_Fragment rs \<lparr>rfSealer = s, rfData = k, rfParity = m\<rparr> rnd tid enc = Inr (frags, len) \<longleftrightarrow>
     k \<le> int (length enc) \<and> rdNew rs k m \<and> len = int (length enc) \<and>
     (\<exists>s0 shards. rdSplit rs k m enc = Some s0 \<and> rdEncode rs k m s0 = Some shards \<and>
        seal_loop s rnd tid (u32_len shards) 0 shards = Inr frags)"
  by (auto simp: RSFragmenter_Fragment_def split: option.splits sum.splits)

text \<open>The shards of a list of fragments, by index.\<close>

definition frag_table :: "fragment list \<Rightarrow> u32 \<Rightarrow> bytes option" where
  "frag_table frags idx = (if unat idx < length frags then Some (fPayload (frags ! unat idx)) else None)"

text \<open>Any dataShards of the shards, in a chunk table that holds no others, give the block.\<close>

definition rebuilds :: "reedsolomon \<Rightarrow> sealer option \<Rightarrow> int \<Rightarrow> int \<Rightarrow> bytes \<Rightarrow> (u32 \<Rightarrow> bytes option) \<Rightarrow> bytes \<Rightarrow> bool" where
  "rebuilds rs so k m tid F d \<longleftrightarrow>
     (\<forall>chunks. gmap_ok chunks \<and> (\<forall>idx. gget chunks idx = None \<or> gget chunks idx = F idx) \<and> k \<le> int (length chunks) \<longrightarrow>
        rs_rebuild rs so k m (int (length d)) tid (word_of_int (k + m)) chunks = Some (Inr d))"

lemma fold_chunks_add_all:
  "fold (\<lambda>(idx, payload) r. fst (RS_Add r (mk_fragment tid idx tot payload))) chunks r =
   rr.add_all r (map (\<lambda>(idx, payload). mk_fragment tid idx tot payload) chunks)"
  unfolding rr.add_all_def by (induction chunks arbitrary: r) auto

lemma find_mk_fragment:
  assumes "gmap_ok chunks"
  shows "first_at (map (\<lambda>(idx, p). mk_fragment tid idx n p) chunks) n i = map_option (mk_fragment tid i n) (gget chunks i)"
  using assms by (induction chunks) (auto simp: first_at_def mk_fragment_def gget_def gmap_ok_def)

text \<open>The sending and the opening half of a sealer.\<close>

definition halves_law :: "sealer \<Rightarrow> sealer \<Rightarrow> bool" where
  "halves_law s o' \<longleftrightarrow> sealer_law \<lparr>sSeal = sSeal s, sOpen = sOpen o'\<rparr>"

lemma fragments_rebuild:
  assumes law: "halves_law s o'" and rs: "rs_law rs k m" and enc: "enc \<noteq> []" and km: "0 < k" "0 < m" "k + m < 2 ^ 32"
    and frag: "RSFragmenter_Fragment rs \<lparr>rfSealer = s, rfData = k, rfParity = m\<rparr> rnd tid enc = Inr (frags, len)"
    and l: "l \<le> length enc"
  shows "rebuilds rs (Some o') k m tid (frag_table frags) (take l enc)"
  unfolding rebuilds_def
proof (intro allI impI, elim conjE)
  fix chunks :: "(u32, bytes) gomap"
  assume ok: "gmap_ok chunks" and sub: "\<forall>idx. gget chunks idx = None \<or> gget chunks idx = frag_table frags idx"
    and cnt: "k \<le> int (length chunks)"
  let ?s = "\<lparr>sSeal = sSeal s, sOpen = sOpen o'\<rparr>" and ?n = "word_of_int (k + m) :: u32"
  let ?frs = "map (\<lambda>(idx, p). mk_fragment tid idx ?n p) chunks"
  have frag': "RSFragmenter_Fragment rs \<lparr>rfSealer = ?s, rfData = k, rfParity = m\<rparr> rnd tid enc = Inr (frags, len)"
    using frag seal_loop_sealer [of ?s s] by (simp add: RSFragmenter_Inr)
  obtain shards where seal: "seal_loop ?s rnd tid (u32_len shards) 0 shards = Inr frags" and ls: "int (length shards) = k + m"
    using frag' rs enc unfolding RSFragmenter_Inr rs_law_def by fastforce
  have n: "?n = u32_len shards" by (simp add: u32_len_def flip: ls)
  have small: "length shards < 2 ^ 32" using ls km(3) by simp
  note nth = seal_loop_nth [OF seal, simplified]
  have lf: "length frags = length shards" using nth by simp
  have fr: "frags ! i = mk_fragment tid (word_of_nat i) ?n (fPayload (frags ! i))" if "i < length frags" for i
    using nth that lf unfolding n by (auto simp: mk_fragment_def)
  have look: "gget chunks idx = Some p \<Longrightarrow> unat idx < length frags \<and> mk_fragment tid idx ?n p = frags ! unat idx" for idx p
    using sub [rule_format, of idx] fr [of "unat idx"] by (auto simp: frag_table_def split: if_splits)
  have at: "first_at ?frs ?n (word_of_nat i) = Some (frags ! i) \<longleftrightarrow> gget chunks (word_of_nat i) \<noteq> None" if "i < length frags" for i
  proof -
    have "unat (word_of_nat i :: u32) = i" using that lf small by (simp add: unat_u32_of_nat)
    then show ?thesis using look [of "word_of_nat i"] unfolding find_mk_fragment [OF ok] by auto
  qed
  have "x \<in> set frags" if "x \<in> set ?frs" for x
    using that look ok by (auto simp: gget_Some_iff)
  moreover have "card {i. i < length frags \<and> first_at ?frs ?n (word_of_nat i) = Some (frags ! i)} = length chunks"
  proof -
    have "{i. i < length frags \<and> first_at ?frs ?n (word_of_nat i) = Some (frags ! i)} = unat ` fst ` set chunks" (is "?A = ?B")
    proof
      show "?A \<subseteq> ?B"
      proof
        fix i assume i: "i \<in> ?A"
        then have "(word_of_nat i :: u32) \<in> fst ` set chunks" using at by (auto simp: gget_None_iff)
        moreover have "unat (word_of_nat i :: u32) = i" using i lf small by (simp add: unat_u32_of_nat)
        ultimately show "i \<in> ?B" by (metis imageI)
      qed
      show "?B \<subseteq> ?A"
      proof
        fix i assume "i \<in> ?B"
        then obtain idx where idx: "i = unat idx" "gget chunks idx \<noteq> None" by (auto simp: gget_None_iff)
        then have i: "i < length frags" using look by auto
        show "i \<in> ?A" using at [OF i] i idx by simp
      qed
    qed
    also have "card \<dots> = card (fst ` set chunks)" by (rule card_image) (simp add: inj_on_def word_unat_eq_iff)
    also have "\<dots> = length chunks" using distinct_card [of "map fst chunks"] ok by (simp add: gmap_ok_def)
    finally show ?thesis .
  qed
  ultimately have "Reconstruct rs (rr.add_all (NewRSReassembler ?s k m (int l)) ?frs) tid = Inr (take l enc)"
    using law cnt unfolding halves_law_def
    by (intro Reconstruct_prefix [OF _ rs enc km frag' _ _ l]) auto
  moreover have "NewRSReassembler o' k m (int l) = (NewRSReassembler ?s k m (int l))\<lparr>rrSealer := o'\<rparr>"
    by (simp add: NewRSReassembler_def)
  then have "rr.add_all (NewRSReassembler o' k m (int l)) ?frs = (rr.add_all (NewRSReassembler ?s k m (int l)) ?frs)\<lparr>rrSealer := o'\<rparr>"
    by (simp only: rr_add_all_set_sealer)
  moreover have "length (take l enc) = l" using l by simp
  ultimately show "rs_rebuild rs (Some o') k m (int (length (take l enc))) tid ?n chunks = Some (Inr (take l enc))"
    using Reconstruct_sealer [of o' "rr.add_all (NewRSReassembler ?s k m (int l)) ?frs"]
    by (simp add: rs_rebuild_def fold_chunks_add_all Let_def NewRSReassembler_def)
qed

lemma encodeBlock_rebuilds:
  assumes law: "halves_law s o'" and rs: "rs_law rs (tcDataShards t) (tcParityShards t)"
    and km: "0 < tcDataShards t" "0 < tcParityShards t" "tcDataShards t + tcParityShards t < 2 ^ 32"
    and enc: "encodeBlock rs rnd t (Some s) tid bi d final = Inr frags"
  shows "rebuilds rs (Some o') (tcDataShards t) (tcParityShards t) tid (frag_table frags) d"
    and "\<And>f. f \<in> set frags \<Longrightarrow> fStreaming f \<and> fBlockIndex f = bi \<and> fBlockLen f = u32_len d \<and> fFinal f = final \<and>
           fTotal f = word_of_int (tcDataShards t + tcParityShards t) \<and> fTransferID f = tid"
    and "\<And>i. i < length frags \<Longrightarrow> fIndex (frags ! i) = word_of_nat i"
    and "int (length frags) = tcDataShards t + tcParityShards t"
proof -
  let ?k = "tcDataShards t" and ?m = "tcParityShards t"
  let ?e = "if int (length d) < ?k then copy_into (replicate (nat ?k) 0) d else d"
  obtain raw len where raw: "RSFragmenter_Fragment rs \<lparr>rfSealer = s, rfData = ?k, rfParity = ?m\<rparr> rnd tid ?e = Inr (raw, len)"
    and frags: "frags = map (\<lambda>fr. fr\<lparr>fStreaming := True, fBlockIndex := bi, fBlockLen := u32_len d, fFinal := final\<rparr>) raw"
    using enc km by (auto simp: encodeBlock_def NewRSFragmenter_def Let_def split: sum.splits)
  have ne: "?e \<noteq> []" using km(1) by (auto simp: copy_into_def)
  have l: "length d \<le> length ?e" by (simp, linarith)
  have tk: "take (length d) ?e = d" by (auto simp: copy_into_def)
  have tab: "frag_table frags = frag_table raw" unfolding frags by (intro ext) (simp add: frag_table_def)
  show "rebuilds rs (Some o') ?k ?m tid (frag_table frags) d"
    using fragments_rebuild [OF law rs ne km raw l] unfolding tk tab .
  obtain shards where seal: "seal_loop s rnd tid (u32_len shards) 0 shards = Inr raw" and ls: "int (length shards) = ?k + ?m"
    using raw rs ne unfolding RSFragmenter_Inr rs_law_def by fastforce
  have n: "word_of_int (?k + ?m) = u32_len shards" by (simp add: u32_len_def flip: ls)
  note nth = seal_loop_nth [OF seal, simplified]
  show "int (length frags) = ?k + ?m" using nth ls frags by simp
  show "fIndex (frags ! i) = word_of_nat i" if "i < length frags" for i
    using that nth frags by (auto simp: mk_fragment_def)
  show "fStreaming f \<and> fBlockIndex f = bi \<and> fBlockLen f = u32_len d \<and> fFinal f = final \<and>
      fTotal f = word_of_int (?k + ?m) \<and> fTransferID f = tid" if "f \<in> set frags" for f
  proof -
    from that obtain i where i: "i < length raw" "f = (raw ! i)\<lparr>fStreaming := True, fBlockIndex := bi, fBlockLen := u32_len d, fFinal := final\<rparr>"
      unfolding frags by (auto simp: in_set_conv_nth)
    then obtain ct where "raw ! i = mk_fragment tid (word_of_nat i) (u32_len shards) ct" using nth by auto
    then show ?thesis using i(2) unfolding n by (simp add: mk_fragment_def)
  qed
qed

section \<open>The assembler\<close>

lemma received_count:
  assumes "pieces_inv F n S b"
  shows "length (bReceived b) = card {idx. all_pieces F n S idx}" and "length (bChunks b) = length (bReceived b)"
proof -
  have "fst ` set (bReceived b) = {idx. all_pieces F n S idx}" (is "?A = ?C")
  proof (rule set_eqI)
    fix idx
    show "idx \<in> ?A \<longleftrightarrow> idx \<in> ?C"
      using assms gget_None_iff [of "bReceived b" idx] by (auto simp: pieces_inv_def split: if_splits)
  qed
  moreover have "fst ` set (bChunks b) = ?C"
  proof (rule set_eqI)
    fix idx
    have "all_pieces F n S idx \<Longrightarrow> F idx \<noteq> None" by (auto simp: all_pieces_def split: option.splits)
    then show "idx \<in> fst ` set (bChunks b) \<longleftrightarrow> idx \<in> ?C"
      using assms gget_None_iff [of "bChunks b" idx] by (auto simp: pieces_inv_def split: if_splits)
  qed
  moreover have "length (bReceived b) = card (fst ` set (bReceived b))" "length (bChunks b) = card (fst ` set (bChunks b))"
    using assms distinct_card [of "map fst (bReceived b)"] distinct_card [of "map fst (bChunks b)"]
    by (simp_all add: pieces_inv_def gmap_ok_def)
  ultimately show "length (bReceived b) = card ?C" "length (bChunks b) = length (bReceived b)" by simp_all
qed

text \<open>What a stream is: its blocks, the shards of each block, and the wire cap of the pieces.\<close>

record streamSpec =
  ssBlocks :: "bytes list"
  ssShards :: "nat \<Rightarrow> u32 \<Rightarrow> bytes option"
  ssSub :: int
  ssK :: int
  ssM :: int
  ssTid :: bytes

definition spec_ok :: "reedsolomon \<Rightarrow> sealer option \<Rightarrow> streamSpec \<Rightarrow> bool" where
  "spec_ok rs so sp \<longleftrightarrow> 0 < length (ssBlocks sp) \<and> length (ssBlocks sp) < 2 ^ 32 \<and> 0 < ssK sp \<and> ssK sp < 2 ^ 32 \<and>
     (\<forall>i < length (ssBlocks sp). length (ssBlocks sp ! i) < 2 ^ 32 \<and> few_pieces (ssShards sp i) (ssSub sp) \<and>
        rebuilds rs so (ssK sp) (ssM sp) (ssTid sp) (ssShards sp i) (ssBlocks sp ! i))"

definition genuine_at :: "streamSpec \<Rightarrow> nat \<Rightarrow> packet \<Rightarrow> bool" where
  "genuine_at sp i pkt \<longleftrightarrow> i < length (ssBlocks sp) \<and> pBlockIndex pkt = word_of_nat i \<and>
     pTotalChunks pkt = word_of_int (ssK sp + ssM sp) \<and> pBlockLen pkt = u32_len (ssBlocks sp ! i) \<and>
     pFinal pkt = (Suc i = length (ssBlocks sp)) \<and> genuine_piece (ssShards sp i) (ssSub sp) pkt"

definition block_inv :: "streamSpec \<Rightarrow> (u32 \<times> u32) set \<Rightarrow> nat \<Rightarrow> streamBlock \<Rightarrow> bool" where
  "block_inv sp S i b \<longleftrightarrow> skTotal b = word_of_int (ssK sp + ssM sp) \<and> skBlockLen b = int (length (ssBlocks sp ! i)) \<and>
     skFinal b = (Suc i = length (ssBlocks sp)) \<and>
     (if skReady b then skData b = ssBlocks sp ! i
      else pieces_inv (ssShards sp i) (ssSub sp) S b \<and> int (length (bReceived b)) < ssK sp)"

definition sa_out :: "streamAssembler \<Rightarrow> bytes" where
  "sa_out sa = (case saSink sa of Some w \<Rightarrow> w | None \<Rightarrow> saBuf sa)"

text \<open>
  The invariant before flushing: what was flushed is a prefix of the blocks, and the blocks from
  there on hold exactly the pieces seen so far.
\<close>

definition blocks_inv :: "streamSpec \<Rightarrow> (nat \<Rightarrow> (u32 \<times> u32) set) \<Rightarrow> nat \<Rightarrow> (u32, streamBlock) gomap \<Rightarrow> bool" where
  "blocks_inv sp seen f blocks \<longleftrightarrow>
     (\<forall>i < length (ssBlocks sp). case gget blocks (word_of_nat i) of
        None \<Rightarrow> f \<le> i \<longrightarrow> seen i = {}
      | Some b \<Rightarrow> \<exists>S. block_inv sp S i b \<and> (f \<le> i \<longrightarrow> S = seen i))"

definition opener_of :: "crypto \<Rightarrow> 'a config_scheme \<Rightarrow> streamAssembler \<Rightarrow> sealer option" where
  "opener_of c t sa = recipientOpener c t \<lparr>scDataShards = 0, scParityShards = 0, scOriginalLen = 0, scVariable = False,
     scStreaming = False, scHybridSealed = saHybridSealed sa, scPQ = saPQ sa, scResumable = False\<rparr>"

definition sa_inv :: "'a config_scheme \<Rightarrow> crypto \<Rightarrow> sealer option \<Rightarrow> streamSpec \<Rightarrow> (nat \<Rightarrow> (u32 \<times> u32) set) \<Rightarrow> streamAssembler \<Rightarrow> bool" where
  "sa_inv t c so sp seen sa \<longleftrightarrow>
     unat (saNextFlush sa) \<le> length (ssBlocks sp) \<and> (saDone sa \<longleftrightarrow> unat (saNextFlush sa) = length (ssBlocks sp)) \<and>
     sa_out sa = concat (take (unat (saNextFlush sa)) (ssBlocks sp)) \<and>
     saDataShards sa = ssK sp \<and> saParityShards sa = ssM sp \<and> saID sa = ssTid sp \<and> opener_of c t sa = so \<and>
     blocks_inv sp seen (unat (saNextFlush sa)) (saBlocks sa)"

definition drained :: "streamAssembler \<Rightarrow> bool" where
  "drained sa \<longleftrightarrow> (\<forall>b. gget (saBlocks sa) (saNextFlush sa) = Some b \<longrightarrow> \<not> skReady b)"

lemma sa_out_write [simp]: "sa_out (sa_write d sa) = sa_out sa @ d"
  by (simp add: sa_out_def sa_write_def split: option.split)

lemma sa_out_upd [simp]:
  "sa_out (sa\<lparr>saBlocks := x\<rparr>) = sa_out sa" "sa_out (sa\<lparr>saNextFlush := y\<rparr>) = sa_out sa"
  "sa_out (sa\<lparr>saDone := z\<rparr>) = sa_out sa" "sa_out (sa\<lparr>saLastActivity := w\<rparr>) = sa_out sa"
  by (simp_all add: sa_out_def split: option.split)

lemma sa_finish_fst: "fst (sa_finish t sa) = sa\<lparr>saDone := True\<rparr>"
  by (simp add: sa_finish_def)

lemma word_of_nat_block [simp]:
  "i < n \<Longrightarrow> j < n \<Longrightarrow> n < 2 ^ 32 \<Longrightarrow> (word_of_nat i :: u32) = word_of_nat j \<longleftrightarrow> i = j"
  by (metis less_trans unat_u32_of_nat)

lemma blocks_inv_gdel:
  assumes "blocks_inv sp seen f blocks" and "f < length (ssBlocks sp)" and "length (ssBlocks sp) < 2 ^ 32"
  shows "blocks_inv sp seen (Suc f) (gdel (word_of_nat f) blocks)"
  unfolding blocks_inv_def
proof (intro allI impI)
  fix i assume i: "i < length (ssBlocks sp)"
  have eq: "(word_of_nat i :: u32) = word_of_nat f \<longleftrightarrow> i = f" using i assms(2,3) by (rule word_of_nat_block)
  have "case gget blocks (word_of_nat i) of None \<Rightarrow> f \<le> i \<longrightarrow> seen i = {} | Some b \<Rightarrow> \<exists>S. block_inv sp S i b \<and> (f \<le> i \<longrightarrow> S = seen i)"
    using assms(1) i by (simp add: blocks_inv_def)
  then show "case gget (gdel (word_of_nat f) blocks) (word_of_nat i) of None \<Rightarrow> Suc f \<le> i \<longrightarrow> seen i = {}
      | Some b \<Rightarrow> \<exists>S. block_inv sp S i b \<and> (Suc f \<le> i \<longrightarrow> S = seen i)"
    using eq by (auto split: option.splits)
qed

lemma blocks_inv_gput:
  assumes "blocks_inv sp seen f blocks" and "i < length (ssBlocks sp)" and "length (ssBlocks sp) < 2 ^ 32"
    and "block_inv sp S i b" and "f \<le> i \<longrightarrow> S = seen' i" and "\<And>j. j \<noteq> i \<Longrightarrow> seen' j = seen j"
  shows "blocks_inv sp seen' f (gput (word_of_nat i) b blocks)"
  unfolding blocks_inv_def
proof (intro allI impI)
  fix j assume j: "j < length (ssBlocks sp)"
  have eq: "(word_of_nat j :: u32) = word_of_nat i \<longleftrightarrow> j = i" using j assms(2,3) by (rule word_of_nat_block)
  have "case gget blocks (word_of_nat j) of None \<Rightarrow> f \<le> j \<longrightarrow> seen j = {} | Some b \<Rightarrow> \<exists>S. block_inv sp S j b \<and> (f \<le> j \<longrightarrow> S = seen j)"
    using assms(1) j by (simp add: blocks_inv_def)
  then show "case gget (gput (word_of_nat i) b blocks) (word_of_nat j) of None \<Rightarrow> f \<le> j \<longrightarrow> seen' j = {}
      | Some b \<Rightarrow> \<exists>S. block_inv sp S j b \<and> (f \<le> j \<longrightarrow> S = seen' j)"
    using eq assms(4,5) assms(6) [of j] by (cases "j = i") (auto split: option.split)
qed

lemma opener_of_upd [simp]:
  "opener_of c t (sa\<lparr>saBlocks := x\<rparr>) = opener_of c t sa" "opener_of c t (sa\<lparr>saNextFlush := y\<rparr>) = opener_of c t sa"
  "opener_of c t (sa\<lparr>saDone := z\<rparr>) = opener_of c t sa" "opener_of c t (sa\<lparr>saLastActivity := w\<rparr>) = opener_of c t sa"
  "opener_of c t (sa_write d sa) = opener_of c t sa"
  by (simp_all add: opener_of_def)

lemma flush_one:
  assumes inv: "sa_inv t c so sp seen sa" and L: "length (ssBlocks sp) < 2 ^ 32" and nd: "\<not> saDone sa"
    and b: "gget (saBlocks sa) (saNextFlush sa) = Some b" "skReady b"
  shows "sa_inv t c so sp seen ((sa_write (skData b) sa)\<lparr>saBlocks := gdel (saNextFlush sa) (saBlocks sa),
      saNextFlush := saNextFlush sa + 1, saDone := skFinal b\<rparr>)"
proof -
  let ?f = "unat (saNextFlush sa)" and ?L = "length (ssBlocks sp)"
  have f: "?f < ?L" and tab: "blocks_inv sp seen ?f (saBlocks sa)" using inv nd by (auto simp: sa_inv_def)
  have suc: "unat (saNextFlush sa + 1) = Suc ?f"
    using f L by (simp add: unat_word_ariths)
  obtain S where "block_inv sp S ?f b" using tab f b(1) by (force simp: blocks_inv_def)
  then have data: "skData b = ssBlocks sp ! ?f" "skFinal b = (Suc ?f = ?L)" using b(2) by (simp_all add: block_inv_def)
  have "concat (take (Suc ?f) (ssBlocks sp)) = concat (take ?f (ssBlocks sp)) @ ssBlocks sp ! ?f"
    using f by (simp add: take_Suc_conv_app_nth)
  then show ?thesis
    using inv data suc f blocks_inv_gdel [OF tab f L] unfolding sa_inv_def by simp
qed

lemma saDone_same: "saDone sa = d \<Longrightarrow> sa\<lparr>saDone := d\<rparr> = sa"
  by (cases sa) simp

lemma sa_finish_Done [simp]: "snd (sa_finish t (sa\<lparr>saDone := d\<rparr>)) = snd (sa_finish t sa)"
  by (cases "saSink sa") (simp_all add: sa_finish_def)

text \<open>What stays the same during a stream: where the blocks go and how the end is acknowledged.\<close>

definition same_end :: "streamAssembler \<Rightarrow> streamAssembler \<Rightarrow> bool" where
  "same_end sa sa' \<longleftrightarrow> (saSink sa' = None \<longleftrightarrow> saSink sa = None) \<and> saReplyBlock sa' = saReplyBlock sa \<and> saSourceNode sa' = saSourceNode sa"

lemma same_end_refl [simp]: "same_end sa sa"
  by (simp add: same_end_def)

lemma same_end_trans: "same_end a b \<Longrightarrow> same_end b c \<Longrightarrow> same_end a c"
  by (simp add: same_end_def)

lemma same_end_write: "same_end sa (sa_write d sa)"
  by (simp add: same_end_def sa_write_def split: option.split)

lemma flushReady_spec:
  assumes L: "length (ssBlocks sp) < 2 ^ 32"
  shows "sa_inv t c so sp seen sa \<Longrightarrow> \<not> saDone sa \<Longrightarrow> flushReady t sa = (sa', ev) \<Longrightarrow>
     sa_inv t c so sp seen sa' \<and> same_end sa sa' \<and>
     (if saDone sa' then ev = snd (sa_finish t sa') else drained sa' \<and> ev = [])"
proof (induction t sa arbitrary: sa' ev rule: flushReady.induct)
  case (1 t sa)
  show ?case
  proof (cases "gget (saBlocks sa) (saNextFlush sa)")
    case None
    then show ?thesis using "1.prems" by (subst (asm) flushReady.simps) (auto simp: drained_def)
  next
    case (Some b)
    let ?sa = "(sa_write (skData b) sa)\<lparr>saBlocks := gdel (saNextFlush sa) (saBlocks sa), saNextFlush := saNextFlush sa + 1\<rparr>"
    show ?thesis
    proof (cases "skReady b")
      case False
      then show ?thesis using "1.prems" Some by (subst (asm) flushReady.simps) (auto simp: drained_def)
    next
      case ready: True
      have inv: "sa_inv t c so sp seen (?sa\<lparr>saDone := skFinal b\<rparr>)"
        using flush_one [OF "1.prems"(1) L "1.prems"(2) Some ready] by simp
      have e: "same_end sa ?sa" using same_end_write [of sa "skData b"] by (simp add: same_end_def)
      show ?thesis
      proof (cases "skFinal b")
        case True
        then have "(sa', ev) = sa_finish t ?sa"
          using "1.prems"(3) Some ready by (subst (asm) flushReady.simps) (simp add: Let_def)
        then have "sa' = ?sa\<lparr>saDone := True\<rparr>" "ev = snd (sa_finish t ?sa)"
          using sa_finish_fst [of t ?sa] by (metis fst_conv, metis snd_conv)
        then show ?thesis using inv True e by (simp add: same_end_def)
      next
        case False
        have "flushReady t ?sa = (sa', ev)"
          using "1.prems"(3) Some ready False by (subst (asm) flushReady.simps) (simp add: Let_def)
        moreover have "sa_inv t c so sp seen ?sa" using inv False saDone_same [of ?sa False] "1.prems"(2) by simp
        ultimately show ?thesis
          using "1.IH" [OF Some _ refl refl, of sa' ev] ready False "1.prems"(2) e by (auto intro: same_end_trans)
      qed
    qed
  qed
qed

lemma absorb_piece_block [simp]:
  "skTotal (absorb_piece pkt b) = skTotal b" "skBlockLen (absorb_piece pkt b) = skBlockLen b"
  "skFinal (absorb_piece pkt b) = skFinal b" "skReady (absorb_piece pkt b) = skReady b"
  by (simp_all add: absorb_piece_def split: prod.split option.split)

lemma absorb_piece_received: "length (bReceived (absorb_piece pkt b)) \<le> Suc (length (bReceived b))"
  by (simp add: absorb_piece_def length_gput split: prod.split option.split)

lemma no_pieces [simp]: "\<not> all_pieces F n {} idx"
  by (auto simp: all_pieces_def split: option.split intro: exI [of _ 0])

lemma pieces_inv_empty:
  "bReceived b = [] \<Longrightarrow> bChunks b = [] \<Longrightarrow> bSubParts b = [] \<Longrightarrow> pieces_inv F n {} b"
  by (simp add: pieces_inv_def held_parts_def elem_or_nil_def split: option.split)

lemma block_inv_new:
  assumes "genuine_at sp i pkt" and "0 < ssK sp" and "length (ssBlocks sp ! i) < 2 ^ 32"
  shows "block_inv sp {} i (new_block pkt)"
  using assms by (simp add: block_inv_def new_block_def genuine_at_def pieces_inv_empty uint_nat unat_u32_len)

lemma block_rebuilt:
  assumes sp: "spec_ok rs so sp" and i: "i < length (ssBlocks sp)" and p: "pieces_inv (ssShards sp i) (ssSub sp) S b"
    and k: "ssK sp \<le> int (length (bReceived b))" and b: "skTotal b = word_of_int (ssK sp + ssM sp)"
      "skBlockLen b = int (length (ssBlocks sp ! i))"
    and sa: "saDataShards sa = ssK sp" "saParityShards sa = ssM sp" "saID sa = ssTid sp" "opener_of c t sa = so"
  shows "reconstructBlock c rs t sa b = Some (Inr (ssBlocks sp ! i))"
proof -
  have r: "rebuilds rs so (ssK sp) (ssM sp) (ssTid sp) (ssShards sp i) (ssBlocks sp ! i)"
    using sp i by (simp add: spec_ok_def)
  have "gmap_ok (bChunks b)" "\<forall>idx. gget (bChunks b) idx = None \<or> gget (bChunks b) idx = ssShards sp i idx"
    using p by (auto simp: pieces_inv_def split: if_splits)
  then show ?thesis
    using r k received_count(2) [OF p] b sa unfolding rebuilds_def reconstructBlock_def opener_of_def by simp
qed

lemma sa_add_block:
  assumes sp: "spec_ok rs so sp" and g: "genuine_at sp i pkt" and b: "block_inv sp S i b" "\<not> skReady b"
    and sa: "saDataShards sa = ssK sp" "saParityShards sa = ssM sp" "saID sa = ssTid sp" "opener_of c t sa = so"
    and b': "b' = absorb_piece pkt b"
  shows "\<exists>res. (if u32_len (bReceived b') \<ge> word_of_int (saDataShards sa) then reconstructBlock c rs t sa b' else Some (Inl ErrIncomplete))
      = Some res \<and> block_inv sp (insert (pChunkNumber pkt, pSubIndex pkt) S) i
        (case res of Inl _ \<Rightarrow> b'
         | Inr data \<Rightarrow> b'\<lparr>skData := data, skReady := True, bReceived := [], bChunks := [], bSubParts := []\<rparr>)"
proof -
  have i: "i < length (ssBlocks sp)" and gp: "genuine_piece (ssShards sp i) (ssSub sp) pkt" using g by (simp_all add: genuine_at_def)
  have few: "few_pieces (ssShards sp i) (ssSub sp)" using sp i by (simp add: spec_ok_def)
  have inv: "pieces_inv (ssShards sp i) (ssSub sp) (insert (pChunkNumber pkt, pSubIndex pkt) S) b'"
    unfolding b' using b by (intro pieces_inv_step [OF _ gp few]) (simp add: block_inv_def)
  have len: "int (length (bReceived b')) \<le> ssK sp"
    using b absorb_piece_received [of pkt b] unfolding b' by (simp add: block_inv_def)
  have K: "0 < ssK sp" "ssK sp < 2 ^ 32" using sp by (simp_all add: spec_ok_def)
  have "unat (word_of_int (ssK sp) :: u32) = nat (ssK sp)" using K by (simp add: unat_eq_nat_uint uint_word_of_int)
  moreover have "unat (u32_len (bReceived b')) = length (bReceived b')" using len K by (intro unat_u32_len) simp
  ultimately have cond: "u32_len (bReceived b') \<ge> word_of_int (saDataShards sa) \<longleftrightarrow> ssK sp \<le> int (length (bReceived b'))"
    unfolding sa(1) by (auto simp: word_le_nat_alt)
  have bs: "skTotal b' = word_of_int (ssK sp + ssM sp)" "skBlockLen b' = int (length (ssBlocks sp ! i))"
    "skFinal b' = (Suc i = length (ssBlocks sp))" "\<not> skReady b'"
    using b unfolding b' by (simp_all add: block_inv_def)
  show ?thesis
  proof (cases "ssK sp \<le> int (length (bReceived b'))")
    case True
    then show ?thesis using cond block_rebuilt [OF sp i inv True bs(1,2) sa] bs by (simp add: block_inv_def)
  next
    case False
    then show ?thesis using cond bs inv by (simp add: block_inv_def)
  qed
qed

lemma blocks_inv_past:
  assumes "blocks_inv sp seen (length (ssBlocks sp)) blocks"
  shows "blocks_inv sp seen' (length (ssBlocks sp)) blocks"
  using assms unfolding blocks_inv_def by (auto split: option.splits)

lemma blocks_inv_ready:
  assumes inv: "blocks_inv sp seen f blocks" and b: "gget blocks (word_of_nat i) = Some b" "skReady b"
    and other: "\<And>j. j \<noteq> i \<Longrightarrow> seen' j = seen j"
  shows "blocks_inv sp seen' f blocks"
  unfolding blocks_inv_def
proof (intro allI impI)
  fix j assume j: "j < length (ssBlocks sp)"
  have *: "case gget blocks (word_of_nat j) of None \<Rightarrow> f \<le> j \<longrightarrow> seen j = {} | Some b \<Rightarrow> \<exists>S. block_inv sp S j b \<and> (f \<le> j \<longrightarrow> S = seen j)"
    using inv j by (simp add: blocks_inv_def)
  show "case gget blocks (word_of_nat j) of None \<Rightarrow> f \<le> j \<longrightarrow> seen' j = {} | Some b \<Rightarrow> \<exists>S. block_inv sp S j b \<and> (f \<le> j \<longrightarrow> S = seen' j)"
  proof (cases "j = i")
    case True
    then obtain S where "block_inv sp S i b" using * b by auto
    then have "block_inv sp (seen' i) i b" using b(2) by (simp add: block_inv_def)
    then show ?thesis using True b by auto
  next
    case False
    then show ?thesis using * other [OF False] by (simp split: option.splits)
  qed
qed

text \<open>One packet: the assembler never panics, and its invariant holds with the piece added.\<close>

lemma sa_add_spec:
  assumes sp: "spec_ok rs so sp" and inv: "sa_inv t c so sp seen sa" and dr: "saDone sa \<or> drained sa"
    and g: "genuine_at sp i pkt" and seen': "seen' = seen(i := insert (pChunkNumber pkt, pSubIndex pkt) (seen i))"
  shows "\<exists>sa' ev. sa_add c rs t now pkt sa = Some (sa', ev, saDone sa') \<and> sa_inv t c so sp seen' sa' \<and> same_end sa sa' \<and>
     (if saDone sa then sa' = sa \<and> ev = []
      else if saDone sa' then ev = snd (sa_finish t sa') else drained sa' \<and> ev = [])"
proof (cases "saDone sa")
  case True
  then have "sa_inv t c so sp seen' sa" using inv blocks_inv_past [of sp seen "saBlocks sa" seen'] by (auto simp: sa_inv_def)
  then show ?thesis using True by (simp add: sa_add_def)
next
  case nd: False
  let ?f = "unat (saNextFlush sa)" and ?sa = "sa\<lparr>saLastActivity := now\<rparr>"
  let ?b = "case gget (saBlocks sa) (pBlockIndex pkt) of None \<Rightarrow> new_block pkt | Some b \<Rightarrow> b"
  have i: "i < length (ssBlocks sp)" and bi: "pBlockIndex pkt = word_of_nat i" using g by (simp_all add: genuine_at_def)
  have L: "length (ssBlocks sp) < 2 ^ 32" and K: "0 < ssK sp" and bl: "length (ssBlocks sp ! i) < 2 ^ 32"
    using sp i by (simp_all add: spec_ok_def)
  have tab: "blocks_inv sp seen ?f (saBlocks sa)" using inv by (simp add: sa_inv_def)
  have other: "\<And>j. j \<noteq> i \<Longrightarrow> seen' j = seen j" by (simp add: seen')
  show ?thesis
  proof (cases "skReady ?b")
    case True
    then obtain b where b: "gget (saBlocks sa) (word_of_nat i) = Some b" "skReady b"
      using bi by (auto simp: new_block_def split: option.splits)
    have "sa_inv t c so sp seen' ?sa" using inv blocks_inv_ready [OF tab b other] by (simp add: sa_inv_def)
    then show ?thesis using nd dr True by (simp add: sa_add_def Let_def same_end_def drained_def)
  next
    case False
    obtain S where S: "block_inv sp S i ?b" "?f \<le> i \<longrightarrow> S = seen i"
    proof (cases "gget (saBlocks sa) (word_of_nat i)")
      case None
      then have "?f \<le> i \<longrightarrow> {} = seen i" using tab i by (auto simp: blocks_inv_def split: option.splits)
      then show ?thesis using that [of "{}"] block_inv_new [OF g K bl] None bi by simp
    next
      case (Some b)
      then have "\<exists>S. block_inv sp S i b \<and> (?f \<le> i \<longrightarrow> S = seen i)" using tab i by (auto simp: blocks_inv_def split: option.splits)
      then show ?thesis using that Some bi by auto
    qed
    have cfg: "saDataShards ?sa = ssK sp" "saParityShards ?sa = ssM sp" "saID ?sa = ssTid sp" "opener_of c t ?sa = so"
      using inv by (simp_all add: sa_inv_def)
    from sa_add_block [OF sp g S(1) False cfg refl] obtain res where res:
      "(if u32_len (bReceived (absorb_piece pkt ?b)) \<ge> word_of_int (saDataShards ?sa) then reconstructBlock c rs t ?sa (absorb_piece pkt ?b)
        else Some (Inl ErrIncomplete)) = Some res"
      and b2: "block_inv sp (insert (pChunkNumber pkt, pSubIndex pkt) S) i (case res of Inl _ \<Rightarrow> absorb_piece pkt ?b
         | Inr data \<Rightarrow> (absorb_piece pkt ?b)\<lparr>skData := data, skReady := True, bReceived := [], bChunks := [], bSubParts := []\<rparr>)"
      by blast
    define b' where "b' = (case res of Inl _ \<Rightarrow> absorb_piece pkt ?b
         | Inr data \<Rightarrow> (absorb_piece pkt ?b)\<lparr>skData := data, skReady := True, bReceived := [], bChunks := [], bSubParts := []\<rparr>)"
    let ?sa2 = "?sa\<lparr>saBlocks := gput (pBlockIndex pkt) b' (saBlocks sa)\<rparr>"
    have "?f \<le> i \<longrightarrow> insert (pChunkNumber pkt, pSubIndex pkt) S = seen' i" using S(2) by (simp add: seen')
    from blocks_inv_gput [OF tab i L b2 [folded b'_def] this other]
    have inv2: "sa_inv t c so sp seen' ?sa2" using inv bi by (simp add: sa_inv_def)
    obtain sa' ev where fl: "flushReady t ?sa2 = (sa', ev)" by force
    have "sa_add c rs t now pkt sa = Some (sa', ev, saDone sa')"
      using nd False res fl by (simp add: sa_add_def Let_def b'_def [symmetric])
    then show ?thesis
      using flushReady_spec [OF L inv2 _ fl] nd by (auto simp: same_end_def split: if_splits)
  qed
qed

text \<open>A run of the assembler over the packets of a stream, each with the time of its arrival.\<close>

fun sa_adds ::
  "crypto \<Rightarrow> reedsolomon \<Rightarrow> 'a config_scheme \<Rightarrow> (int \<times> packet) list \<Rightarrow> streamAssembler \<Rightarrow> (streamAssembler \<times> tevent list) option" where
  "sa_adds c rs t [] sa = Some (sa, [])"
| "sa_adds c rs t ((now, pkt) # ps) sa =
     (case sa_add c rs t now pkt sa of
        None \<Rightarrow> None
      | Some (sa, ev, _) \<Rightarrow> map_option (\<lambda>(sa, ev'). (sa, ev @ ev')) (sa_adds c rs t ps sa))"

definition pieces_at :: "(int \<times> packet) list \<Rightarrow> nat \<Rightarrow> (u32 \<times> u32) set" where
  "pieces_at ps i = (\<lambda>x. (pChunkNumber (snd x), pSubIndex (snd x))) ` {x \<in> set ps. pBlockIndex (snd x) = word_of_nat i}"

lemma pieces_at_Cons:
  "pieces_at ((now, pkt) # ps) i =
     (if pBlockIndex pkt = word_of_nat i then insert (pChunkNumber pkt, pSubIndex pkt) (pieces_at ps i) else pieces_at ps i)"
proof -
  have "{x \<in> set ((now, pkt) # ps). pBlockIndex (snd x) = word_of_nat i} =
      (if pBlockIndex pkt = word_of_nat i then insert (now, pkt) {x \<in> set ps. pBlockIndex (snd x) = word_of_nat i}
       else {x \<in> set ps. pBlockIndex (snd x) = word_of_nat i})" by auto
  then show ?thesis unfolding pieces_at_def by simp
qed

lemma sa_inv_seen:
  assumes "sa_inv t c so sp seen sa" and "\<And>i. i < length (ssBlocks sp) \<Longrightarrow> seen' i = seen i"
  shows "sa_inv t c so sp seen' sa"
proof -
  have "blocks_inv sp seen' (unat (saNextFlush sa)) (saBlocks sa)"
    unfolding blocks_inv_def
  proof (intro allI impI)
    fix i assume i: "i < length (ssBlocks sp)"
    show "case gget (saBlocks sa) (word_of_nat i) of None \<Rightarrow> unat (saNextFlush sa) \<le> i \<longrightarrow> seen' i = {}
      | Some b \<Rightarrow> \<exists>S. block_inv sp S i b \<and> (unat (saNextFlush sa) \<le> i \<longrightarrow> S = seen' i)"
      using assms(1) assms(2) [OF i] i by (auto simp: sa_inv_def blocks_inv_def split: option.splits)
  qed
  then show ?thesis using assms(1) by (simp add: sa_inv_def)
qed

lemma sa_adds_done: "saDone sa \<Longrightarrow> sa_adds c rs t ps sa = Some (sa, [])"
  by (induction ps) (auto simp: sa_add_def)

lemma sa_adds_spec:
  assumes sp: "spec_ok rs so sp"
  shows "sa_inv t c so sp seen sa \<Longrightarrow> saDone sa \<or> drained sa \<Longrightarrow> (\<And>x. x \<in> set ps \<Longrightarrow> \<exists>i. genuine_at sp i (snd x)) \<Longrightarrow>
     \<exists>sa' ev. sa_adds c rs t ps sa = Some (sa', ev) \<and> sa_inv t c so sp (\<lambda>i. seen i \<union> pieces_at ps i) sa' \<and> same_end sa sa' \<and>
       (saDone sa' \<or> drained sa') \<and>
       (if saDone sa then ev = [] else if saDone sa' then ev = snd (sa_finish t sa') else ev = [])"
proof (induction ps arbitrary: seen sa)
  case Nil
  then show ?case by (simp add: pieces_at_def)
next
  case (Cons x ps)
  obtain now pkt where x: "x = (now, pkt)" by force
  obtain i where g: "genuine_at sp i pkt" using Cons.prems(3) [of x] x by auto
  define seen1 where "seen1 = seen(i := insert (pChunkNumber pkt, pSubIndex pkt) (seen i))"
  from sa_add_spec [OF sp Cons.prems(1,2) g seen1_def] obtain sa1 ev1 where
    1: "sa_add c rs t now pkt sa = Some (sa1, ev1, saDone sa1)" "sa_inv t c so sp seen1 sa1" "same_end sa sa1"
      "if saDone sa then sa1 = sa \<and> ev1 = [] else if saDone sa1 then ev1 = snd (sa_finish t sa1) else drained sa1 \<and> ev1 = []"
    by blast
  have dr: "saDone sa1 \<or> drained sa1" using 1(4) by (auto split: if_splits)
  have g': "\<And>x. x \<in> set ps \<Longrightarrow> \<exists>i. genuine_at sp i (snd x)" using Cons.prems(3) by simp
  from Cons.IH [OF 1(2) dr g'] obtain sa' ev where
    2: "sa_adds c rs t ps sa1 = Some (sa', ev)" "sa_inv t c so sp (\<lambda>i. seen1 i \<union> pieces_at ps i) sa'" "same_end sa1 sa'"
      "saDone sa' \<or> drained sa'" "if saDone sa1 then ev = [] else if saDone sa' then ev = snd (sa_finish t sa') else ev = []"
    by blast
  have dn: "saDone sa1 \<Longrightarrow> sa' = sa1 \<and> ev = []" using sa_adds_done [of sa1 c rs t ps] 2(1) by auto
  have i: "i < length (ssBlocks sp)" "pBlockIndex pkt = word_of_nat i" using g by (simp_all add: genuine_at_def)
  have L: "length (ssBlocks sp) < 2 ^ 32" using sp by (simp add: spec_ok_def)
  have inv: "sa_inv t c so sp (\<lambda>j. seen j \<union> pieces_at (x # ps) j) sa'"
  proof (rule sa_inv_seen [OF 2(2)])
    fix j assume "j < length (ssBlocks sp)"
    then have "(word_of_nat i :: u32) = word_of_nat j \<longleftrightarrow> i = j" using i(1) L by (intro word_of_nat_block)
    then show "seen j \<union> pieces_at (x # ps) j = seen1 j \<union> pieces_at ps j"
      using i(2) by (auto simp: x pieces_at_Cons seen1_def)
  qed
  have run: "sa_adds c rs t (x # ps) sa = Some (sa', ev1 @ ev)" using 1(1) 2(1) by (simp add: x)
  have "if saDone sa then ev1 @ ev = [] else if saDone sa' then ev1 @ ev = snd (sa_finish t sa') else ev1 @ ev = []"
    using 1(4) 2(5) dn by (auto split: if_splits)
  then show ?case using run inv 2(4) same_end_trans [OF 1(3) 2(3)] by blast
qed

text \<open>Enough shards of every block complete the stream.\<close>

lemma enough_shards_done:
  assumes "spec_ok rs so sp" and "sa_inv t c so sp seen sa" and "saDone sa \<or> drained sa"
    and "\<And>i. i < length (ssBlocks sp) \<Longrightarrow> ssK sp \<le> int (card {idx. all_pieces (ssShards sp i) (ssSub sp) (seen i) idx})"
  shows "saDone sa"
proof (rule ccontr)
  assume nd: "\<not> saDone sa"
  let ?f = "unat (saNextFlush sa)"
  have f: "?f < length (ssBlocks sp)" and tab: "blocks_inv sp seen ?f (saBlocks sa)" using assms(2) nd by (auto simp: sa_inv_def)
  have K: "0 < ssK sp" using assms(1) by (simp add: spec_ok_def)
  note enough = assms(4) [OF f]
  have *: "case gget (saBlocks sa) (saNextFlush sa) of None \<Rightarrow> seen ?f = {} | Some b \<Rightarrow> block_inv sp (seen ?f) ?f b"
    using tab f by (force simp: blocks_inv_def split: option.splits)
  show False
  proof (cases "gget (saBlocks sa) (saNextFlush sa)")
    case None
    then show False using * enough K by simp
  next
    case (Some b)
    then have "\<not> skReady b" "block_inv sp (seen ?f) ?f b" using assms(3) nd * by (auto simp: drained_def)
    then show False
      using enough received_count(1) [of "ssShards sp ?f" "ssSub sp" "seen ?f" b] by (simp add: block_inv_def)
  qed
qed

section \<open>The blocks of a source\<close>

lemma Split_loop_shift: "Split_loop d c (i + j) = Split_loop (drop i d) c j"
proof (induction "drop i d" c j rule: Split_loop.induct)
  case (1 c j)
  show ?case
  proof (cases "j < length (drop i d) \<and> 0 < c")
    case True
    let ?e = "\<lambda>i l. if i + c > l then l else i + c"
    have IH: "Split_loop d c (i + j + c) = Split_loop (drop i d) c (j + c)" using 1 True by (simp add: Let_def add.assoc)
    have cut: "?e (i + j) (length d) - (i + j) = ?e j (length (drop i d)) - j" using True by auto
    have "Split_loop d c (i + j) = take (?e (i + j) (length d) - (i + j)) (drop (i + j) d) # Split_loop d c (i + j + c)"
      using True by (subst Split_loop.simps) (simp only: Let_def length_drop, simp, linarith)
    moreover have "Split_loop (drop i d) c j = take (?e j (length (drop i d)) - j) (drop j (drop i d)) # Split_loop (drop i d) c (j + c)"
      using True by (subst Split_loop.simps) (simp only: Let_def, simp)
    moreover have "drop j (drop i d) = drop (i + j) d" by (simp add: add.commute)
    ultimately show ?thesis using IH cut by metis
  next
    case False
    then show ?thesis by (subst (1 2) Split_loop.simps) auto
  qed
qed

lemma Split_Cons:
  assumes "0 < n" and "d \<noteq> []"
  shows "Split d (int n) = take n d # Split (drop n d) (int n)"
proof -
  have "Split_loop d n 0 = take n d # Split_loop d n n"
    using assms by (subst Split_loop.simps) (auto simp: Let_def)
  moreover have "Split_loop d n n = Split_loop (drop n d) n 0" using Split_loop_shift [of d n n 0] by simp
  moreover have "Split_loop [] n 0 = []" by (simp add: Split_loop.simps)
  ultimately show ?thesis using assms by (simp add: Split_def)
qed

lemma Split_Nil [simp]: "Split [] n = []"
  by (simp add: Split_def)

text \<open>The blocks given to \<^verbatim>\<open>emit\<close>, the last one marked as final.\<close>

fun emits :: "(u32 \<Rightarrow> bytes \<Rightarrow> bool \<Rightarrow> fragment list \<times> stream_error option) \<Rightarrow> u32 \<Rightarrow> bytes list \<Rightarrow> fragment list list \<Rightarrow> bool" where
  "emits emit bi [] outs \<longleftrightarrow> outs = []"
| "emits emit bi [d] outs \<longleftrightarrow> (\<exists>fs. outs = [fs] \<and> emit bi d True = (fs, None))"
| "emits emit bi (d # e # ds) outs \<longleftrightarrow>
     (\<exists>fs rest. outs = fs # rest \<and> emit bi d False = (fs, None) \<and> emits emit (bi + 1) (e # ds) rest)"

lemma stream_loop_emits:
  "0 < n \<Longrightarrow> \<not> srBroken r \<Longrightarrow> pf \<longrightarrow> srData r = [] \<Longrightarrow> stream_loop emit n bi prev pf r = (out, None) \<Longrightarrow>
   \<exists>outs. out = concat outs \<and> emits emit bi (prev # Split (srData r) (int n)) outs"
proof (induction "length (srData r)" arbitrary: bi prev pf r out rule: less_induct)
  case (less r bi prev pf out)
  show ?case
  proof (cases "srData r = []")
    case True
    then have "emit bi prev True = (out, None)"
      using less.prems by (subst (asm) stream_loop.simps) (auto simp: readBlock_def split: if_splits)
    then show ?thesis using True by (intro exI [of _ "[out]"]) simp
  next
    case False
    define next' where "next' = take n (srData r)"
    define pf' where "pf' = (length (srData r) < n)"
    define r' where "r' = r\<lparr>srData := drop n (srData r)\<rparr>"
    have rb: "readBlock n r = Inr (Some next', pf', r')"
      using less.prems(2) False by (auto simp: readBlock_def next'_def pf'_def r'_def)
    have npf: "\<not> pf" using less.prems(3) False by auto
    obtain o1 where o1: "emit bi prev False = (o1, None)"
      using less.prems(1,4) npf rb by (subst (asm) stream_loop.simps) (auto split: prod.splits option.splits)
    then obtain o2 where o2: "stream_loop emit n (bi + 1) next' pf' r' = (o2, None)" "out = o1 @ o2"
      using less.prems(1,4) npf rb by (subst (asm) stream_loop.simps) (auto split: prod.splits)
    have "\<exists>outs. o2 = concat outs \<and> emits emit (bi + 1) (next' # Split (srData r') (int n)) outs"
      using o2(1) less.prems(1,2) False by (intro less.hyps) (auto simp: r'_def pf'_def)
    then obtain outs where "o2 = concat outs" "emits emit (bi + 1) (next' # Split (srData r') (int n)) outs" by blast
    moreover have "Split (srData r) (int n) = next' # Split (srData r') (int n)"
      using Split_Cons [OF less.prems(1) False] by (simp add: next'_def r'_def)
    ultimately show ?thesis using o1 o2(2) by (intro exI [of _ "o1 # outs"]) simp
  qed
qed

lemma emits_nth:
  "emits emit bi ds outs \<Longrightarrow> length outs = length ds \<and>
   (\<forall>i < length ds. emit (bi + word_of_nat i) (ds ! i) (Suc i = length ds) = (outs ! i, None))"
proof (induction emit bi ds outs rule: emits.induct)
  case (3 emit bi d e ds outs)
  then obtain fs rest where o: "outs = fs # rest" "emit bi d False = (fs, None)" "emits emit (bi + 1) (e # ds) rest" by auto
  note IH = "3.IH" [OF o(3)]
  have "emit (bi + word_of_nat i) ((d # e # ds) ! i) (Suc i = length (d # e # ds)) = (outs ! i, None)" if "i < length (d # e # ds)" for i
  proof (cases i)
    case (Suc j)
    have "bi + word_of_nat i = bi + 1 + word_of_nat j" by (simp add: Suc)
    then show ?thesis using IH [THEN conjunct2, rule_format, of j] that Suc o(1) by (simp add: add.assoc)
  qed (use o in simp)
  then show ?case using IH o(1) by simp
qed auto

lemma send_all_ok [simp]: "send_all (\<lambda>_. True) fs = (fs, None)"
  by (induction fs) simp_all

text \<open>The blocks of a payload: its chunks, or one empty block.\<close>

definition stream_split :: "int \<Rightarrow> bytes \<Rightarrow> bytes list" where
  "stream_split n data = (if data = [] then [[]] else Split data n)"

definition block_size :: "'a config_scheme \<Rightarrow> int" where
  "block_size t = (if tcStreamBlockSize t \<le> 0 then defaultStreamBlockSize else tcStreamBlockSize t)"

lemma block_size_pos [simp]: "0 < block_size t"
  by (simp add: block_size_def defaultStreamBlockSize_def)

lemma streamBlocks_blocks:
  assumes "streamBlocks rs rnd t so (\<lambda>_. True) tid 0 \<lparr>srData = data, srBroken = False\<rparr> = (frags, None)"
  obtains outs where "frags = concat outs" "length outs = length (stream_split (block_size t) data)"
    "\<And>i. i < length outs \<Longrightarrow> encodeBlock rs (rnd (word_of_nat i)) t so tid (word_of_nat i) (stream_split (block_size t) data ! i)
        (Suc i = length outs) = Inr (outs ! i)"
proof -
  let ?emit = "emit_block rs rnd t so (\<lambda>_. True) tid" and ?n = "nat (block_size t)" and ?r = "\<lparr>srData = data, srBroken = False\<rparr>"
  have n: "0 < ?n" "int ?n = block_size t" using block_size_pos [of t] by linarith+
  have enc: "encodeBlock rs (rnd bi) t so tid bi d fin = Inr fs" if "?emit bi d fin = (fs, None)" for bi d fin fs
    using that by (simp add: emit_block_def split: sum.splits)
  have "\<exists>outs. frags = concat outs \<and> emits ?emit 0 (stream_split (block_size t) data) outs"
  proof (cases "data = []")
    case True
    then have "?emit 0 [] True = (frags, None)"
      using assms n by (simp add: streamBlocks_def readBlock_def block_size_def [symmetric] Let_def)
    then show ?thesis using True by (intro exI [of _ "[frags]"]) (simp add: stream_split_def)
  next
    case False
    let ?r' = "\<lparr>srData = drop ?n data, srBroken = False\<rparr>"
    have "readBlock ?n ?r = Inr (Some (take ?n data), length data < ?n, ?r')"
      using False by (auto simp: readBlock_def)
    then have "stream_loop ?emit ?n 0 (take ?n data) (length data < ?n) ?r' = (frags, None)"
      using assms by (simp add: streamBlocks_def block_size_def [symmetric] Let_def)
    from stream_loop_emits [OF n(1) _ _ this] show ?thesis
      using Split_Cons [OF n(1) False] n(2) False by (simp add: stream_split_def)
  qed
  then obtain outs where o: "frags = concat outs" "emits ?emit 0 (stream_split (block_size t) data) outs" by blast
  note nth = emits_nth [OF o(2)]
  show ?thesis
  proof (rule that [OF o(1)])
    show "length outs = length (stream_split (block_size t) data)" using nth by simp
    fix i assume "i < length outs"
    then show "encodeBlock rs (rnd (word_of_nat i)) t so tid (word_of_nat i) (stream_split (block_size t) data ! i)
        (Suc i = length outs) = Inr (outs ! i)"
      using nth by (intro enc) simp
  qed
qed

section \<open>End to end\<close>

lemma length_concat_ge: "[] \<notin> set xs \<Longrightarrow> length xs \<le> length (concat xs)"
proof (induction xs)
  case (Cons x xs)
  then have "Suc 0 \<le> length x" "length xs \<le> length (concat xs)" by (auto simp: Suc_le_eq)
  then show ?case unfolding list.size concat.simps length_append by linarith
qed simp

lemma length_concat_mem: "x \<in> set xs \<Longrightarrow> length x \<le> length (concat xs)"
  by (induction xs) auto

lemma length_Split_le: "length (Split d n) \<le> length d"
proof (cases "0 < n")
  case True
  have "[] \<notin> set (Split d n)" using Split_loop_chunks by (auto simp: Split_def)
  then show ?thesis using length_concat_ge [of "Split d n"] Join_Split [OF True, of d] by (simp add: Join_concat)
qed (simp add: Split_def)

lemma length_piece_payloads: "length p < 2 ^ 32 \<Longrightarrow> length (piece_payloads n p) < 2 ^ 32"
  using length_Split_le [of p n] by (simp add: piece_payloads_def)

lemma in_fragmentPieces:
  "p \<in> set (fragmentPieces f n) \<longleftrightarrow> (\<exists>j < length (piece_payloads n (fPayload f)).
     p = f\<lparr>fSubIndex := word_of_nat j, fSubTotal := u32_len (piece_payloads n (fPayload f)), fPayload := piece_payloads n (fPayload f) ! j\<rparr>)"
  unfolding fragmentPieces_eq
  by (auto simp: in_set_enumerate_eq image_iff intro!: bexI [of _ "(j, piece_payloads n (fPayload f) ! j)" for j])

lemma concat_nthE:
  assumes "f \<in> set (concat outs)"
  obtains i where "i < length outs" "f \<in> set (outs ! i)"
proof -
  obtain fs where "fs \<in> set outs" "f \<in> set fs" using assms by auto
  then show thesis using that by (metis in_set_conv_nth)
qed

text \<open>A packet that carries a piece of a streamed fragment.\<close>

definition carries_piece :: "packet \<Rightarrow> fragment \<Rightarrow> bool" where
  "carries_piece pkt p \<longleftrightarrow> pChunkNumber pkt = fIndex p \<and> pTotalChunks pkt = fTotal p \<and> pSubIndex pkt = fSubIndex p \<and>
     pSubTotal pkt = fSubTotal p \<and> pPayload pkt = fPayload p \<and> pBlockIndex pkt = fBlockIndex p \<and>
     pBlockLen pkt = fBlockLen p \<and> pFinal pkt = fFinal p"

text \<open>The fragments of one block, as sent.\<close>

definition sent_block :: "streamSpec \<Rightarrow> nat \<Rightarrow> fragment list \<Rightarrow> bool" where
  "sent_block sp i fs \<longleftrightarrow> ssShards sp i = frag_table fs \<and> length fs < 2 ^ 32 \<and> (\<forall>j < length fs. fIndex (fs ! j) = word_of_nat j) \<and>
     (\<forall>f \<in> set fs. fBlockIndex f = word_of_nat i \<and> fBlockLen f = u32_len (ssBlocks sp ! i) \<and>
        fFinal f = (Suc i = length (ssBlocks sp)) \<and> fTotal f = word_of_int (ssK sp + ssM sp))"

lemma sent_block_shard:
  assumes "sent_block sp i fs" and "f \<in> set fs"
  shows "ssShards sp i (fIndex f) = Some (fPayload f)" and "fs ! unat (fIndex f) = f"
proof -
  obtain j where j: "j < length fs" "f = fs ! j" using assms(2) by (auto simp: in_set_conv_nth)
  have "unat (fIndex f) = j" using assms(1) j by (simp add: sent_block_def unat_u32_of_nat)
  then show "ssShards sp i (fIndex f) = Some (fPayload f)" "fs ! unat (fIndex f) = f"
    using assms(1) j by (simp_all add: sent_block_def frag_table_def)
qed

lemma carried_genuine:
  assumes sb: "sent_block sp i fs" and i: "i < length (ssBlocks sp)" and f: "f \<in> set fs" and small: "length (fPayload f) < 2 ^ 32"
    and p: "p \<in> set (fragmentPieces f (ssSub sp))" and c: "carries_piece pkt p"
  shows "genuine_at sp i pkt"
proof -
  let ?P = "piece_payloads (ssSub sp) (fPayload f)"
  obtain j where j: "j < length ?P" "p = f\<lparr>fSubIndex := word_of_nat j, fSubTotal := u32_len ?P, fPayload := ?P ! j\<rparr>"
    using p unfolding in_fragmentPieces by blast
  have "unat (word_of_nat j :: u32) = j" using j(1) length_piece_payloads [OF small, of "ssSub sp"] by (simp add: unat_u32_of_nat)
  then have "genuine_piece (ssShards sp i) (ssSub sp) pkt"
    using j c sent_block_shard(1) [OF sb f] by (simp add: genuine_piece_def carries_piece_def)
  then show ?thesis using sb i f j c by (simp add: genuine_at_def carries_piece_def sent_block_def)
qed

lemma carried_complete:
  assumes sb: "sent_block sp i fs" and f: "f \<in> set fs"
    and all: "\<forall>p \<in> set (fragmentPieces f (ssSub sp)). \<exists>x \<in> set ps. carries_piece (snd x) p"
  shows "all_pieces (ssShards sp i) (ssSub sp) (pieces_at ps i) (fIndex f)"
proof -
  let ?P = "piece_payloads (ssSub sp) (fPayload f)"
  have "(fIndex f, word_of_nat j) \<in> pieces_at ps i" if "j < length ?P" for j
  proof -
    have "f\<lparr>fSubIndex := word_of_nat j, fSubTotal := u32_len ?P, fPayload := ?P ! j\<rparr> \<in> set (fragmentPieces f (ssSub sp))"
      unfolding in_fragmentPieces using that by blast
    then obtain x where "x \<in> set ps" "carries_piece (snd x) (f\<lparr>fSubIndex := word_of_nat j, fSubTotal := u32_len ?P, fPayload := ?P ! j\<rparr>)"
      using all by blast
    then show ?thesis using sb f unfolding pieces_at_def
      by (intro image_eqI [of _ _ x]) (simp_all add: carries_piece_def sent_block_def)
  qed
  then show ?thesis using sent_block_shard(1) [OF sb f] by (simp add: all_pieces_def)
qed

lemma carried_enough:
  assumes sb: "sent_block sp i fs"
  shows "card {f \<in> set fs. \<forall>p \<in> set (fragmentPieces f (ssSub sp)). \<exists>x \<in> set ps. carries_piece (snd x) p} \<le>
     card {idx. all_pieces (ssShards sp i) (ssSub sp) (pieces_at ps i) idx}" (is "card ?A \<le> card ?B")
proof -
  have "inj_on fIndex ?A" using sent_block_shard(2) [OF sb] by (intro inj_onI) (metis (lifting) mem_Collect_eq)
  moreover have "fIndex ` ?A \<subseteq> ?B" using carried_complete [OF sb, of _ ps] by auto
  ultimately show ?thesis by (intro card_inj_on_le) simp_all
qed

lemma sa_inv_new:
  assumes "0 < length (ssBlocks sp)" and "uint (pDataShards pkt) = ssK sp" and "uint (pParityShards pkt) = ssM sp" and "pID pkt = ssTid sp"
    and "opener_of c t (newStreamAssembler t now pkt) = so"
  shows "sa_inv t c so sp (\<lambda>_. {}) (newStreamAssembler t now pkt)" and "drained (newStreamAssembler t now pkt)"
  using assms by (auto simp: sa_inv_def newStreamAssembler_def sa_out_def blocks_inv_def drained_def)

lemma stream_spec_of_send:
  assumes law: "halves_law s o'" and rs: "rs_law rs (tcDataShards t) (tcParityShards t)"
    and km: "0 < tcDataShards t" "0 < tcParityShards t" "tcDataShards t + tcParityShards t < 2 ^ 32"
    and send: "streamBlocks rs rnd t (Some s) (\<lambda>_. True) tid 0 \<lparr>srData = data, srBroken = False\<rparr> = (frags, None)"
    and small: "length data < 2 ^ 32" "\<And>f. f \<in> set frags \<Longrightarrow> length (fPayload f) < 2 ^ 32"
  obtains outs where "frags = concat outs" "length outs = length (stream_split (block_size t) data)"
    "spec_ok rs (Some o') \<lparr>ssBlocks = stream_split (block_size t) data, ssShards = (\<lambda>i. frag_table (outs ! i)), ssSub = n,
       ssK = tcDataShards t, ssM = tcParityShards t, ssTid = tid\<rparr>"
    "\<And>i. i < length outs \<Longrightarrow> sent_block \<lparr>ssBlocks = stream_split (block_size t) data, ssShards = (\<lambda>i. frag_table (outs ! i)),
       ssSub = n, ssK = tcDataShards t, ssM = tcParityShards t, ssTid = tid\<rparr> i (outs ! i)"
proof -
  let ?B = "stream_split (block_size t) data"
  obtain outs where o: "frags = concat outs" "length outs = length ?B"
    "\<And>i. i < length outs \<Longrightarrow> encodeBlock rs (rnd (word_of_nat i)) t (Some s) tid (word_of_nat i) (?B ! i) (Suc i = length outs) = Inr (outs ! i)"
    using streamBlocks_blocks [OF send] by metis
  note enc = encodeBlock_rebuilds [OF law rs km o(3)]
  have len: "length (x :: bytes) \<le> length data" if "x \<in> set ?B" for x
  proof (cases "data = []")
    case False
    then have "concat ?B = data" using Join_Split [OF block_size_pos, of data t] by (simp add: stream_split_def Join_concat)
    then show ?thesis using length_concat_mem [OF that] by simp
  qed (use that in \<open>simp add: stream_split_def\<close>)
  have L: "0 < length ?B" "length ?B < 2 ^ 32"
    using length_Split_le [of data "block_size t"] small(1) Join_Split [OF block_size_pos, of data t]
    by (auto simp: stream_split_def Join_concat)
  have few: "few_pieces (frag_table (outs ! i)) n" if "i < length outs" for i
    unfolding few_pieces_def
  proof (intro allI impI)
    fix idx p assume "frag_table (outs ! i) idx = Some p"
    then have "outs ! i ! unat idx \<in> set (outs ! i)" "p = fPayload (outs ! i ! unat idx)"
      by (simp_all add: frag_table_def split: if_splits)
    then obtain f where f: "f \<in> set (outs ! i)" "p = fPayload f" by blast
    then have "f \<in> set frags" using that by (auto simp: o(1))
    then show "length (piece_payloads n p) < 2 ^ 32" using small(2) f(2) by (intro length_piece_payloads) simp
  qed
  have bl: "length (?B ! i) < 2 ^ 32" if "i < length ?B" for i using len [of "?B ! i"] that small(1) by simp
  show ?thesis
  proof (rule that [OF o(1,2)])
    show "spec_ok rs (Some o') \<lparr>ssBlocks = ?B, ssShards = (\<lambda>i. frag_table (outs ! i)), ssSub = n,
       ssK = tcDataShards t, ssM = tcParityShards t, ssTid = tid\<rparr>"
      using L km few bl enc(1) o(2) by (simp add: spec_ok_def)
    fix i assume i: "i < length outs"
    have "length (outs ! i) < 2 ^ 32" using enc(4) [OF i] km(3) by simp
    then show "sent_block \<lparr>ssBlocks = ?B, ssShards = (\<lambda>i. frag_table (outs ! i)), ssSub = n,
       ssK = tcDataShards t, ssM = tcParityShards t, ssTid = tid\<rparr> i (outs ! i)"
      using enc(2,3) [OF i] o(2) by (simp add: sent_block_def)
  qed
qed

text \<open>What a packet needs to be one of the stream, and when a block has enough of them.\<close>

lemma carried_somewhere:
  assumes sent: "\<And>i. i < length outs \<Longrightarrow> sent_block sp i (outs ! i)" and len: "length outs = length (ssBlocks sp)"
    and f: "f \<in> set (concat outs)" "length (fPayload f) < 2 ^ 32" "p \<in> set (fragmentPieces f (ssSub sp))" "carries_piece pkt p"
  shows "\<exists>i. genuine_at sp i pkt"
proof -
  obtain i where i: "i < length outs" "f \<in> set (outs ! i)" using f(1) by (rule concat_nthE)
  show ?thesis using carried_genuine [OF sent [OF i(1)] _ i(2) f(2-4)] i(1) len by auto
qed

lemma carried_block_enough:
  assumes sent: "\<And>i. i < length outs \<Longrightarrow> sent_block sp i (outs ! i)" and len: "length outs = length (ssBlocks sp)"
    and L: "length (ssBlocks sp) < 2 ^ 32" and i: "i < length (ssBlocks sp)"
    and enough: "k \<le> int (card {f \<in> set (concat outs). fBlockIndex f = word_of_nat i \<and>
        (\<forall>p \<in> set (fragmentPieces f (ssSub sp)). \<exists>x \<in> set ps. carries_piece (snd x) p)})" (is "k \<le> int (card ?X)")
  shows "k \<le> int (card {idx. all_pieces (ssShards sp i) (ssSub sp) (pieces_at ps i) idx})"
proof -
  let ?Y = "{f \<in> set (outs ! i). \<forall>p \<in> set (fragmentPieces f (ssSub sp)). \<exists>x \<in> set ps. carries_piece (snd x) p}"
  have "?X \<subseteq> ?Y"
  proof
    fix f assume f: "f \<in> ?X"
    then have "f \<in> set (concat outs)" by simp
    then obtain j where j: "j < length outs" "f \<in> set (outs ! j)" by (rule concat_nthE)
    then have "(word_of_nat j :: u32) = word_of_nat i" using sent [OF j(1)] f by (auto simp: sent_block_def)
    then have "j = i" using j(1) i len L word_of_nat_block [of j "length (ssBlocks sp)" i] by simp
    then show "f \<in> ?Y" using f j by simp
  qed
  then have "card ?X \<le> card ?Y" by (intro card_mono) auto
  moreover have "card ?Y \<le> card {idx. all_pieces (ssShards sp i) (ssSub sp) (pieces_at ps i) idx}"
    using carried_enough [OF sent [of i], of ps] i len by simp
  ultimately show ?thesis using enough by linarith
qed

lemma finish_events:
  assumes "same_end (newStreamAssembler r now pkt) sa" and "saID sa = pID pkt"
  shows "snd (sa_finish r sa) =
     (if tcStreamSink r (pID pkt) then [CloseSink (pID pkt)] else if tcOnData r then [OnData (sa_out sa) False] else []) @
     (if pReplyBlock pkt \<noteq> [] then [AckReply (pReplyBlock pkt)]
      else if pSourceNode pkt \<noteq> [] then [AckDirect (pSourceNode pkt) (pID pkt)] else [])"
  using assms by (cases "saSink sa") (auto simp: sa_finish_def same_end_def newStreamAssembler_def sa_out_def split: if_splits)

section \<open>Properties\<close>

text \<open>
  C13. A stream arrives whole, end to end. Whatever pieces of the fragments of \<^verbatim>\<open>streamBlocks\<close> reach the
  assembler, in whatever order and with whatever repetitions and losses, it does not fail and what
  it has written is a prefix of the payload. Once dataShards of the shards of every block have
  arrived in full it is done: exactly the payload was written, the sink was closed or the callback
  called exactly once, and the acknowledgement sent.
\<close>

theorem stream_end_to_end:
  assumes "halves_law s o'" and "rs_law rs (tcDataShards t) (tcParityShards t)"
    and "0 < tcDataShards t" "0 < tcParityShards t" "tcDataShards t + tcParityShards t < 2 ^ 32"
    and "streamBlocks rs rnd t (Some s) (\<lambda>_. True) tid 0 \<lparr>srData = data, srBroken = False\<rparr> = (frags, None)"
    and "length data < 2 ^ 32" "\<And>f. f \<in> set frags \<Longrightarrow> length (fPayload f) < 2 ^ 32"
    and "pID pkt = tid" "uint (pDataShards pkt) = tcDataShards t" "uint (pParityShards pkt) = tcParityShards t"
    and "recipientOpener c r (schemeFromPacket pkt) = Some o'"
    and "\<And>x. x \<in> set ps \<Longrightarrow> \<exists>f \<in> set frags. \<exists>p \<in> set (fragmentPieces f n). carries_piece (snd x) p"
  shows "\<exists>sa ev. sa_adds c rs r ps (newStreamAssembler r now pkt) = Some (sa, ev) \<and> prefix (sa_out sa) data \<and>
    ((\<forall>b < length (stream_split (block_size t) data). tcDataShards t \<le> int (card {f \<in> set frags. fBlockIndex f = word_of_nat b \<and>
        (\<forall>p \<in> set (fragmentPieces f n). \<exists>x \<in> set ps. carries_piece (snd x) p)})) \<longrightarrow>
      saDone sa \<and> sa_out sa = data \<and>
      ev = (if tcStreamSink r tid then [CloseSink tid] else if tcOnData r then [OnData data False] else []) @
           (if pReplyBlock pkt \<noteq> [] then [AckReply (pReplyBlock pkt)]
            else if pSourceNode pkt \<noteq> [] then [AckDirect (pSourceNode pkt) tid] else []))"
proof -
  let ?B = "stream_split (block_size t) data" and ?sa0 = "newStreamAssembler r now pkt"
  obtain outs where o: "frags = concat outs" "length outs = length ?B"
    "spec_ok rs (Some o') \<lparr>ssBlocks = ?B, ssShards = (\<lambda>i. frag_table (outs ! i)), ssSub = n,
       ssK = tcDataShards t, ssM = tcParityShards t, ssTid = tid\<rparr>"
    "\<And>i. i < length outs \<Longrightarrow> sent_block \<lparr>ssBlocks = ?B, ssShards = (\<lambda>i. frag_table (outs ! i)),
       ssSub = n, ssK = tcDataShards t, ssM = tcParityShards t, ssTid = tid\<rparr> i (outs ! i)"
    using stream_spec_of_send [OF assms(1-8)] by metis
  define sp where "sp = \<lparr>ssBlocks = ?B, ssShards = (\<lambda>i. frag_table (outs ! i)), ssSub = n,
       ssK = tcDataShards t, ssM = tcParityShards t, ssTid = tid\<rparr>"
  note sp = o(3) [folded sp_def] and sent = o(4) [folded sp_def]
  have B: "ssBlocks sp = ?B" "ssSub sp = n" "ssK sp = tcDataShards t" "ssM sp = tcParityShards t" "ssTid sp = tid"
    by (simp_all add: sp_def)
  have L: "0 < length (ssBlocks sp)" "length (ssBlocks sp) < 2 ^ 32" using sp by (simp_all add: spec_ok_def)
  have data: "concat ?B = data" using Join_Split [OF block_size_pos, of data t] by (simp add: stream_split_def Join_concat)
  have opener: "opener_of c r ?sa0 = Some o'"
    using assms(12) by (simp add: opener_of_def recipientOpener_def newStreamAssembler_def schemeFromPacket_def split: if_splits)
  have inv0: "sa_inv r c (Some o') sp (\<lambda>_. {}) ?sa0" "drained ?sa0"
    using sa_inv_new [OF L(1) _ _ _ opener] assms(9-11) B by simp_all
  have gen: "\<exists>i. genuine_at sp i (snd x)" if x: "x \<in> set ps" for x
  proof -
    obtain f p where f: "f \<in> set frags" "p \<in> set (fragmentPieces f n)" "carries_piece (snd x) p" using assms(13) [OF x] by blast
    show ?thesis by (rule carried_somewhere [OF sent, of f p]) (use f assms(8) o(1,2) B in simp_all)
  qed
  from sa_adds_spec [OF sp inv0(1) disjI2 [OF inv0(2)], of ps, OF gen] obtain sa ev where
    run: "sa_adds c rs r ps ?sa0 = Some (sa, ev)" and inv: "sa_inv r c (Some o') sp (pieces_at ps) sa" and se: "same_end ?sa0 sa"
    and dr: "saDone sa \<or> drained sa" and ev: "if saDone ?sa0 then ev = [] else if saDone sa then ev = snd (sa_finish r sa) else ev = []"
    by auto
  have out: "sa_out sa = concat (take (unat (saNextFlush sa)) ?B)" using inv B by (simp add: sa_inv_def)
  have "data = concat (take (unat (saNextFlush sa)) ?B) @ concat (drop (unat (saNextFlush sa)) ?B)"
    unfolding concat_append [symmetric] append_take_drop_id data ..
  then have pre: "prefix (sa_out sa) data" unfolding out by (intro prefixI)
  have fin: "saDone sa \<and> sa_out sa = data \<and>
      ev = (if tcStreamSink r tid then [CloseSink tid] else if tcOnData r then [OnData data False] else []) @
           (if pReplyBlock pkt \<noteq> [] then [AckReply (pReplyBlock pkt)]
            else if pSourceNode pkt \<noteq> [] then [AckDirect (pSourceNode pkt) tid] else [])"
    if enough: "\<forall>b < length ?B. tcDataShards t \<le> int (card {f \<in> set frags. fBlockIndex f = word_of_nat b \<and>
        (\<forall>p \<in> set (fragmentPieces f n). \<exists>x \<in> set ps. carries_piece (snd x) p)})"
  proof -
    have k: "ssK sp \<le> int (card {idx. all_pieces (ssShards sp i) (ssSub sp) (pieces_at ps i) idx})" if "i < length (ssBlocks sp)" for i
      by (rule carried_block_enough [OF sent _ L(2) that]) (use enough that o(1,2) B in simp_all)
    have dn: "saDone sa" using enough_shards_done [OF sp inv dr k] .
    then have "sa_out sa = data" using inv B data by (simp add: sa_inv_def)
    moreover have "ev = snd (sa_finish r sa)" using ev dn by (simp add: newStreamAssembler_def)
    moreover have "saID sa = pID pkt" using inv B assms(9) by (simp add: sa_inv_def)
    ultimately show ?thesis using dn finish_events [OF se] assms(9) by simp
  qed
  show ?thesis using run pre fin by blast
qed

definition sample_config :: config where
  "sample_config = \<lparr>tcSelfID = ''n'', tcSealer = Some sample_sealer, tcNodePriv = None, tcMlkemDecap = None, tcSealToRecipient = False,
     tcPostQuantum = False, tcDataShards = 1, tcParityShards = 1, tcSubChunkSize = 0, tcStreamBlockSize = 2,
     tcStreamSink = (\<lambda>_. False), tcOnData = True, tcPadCell = 0\<rparr>"

definition sample_stream :: "fragment list \<times> stream_error option" where
  "sample_stream = streamBlocks sample_rs (\<lambda>_ _. []) sample_config (Some sample_sealer) (\<lambda>_. True) [5] 0
     \<lparr>srData = [7, 8, 9], srBroken = False\<rparr>"

definition piece_packet :: "fragment \<Rightarrow> packet" where
  "piece_packet f = zero_packet\<lparr>pID := [5], pDataShards := 1, pParityShards := 1, pChunkNumber := fIndex f, pTotalChunks := fTotal f,
     pSubIndex := 0, pSubTotal := 1, pPayload := fPayload f, pBlockIndex := fBlockIndex f, pBlockLen := fBlockLen f, pFinal := fFinal f\<rparr>"

lemma sample_stream_facts:
  "snd sample_stream = None" "length (fst sample_stream) = 4" "map fBlockIndex (fst sample_stream) = [0, 0, 1, 1]"
  "list_all (\<lambda>f. length (fPayload f) < 100) (fst sample_stream)"
  by code_simp+

theorem stream_end_to_end_witness:
  "\<exists>sa ev. sa_adds sample_crypto sample_rs sample_config
       [(2, piece_packet (fst sample_stream ! 3)), (3, piece_packet (fst sample_stream ! 0))]
       (newStreamAssembler sample_config 1 (piece_packet (fst sample_stream ! 3))) = Some (sa, ev) \<and>
     sa_out sa = [7, 8, 9] \<and> ev = [OnData [7, 8, 9] False]"
proof -
  let ?fs = "fst sample_stream" and ?t = sample_config
  let ?ps = "[(2, piece_packet (?fs ! 3)), (3, piece_packet (?fs ! 0))] :: (int \<times> packet) list"
  have run: "streamBlocks sample_rs (\<lambda>_ _. []) ?t (Some sample_sealer) (\<lambda>_. True) [5] 0 \<lparr>srData = [7, 8, 9], srBroken = False\<rparr> = (?fs, None)"
    using sample_stream_facts(1) unfolding sample_stream_def by (metis prod.collapse)
  have law: "halves_law sample_sealer sample_sealer" using sealer_law_sample by (simp add: halves_law_def sealer_law_def)
  have cfg: "tcDataShards ?t = 1" "tcParityShards ?t = 1" "tcSealer ?t = Some sample_sealer" "tcOnData ?t" "\<not> tcStreamSink ?t x"
    "block_size ?t = 2" for x by (simp_all add: sample_config_def block_size_def)
  have bi: "fBlockIndex (?fs ! 0) = 0" "fBlockIndex (?fs ! 3) = 1"
    using arg_cong [OF sample_stream_facts(3), of "\<lambda>xs. xs ! 0"] arg_cong [OF sample_stream_facts(3), of "\<lambda>xs. xs ! 3"]
      sample_stream_facts(2) by simp_all
  have mem: "?fs ! 0 \<in> set ?fs" "?fs ! 3 \<in> set ?fs" using sample_stream_facts(2) by simp_all
  have pc: "fragmentPieces f 0 = [f\<lparr>fSubIndex := 0, fSubTotal := 1\<rparr>]" for f by (simp add: fragmentPieces_def)
  have car: "carries_piece (piece_packet f) (f\<lparr>fSubIndex := 0, fSubTotal := 1\<rparr>)" for f
    by (simp add: carries_piece_def piece_packet_def)
  have small: "length (fPayload f) < 2 ^ 32" if "f \<in> set ?fs" for f
    using sample_stream_facts(4) that by (fastforce simp: list_all_iff)
  have sp: "stream_split 2 [7, 8, 9 :: byte] = [[7, 8], [9]]" by (simp add: stream_split_def Split_def Split_loop.simps)
  have one: "1 \<le> int (card {f \<in> set ?fs. fBlockIndex f = word_of_nat b \<and>
      (\<forall>p \<in> set (fragmentPieces f 0). \<exists>x \<in> set ?ps. carries_piece (snd x) p)})" if "b < 2" for b
  proof -
    have "\<exists>f \<in> set ?fs. fBlockIndex f = word_of_nat b \<and> (\<forall>p \<in> set (fragmentPieces f 0). \<exists>x \<in> set ?ps. carries_piece (snd x) p)"
    proof (cases "b = 0")
      case True
      then show ?thesis using bi mem car by (intro bexI [of _ "?fs ! 0"]) (simp_all add: pc)
    next
      case False
      then have "b = 1" using that by simp
      then show ?thesis using bi mem car by (intro bexI [of _ "?fs ! 3"]) (simp_all add: pc)
    qed
    then have "0 < card {f \<in> set ?fs. fBlockIndex f = word_of_nat b \<and>
      (\<forall>p \<in> set (fragmentPieces f 0). \<exists>x \<in> set ?ps. carries_piece (snd x) p)}" by (intro card_gt_0_iff [THEN iffD2]) auto
    then show ?thesis by linarith
  qed
  have "\<exists>sa ev. sa_adds sample_crypto sample_rs ?t ?ps (newStreamAssembler ?t 1 (piece_packet (?fs ! 3))) = Some (sa, ev) \<and>
      prefix (sa_out sa) [7, 8, 9] \<and>
      ((\<forall>b < length (stream_split (block_size ?t) [7, 8, 9]). tcDataShards ?t \<le> int (card {f \<in> set ?fs. fBlockIndex f = word_of_nat b \<and>
          (\<forall>p \<in> set (fragmentPieces f 0). \<exists>x \<in> set ?ps. carries_piece (snd x) p)})) \<longrightarrow>
        saDone sa \<and> sa_out sa = [7, 8, 9] \<and>
        ev = (if tcStreamSink ?t [5] then [CloseSink [5]] else if tcOnData ?t then [OnData [7, 8, 9] False] else []) @
             (if pReplyBlock (piece_packet (?fs ! 3)) \<noteq> [] then [AckReply (pReplyBlock (piece_packet (?fs ! 3)))]
              else if pSourceNode (piece_packet (?fs ! 3)) \<noteq> [] then [AckDirect (pSourceNode (piece_packet (?fs ! 3))) [5]] else []))"
    by (rule stream_end_to_end [OF law _ _ _ _ run])
      (use rs_law_sample cfg mem small car in \<open>auto simp: pc piece_packet_def zero_packet_def recipientOpener_def schemeFromPacket_def carries_piece_def\<close>)
  then obtain sa ev where ok: "sa_adds sample_crypto sample_rs ?t ?ps (newStreamAssembler ?t 1 (piece_packet (?fs ! 3))) = Some (sa, ev)"
    and fin: "(\<forall>b < length (stream_split (block_size ?t) [7, 8, 9]). tcDataShards ?t \<le> int (card {f \<in> set ?fs. fBlockIndex f = word_of_nat b \<and>
          (\<forall>p \<in> set (fragmentPieces f 0). \<exists>x \<in> set ?ps. carries_piece (snd x) p)})) \<longrightarrow>
        saDone sa \<and> sa_out sa = [7, 8, 9] \<and>
        ev = (if tcStreamSink ?t [5] then [CloseSink [5]] else if tcOnData ?t then [OnData [7, 8, 9] False] else []) @
             (if pReplyBlock (piece_packet (?fs ! 3)) \<noteq> [] then [AckReply (pReplyBlock (piece_packet (?fs ! 3)))]
              else if pSourceNode (piece_packet (?fs ! 3)) \<noteq> [] then [AckDirect (pSourceNode (piece_packet (?fs ! 3))) [5]] else [])"
    by blast
  have len: "length (stream_split (block_size ?t) [7, 8, 9 :: byte]) = 2" using sp cfg(6) by simp
  have rb: "pReplyBlock (piece_packet f) = []" "pSourceNode (piece_packet f) = []" for f
    by (simp_all add: piece_packet_def zero_packet_def)
  have "\<forall>b < length (stream_split (block_size ?t) [7, 8, 9 :: byte]). tcDataShards ?t \<le> int (card {f \<in> set ?fs. fBlockIndex f = word_of_nat b \<and>
          (\<forall>p \<in> set (fragmentPieces f 0). \<exists>x \<in> set ?ps. carries_piece (snd x) p)})"
    unfolding len cfg(1) using one by blast
  note res = mp [OF fin this]
  then have "ev = [OnData [7, 8, 9] False]" using cfg(4,5) rb by simp
  then show ?thesis using ok res by blast
qed

end
