(* ===== verification/Delivery.thy ===== *)
theory Delivery
  imports Streaming
begin

text \<open>
  The receiving side of the transfer service (\<^verbatim>\<open>internal/transfer/transfer.go\<close>): inbound connections,
  onion blobs, fragments that arrive one by one over relays, reassembly, delivery, and the
  acknowledgements of the node's own transfers.

  The state of the service is the record \<open>transferSvc\<close>, which extends the configuration. A packet that
  panics is the result \<open>None\<close>. A connection is the list of the packets that can be read from it, and
  writes to it succeed. What is handed to a callback, to another component or to the peer is an
  event of \<open>tOut\<close>, in order.
\<close>

section \<open>State\<close>

record transferState = pieces +
  xID :: bytes
  xTotal :: u32
  xScheme :: scheme
  xSourceNode :: string
  xReplyBlock :: bytes
  xRouted :: bool
  xStream :: "streamAssembler option"
  xDelivered :: bool
  xStartTime :: int

record pendingAck =
  paDestKey :: bytes
  paToken :: bytes
  paDest :: string
  paExpires :: int
  paLate :: bool

record transferSvc = config +
  tTransfers :: "(bytes, transferState) gomap"
  tPendingAcks :: "(bytes, pendingAck) gomap"
  tProbes :: "(bytes, unit) gomap"
  tOnDelivered :: bool
  tDiscovery :: bool \<comment> \<open>whether there is a discovery service\<close>
  tOut :: "tevent list"

record tenv =
  teCrypto :: crypto
  teRS :: reedsolomon
  teEd :: ed25519
  teSha256 :: "bytes \<Rightarrow> bytes"
  teNow :: int
  teAckOrder :: "(bytes \<times> pendingAck) list \<Rightarrow> (bytes \<times> pendingAck) list" \<comment> \<open>the order of \<^verbatim>\<open>range\<close>\<close>
  teStateOrder :: "(bytes \<times> transferState) list \<Rightarrow> (bytes \<times> transferState) list"

definition temit :: "tevent list \<Rightarrow> transferSvc \<Rightarrow> transferSvc" where
  "temit ev t = t\<lparr>tOut := tOut t @ ev\<rparr>"

definition lateAckTTL :: int where "lateAckTTL = 30 * 60 * 1000000000"
definition maxLateAcks :: nat where "maxLateAcks = 4096"
definition ackRedundancy :: nat where "ackRedundancy = 3"
definition maxRetainedStreams :: nat where "maxRetainedStreams = 512"
definition resumableStreamTTL :: int where "resumableStreamTTL = 3600 * 1000000000"

section \<open>Acknowledgements of own transfers\<close>

definition registerAck :: "bytes \<Rightarrow> bytes \<Rightarrow> bytes \<Rightarrow> transferSvc \<Rightarrow> transferSvc" where
  "registerAck i destKey token t =
     t\<lparr>tPendingAcks := gput i \<lparr>paDestKey = destKey, paToken = token, paDest = [], paExpires = 0, paLate = False\<rparr> (tPendingAcks t)\<rparr>"

definition unregisterAck :: "bytes \<Rightarrow> transferSvc \<Rightarrow> transferSvc" where
  "unregisterAck i t = t\<lparr>tPendingAcks := gdel i (tPendingAcks t)\<rparr>"

definition expires_before :: "bytes \<times> pendingAck \<Rightarrow> bytes \<times> pendingAck \<Rightarrow> bool" where
  "expires_before x y \<longleftrightarrow> paExpires (snd x) < paExpires (snd y)"

text \<open>The loop that drops the late registration expiring first while there are too many.\<close>

function evict_late ::
  "((bytes \<times> pendingAck) list \<Rightarrow> (bytes \<times> pendingAck) list) \<Rightarrow> (bytes, pendingAck) gomap \<Rightarrow> (bytes, pendingAck) gomap" where
  "evict_late iter m =
     (if length m \<le> maxLateAcks then m
      else case pick_least expires_before None (filter (\<lambda>x. paLate (snd x)) (iter m)) of
             None \<Rightarrow> m
           | Some x \<Rightarrow> let m' = gdel (fst x) m in if length m' < length m then evict_late iter m' else m')"
  by pat_completeness auto

termination
  by (relation "measure (\<lambda>(iter, m). length m)") auto

declare evict_late.simps [simp del]

definition retainForLateAck :: "tenv \<Rightarrow> bytes \<Rightarrow> string \<Rightarrow> transferSvc \<Rightarrow> transferSvc" where
  "retainForLateAck e i dest t =
     (case gget (tPendingAcks t) i of
        None \<Rightarrow> t
      | Some pa \<Rightarrow>
          let pa = pa\<lparr>paDest := dest, paExpires := teNow e + lateAckTTL, paLate := True\<rparr>;
              m = gput i pa (tPendingAcks t);
              m = filter (\<lambda>x. \<not> (paLate (snd x) \<and> teNow e > paExpires (snd x))) m
          in t\<lparr>tPendingAcks := evict_late (teAckOrder e) m\<rparr>)"

definition resolveAck :: "bytes \<Rightarrow> (pendingAck \<Rightarrow> bool) \<Rightarrow> transferSvc \<Rightarrow> transferSvc" where
  "resolveAck i accept t =
     (case gget (tPendingAcks t) i of
        None \<Rightarrow> t
      | Some pa \<Rightarrow>
          if \<not> accept pa then t
          else let t = t\<lparr>tPendingAcks := gdel i (tPendingAcks t)\<rparr> in
            if paLate pa then (if tOnDelivered t then temit [OnDelivered i (paDest pa)] t else t)
            else temit [AckSignal i] t)"

definition signalAckFrom :: "bytes \<Rightarrow> bytes \<Rightarrow> transferSvc \<Rightarrow> transferSvc" where
  "signalAckFrom i signerKey = resolveAck i (\<lambda>pa. length (paDestKey pa) > 0 \<and> paDestKey pa = signerKey)"

definition signalAckToken :: "bytes \<Rightarrow> bytes \<Rightarrow> transferSvc \<Rightarrow> transferSvc" where
  "signalAckToken i token = resolveAck i (\<lambda>pa. length (paToken pa) > 0 \<and> paToken pa = token)"

definition registerProbe :: "bytes \<Rightarrow> transferSvc \<Rightarrow> transferSvc" where
  "registerProbe i t = t\<lparr>tProbes := gput i () (tProbes t)\<rparr>"

definition unregisterProbe :: "bytes \<Rightarrow> transferSvc \<Rightarrow> transferSvc" where
  "unregisterProbe i t = t\<lparr>tProbes := gdel i (tProbes t)\<rparr>"

definition signalProbe :: "bytes \<Rightarrow> transferSvc \<Rightarrow> transferSvc \<times> bool" where
  "signalProbe i t =
     (case gget (tProbes t) i of
        None \<Rightarrow> (t, False)
      | Some _ \<Rightarrow> (temit [ProbeHome i] (t\<lparr>tProbes := gdel i (tProbes t)\<rparr>), True))"

section \<open>Reassembly and delivery\<close>

definition isCompleteLocked :: "transferState \<Rightarrow> bool" where
  "isCompleteLocked st =
     (if u32_len (bReceived st) \<noteq> xTotal st then False
      else list_all (\<lambda>i. is_set (bReceived st) (word_of_nat i)) [0..<unat (xTotal st)])"

definition isTransferComplete :: "transferState \<Rightarrow> bool" where
  "isTransferComplete st = (case xStream st of Some sa \<Rightarrow> saDone sa | None \<Rightarrow> isCompleteLocked st)"

definition enoughToReassembleLocked :: "transferState \<Rightarrow> bool" where
  "enoughToReassembleLocked st =
     (if scDataShards (xScheme st) > 0 then u32_len (bReceived st) \<ge> scDataShards (xScheme st) else isCompleteLocked st)"

fun add_chunks :: "bytes \<Rightarrow> u32 \<Rightarrow> (u32, bytes) gomap \<Rightarrow> nat list \<Rightarrow> reassembler \<Rightarrow> frag_error + reassembler" where
  "add_chunks tid tot chunks [] r = Inr r"
| "add_chunks tid tot chunks (i # js) r =
     (case Add r (mk_fragment tid (word_of_nat i) tot (elem_or_nil chunks (word_of_nat i))) of
        (_, Some err) \<Rightarrow> Inl err
      | (r, None) \<Rightarrow> add_chunks tid tot chunks js r)"

definition reassembleChunks :: "sealer option \<Rightarrow> bytes \<Rightarrow> u32 \<Rightarrow> (u32, bytes) gomap \<Rightarrow> frag_error + bytes" where
  "reassembleChunks so tid tot chunks =
     (case so of
        Some s \<Rightarrow>
          (case add_chunks tid tot chunks [0..<unat tot] (NewReassembler s tot) of
             Inl err \<Rightarrow> Inl err
           | Inr r \<Rightarrow> Assemble r tid)
      | None \<Rightarrow> Inr (Join (map (\<lambda>i. elem_or_nil chunks (word_of_nat i)) [0..<unat tot])))"

definition reassemble :: "tenv \<Rightarrow> 'a config_scheme \<Rightarrow> transferState \<Rightarrow> bytes option option" where
  "reassemble e t st =
     (let so = recipientOpener (teCrypto e) t (xScheme st) in
      if scDataShards (xScheme st) > 0
      then map_option ok_value
             (rs_rebuild (teRS e) so (uint (scDataShards (xScheme st))) (uint (scParityShards (xScheme st)))
                (sint (scOriginalLen (xScheme st))) (xID st) (xTotal st) (bChunks st))
      else Some (ok_value (reassembleChunks so (xID st) (xTotal st) (bChunks st))))"

definition ackSenders :: "transferSvc \<Rightarrow> transferState \<Rightarrow> tevent list" where
  "ackSenders t st =
     (if xReplyBlock st \<noteq> [] then [AckReply (xReplyBlock st)] else []) @
     (if xSourceNode st \<noteq> []
      then if xRouted st \<and> tDiscovery t then [AckRouted (xSourceNode st) (xID st)]
           else if \<not> xRouted st then [AckDirect (xSourceNode st) (xID st)] else []
      else [])"

definition ackWithRedundancy :: "transferSvc \<Rightarrow> transferState \<Rightarrow> tevent list" where
  "ackWithRedundancy t st = concat (replicate ackRedundancy (ackSenders t st))"

definition tdispatch :: "transferState \<Rightarrow> bytes \<Rightarrow> transferSvc \<Rightarrow> transferSvc" where
  "tdispatch st data t =
     temit ((if tcOnData t then [OnData data (scVariable (xScheme st))] else []) @ ackWithRedundancy t st) t"

definition tdeliver :: "tenv \<Rightarrow> transferState \<Rightarrow> transferSvc \<Rightarrow> (transferSvc \<times> bool) option" where
  "tdeliver e st t =
     (if xStream st \<noteq> None then Some (t, isTransferComplete st)
      else case reassemble e t st of
             None \<Rightarrow> None
           | Some None \<Rightarrow> Some (t, False)
           | Some (Some data) \<Rightarrow> Some (tdispatch st data t, True))"

section \<open>Fragments that arrive over relays\<close>

definition new_state :: "tenv \<Rightarrow> packet \<Rightarrow> bytes \<Rightarrow> bool \<Rightarrow> transferState" where
  "new_state e pkt replyBlock routed = \<lparr>bReceived = [], bChunks = [], bSubParts = [], xID = pID pkt, xTotal = pTotalChunks pkt,
     xScheme = schemeFromPacket pkt, xSourceNode = pSourceNode pkt, xReplyBlock = replyBlock, xRouted = routed,
     xStream = None, xDelivered = False, xStartTime = teNow e\<rparr>"

definition ingestForwardedFragment :: "tenv \<Rightarrow> packet \<Rightarrow> bool \<Rightarrow> transferSvc \<Rightarrow> transferSvc option" where
  "ingestForwardedFragment e pkt routed t =
     (let st = (case gget (tTransfers t) (pID pkt) of Some st \<Rightarrow> st | None \<Rightarrow> new_state e pkt (pReplyBlock pkt) routed)
      in if pStreaming pkt
         then let sa = (case xStream st of Some sa \<Rightarrow> sa | None \<Rightarrow> newStreamAssembler t (teNow e) pkt)
              in case sa_add (teCrypto e) (teRS e) t (teNow e) pkt sa of
                   None \<Rightarrow> None
                 | Some (sa, ev, fin) \<Rightarrow>
                     Some (temit ev (t\<lparr>tTransfers := (if fin then gdel (pID pkt) (tTransfers t)
                                                     else gput (pID pkt) (st\<lparr>xStream := Some sa\<rparr>) (tTransfers t))\<rparr>))
         else if xDelivered st then Some t
         else let st = absorb_piece pkt st in
           case (if enoughToReassembleLocked st then reassemble e t st else Some None) of
             None \<Rightarrow> None
           | Some None \<Rightarrow> Some (t\<lparr>tTransfers := gput (pID pkt) st (tTransfers t)\<rparr>)
           | Some (Some data) \<Rightarrow>
               Some (tdispatch (st\<lparr>xDelivered := True\<rparr>) data (t\<lparr>tTransfers := gdel (pID pkt) (tTransfers t)\<rparr>)))"

definition ingestRoutedFragment :: "tenv \<Rightarrow> bytes \<Rightarrow> transferSvc \<Rightarrow> transferSvc option" where
  "ingestRoutedFragment e inner t =
     (case UnmarshalBinary zero_packet inner of
        (_, True) \<Rightarrow> Some t
      | (pkt, False) \<Rightarrow>
          if pType pkt = PacketTypeAcknowledgement
          then Some (if Verify (teEd e) pkt then signalAckFrom (pID pkt) (pSignerKey pkt) t else t)
          else if pDecoy pkt then Some t
          else ingestForwardedFragment e pkt True t)"

definition handleRelayBlob :: "tenv \<Rightarrow> bytes \<Rightarrow> transferSvc \<Rightarrow> transferSvc option" where
  "handleRelayBlob e blob t =
     (case tcNodePriv t of
        None \<Rightarrow> Some t
      | Some priv \<Rightarrow>
          (case PeelOnion (teCrypto e) priv blob of
             Inl _ \<Rightarrow> Some t
           | Inr peel \<Rightarrow>
               if opIsFinal peel
               then (case UnmarshalBinary zero_packet (opInner peel) of
                       (_, True) \<Rightarrow> Some t
                     | (inner, False) \<Rightarrow>
                         if pDecoy inner then Some t
                         else if pType inner = PacketTypeAcknowledgement
                         then (case signalProbe (pID inner) t of
                                 (t, True) \<Rightarrow> Some t
                               | (t, False) \<Rightarrow> Some (signalAckToken (pID inner) (pPayload inner) t))
                         else ingestForwardedFragment e inner False t)
               else Some (temit [ForwardHop (opNextNode peel) (opNextAddr peel) (opInner peel)] t)))"

section \<open>Connections\<close>

definition shouldAcceptTransfer :: "'a config_scheme \<Rightarrow> packet \<Rightarrow> bool" where
  "shouldAcceptTransfer t p \<longleftrightarrow> pDestNode p = tcSelfID t \<or>
     pDestNode p = [] \<and> (pDestGroup p = ''ANY'' \<or> pDestGroup p = ''ALL'')"

text \<open>\<open>None\<close> is a panic and \<open>Some (Inl ())\<close> the error; the events of the stream assembler come with the state.\<close>

definition processChunk ::
  "tenv \<Rightarrow> 'a config_scheme \<Rightarrow> packet \<Rightarrow> transferState \<Rightarrow> (unit + transferState \<times> tevent list) option" where
  "processChunk e t pkt st =
     (if \<not> Verify (teEd e) pkt then Some (Inl ())
      else case xStream st of
             Some sa \<Rightarrow>
               (case sa_add (teCrypto e) (teRS e) t (teNow e) pkt sa of
                  None \<Rightarrow> None
                | Some (sa, ev, _) \<Rightarrow> Some (Inr (st\<lparr>xStream := Some sa\<rparr>, ev)))
           | None \<Rightarrow> Some (Inr (absorb_piece pkt st, [])))"

text \<open>The check every packet of a connection but the chunks goes through: a valid signature by the node it names.\<close>

definition bound_sender :: "tenv \<Rightarrow> packet \<Rightarrow> bool" where
  "bound_sender e pkt \<longleftrightarrow> Verify (teEd e) pkt \<and> pSourceNode pkt = SignerID (teSha256 e) pkt"

text \<open>The loop over one-shot packets on a reused connection.\<close>

fun one_shot_loop :: "tenv \<Rightarrow> packet list \<Rightarrow> transferSvc \<Rightarrow> transferSvc option" where
  "one_shot_loop e [] t = Some t"
| "one_shot_loop e (pkt # rest) t =
     (if \<not> bound_sender e pkt then Some t
      else if pType pkt = PacketTypeRelay
      then case handleRelayBlob e (pPayload pkt) t of None \<Rightarrow> None | Some t \<Rightarrow> one_shot_loop e rest t
      else if pType pkt = PacketTypeAcknowledgement
      then one_shot_loop e rest (signalAckFrom (pID pkt) (pSignerKey pkt) t)
      else Some t)"

text \<open>The loop over the chunks of a transfer; the flag tells the end of the loop from an early return.\<close>

fun chunk_loop :: "tenv \<Rightarrow> packet list \<Rightarrow> transferState \<Rightarrow> transferSvc \<Rightarrow> (transferState \<times> transferSvc \<times> bool) option" where
  "chunk_loop e [] st t = Some (st, t, True)"
| "chunk_loop e (pkt # rest) st t =
     (case processChunk e t pkt st of
        None \<Rightarrow> None
      | Some (Inl _) \<Rightarrow> Some (st, t, False)
      | Some (Inr (st, ev)) \<Rightarrow>
          let t = temit (ev @ [ChunkAck 0]) t in
          if xStream st = None \<and> isTransferComplete st then Some (st, t, True) else chunk_loop e rest st t)"

text \<open>
  The table of partial streams kept for a later resume. \<^verbatim>\<open>sort.Slice\<close> may order equal times in any
  way; the order in which the table is walked is arbitrary too.
\<close>

definition retained_streams :: "(bytes \<times> transferState) list \<Rightarrow> (bytes \<times> streamAssembler) list" where
  "retained_streams m =
     concat (map (\<lambda>(k, st). case xStream st of
                    Some sa \<Rightarrow> if scResumable (xScheme st) then [(k, sa)] else []
                  | None \<Rightarrow> []) m)"

definition drop_stream :: "int \<Rightarrow> bytes \<times> streamAssembler \<Rightarrow> transferSvc \<Rightarrow> transferSvc" where
  "drop_stream now x t =
     (case abandonIfIdle now (snd x) of
        (_, ev, _) \<Rightarrow> temit ev (t\<lparr>tTransfers := gdel (fst x) (tTransfers t)\<rparr>))"

definition enforceRetainedStreamCap :: "tenv \<Rightarrow> transferSvc \<Rightarrow> transferSvc" where
  "enforceRetainedStreamCap e t =
     (let retained = retained_streams (teStateOrder e (tTransfers t)) in
      if length retained \<le> maxRetainedStreams then t
      else fold (drop_stream (teNow e))
             (take (length retained - maxRetainedStreams) (sort_key (\<lambda>x. saLastActivity (snd x)) retained)) t)"

text \<open>One tick of the sweep.\<close>

definition sweepResumableStreams :: "tenv \<Rightarrow> transferSvc \<Rightarrow> transferSvc" where
  "sweepResumableStreams e t =
     fold (\<lambda>x t. case abandonIfIdle (teNow e - resumableStreamTTL) (snd x) of
                   (_, ev, True) \<Rightarrow> temit ev (t\<lparr>tTransfers := gdel (fst x) (tTransfers t)\<rparr>)
                 | (_, ev, False) \<Rightarrow> t)
       (retained_streams (teStateOrder e (tTransfers t))) t"

text \<open>
  A transfer over one connection: the state it starts with, which for a resumable stream may be the one kept from an
  earlier attempt; then the chunks, the delivery, and what is kept afterwards.
\<close>

definition accept_state :: "tenv \<Rightarrow> packet \<Rightarrow> transferSvc \<Rightarrow> transferState" where
  "accept_state e pkt t =
     (let sc = schemeFromPacket pkt;
          fresh = (new_state e pkt [] False)\<lparr>xStream :=
            (if scStreaming sc then Some (newStreamAssembler t (teNow e) pkt) else None)\<rparr>
      in if scResumable sc \<and> scStreaming sc
         then case gget (tTransfers t) (pID pkt) of Some st \<Rightarrow> st\<lparr>xStartTime := teNow e\<rparr> | None \<Rightarrow> fresh
         else fresh)"

definition run_transfer :: "tenv \<Rightarrow> packet \<Rightarrow> packet list \<Rightarrow> transferState \<Rightarrow> transferSvc \<Rightarrow> transferSvc option" where
  "run_transfer e pkt rest st t =
     (let sc = schemeFromPacket pkt in
      case chunk_loop e rest st t of
        None \<Rightarrow> None
      | Some (st, t, ended) \<Rightarrow>
          (case (if ended \<and> isTransferComplete st then tdeliver e st t else Some (t, False)) of
             None \<Rightarrow> None
           | Some (t, _) \<Rightarrow>
               Some (if scResumable sc \<and> scStreaming sc \<and> \<not> isTransferComplete st
                     then enforceRetainedStreamCap e (t\<lparr>tTransfers := gput (pID pkt) st (tTransfers t)\<rparr>)
                     else t\<lparr>tTransfers := gdel (pID pkt) (tTransfers t)\<rparr>)))"

definition handleConnection :: "tenv \<Rightarrow> packet list \<Rightarrow> transferSvc \<Rightarrow> transferSvc option" where
  "handleConnection e packets t =
     (case packets of
        [] \<Rightarrow> Some t
      | pkt # rest \<Rightarrow>
          if \<not> bound_sender e pkt then Some t
          else if pType pkt = PacketTypeReservation then Some (temit [ServeReservation (pSourceNode pkt)] t)
          else if pType pkt = PacketTypeRelay \<or> pType pkt = PacketTypeAcknowledgement then one_shot_loop e packets t
          else if \<not> shouldAcceptTransfer t pkt then Some t
          else let st = accept_state e pkt t;
                   resume = (case xStream st of
                               Some sa \<Rightarrow> if scResumable (schemeFromPacket pkt) then resumeFrom sa else 0
                             | None \<Rightarrow> 0)
               in run_transfer e pkt rest st (temit [ChunkAck resume] (t\<lparr>tTransfers := gput (pID pkt) st (tTransfers t)\<rparr>)))"

section \<open>Building fragments\<close>

definition maxChunkSize :: int where "maxChunkSize = 1024 * 1024"

definition scheme_of :: "bool \<Rightarrow> scheme" where
  "scheme_of variable = \<lparr>scDataShards = 0, scParityShards = 0, scOriginalLen = 0, scVariable = variable, scStreaming = False,
     scHybridSealed = False, scPQ = False, scResumable = False\<rparr>"

definition rs_fragments ::
  "reedsolomon \<Rightarrow> (nat \<Rightarrow> bytes) \<Rightarrow> 'a config_scheme \<Rightarrow> bytes \<Rightarrow> bytes \<Rightarrow> sealer option \<Rightarrow> (fragment list \<times> int) option" where
  "rs_fragments rs rnd t tid data so =
     (if so \<noteq> None \<and> tcDataShards t > 0 \<and> tcParityShards t > 0 \<and> int (length data) \<ge> tcDataShards t
      then case NewRSFragmenter so (tcDataShards t) (tcParityShards t) of
             Inl _ \<Rightarrow> None
           | Inr f \<Rightarrow> ok_value (RSFragmenter_Fragment rs f rnd tid data)
      else None)"

definition buildFragments ::
  "reedsolomon \<Rightarrow> (nat \<Rightarrow> bytes) \<Rightarrow> (nat \<Rightarrow> bytes) \<Rightarrow> 'a config_scheme \<Rightarrow> bytes \<Rightarrow> bytes \<Rightarrow> bool \<Rightarrow> sealer option \<Rightarrow>
   frag_error + fragment list \<times> scheme" where
  "buildFragments rs rnd rnd' t tid data variable so =
     (let sc = scheme_of variable in
      case rs_fragments rs rnd t tid data so of
        Some (frags, origLen) \<Rightarrow>
          Inr (frags, sc\<lparr>scDataShards := word_of_int (tcDataShards t), scParityShards := word_of_int (tcParityShards t),
                         scOriginalLen := word_of_int origLen\<rparr>)
      | None \<Rightarrow>
          (case so of
             Some s \<Rightarrow>
               (case NewFragmenter so maxChunkSize of
                  Inl err \<Rightarrow> Inl err
                | Inr f \<Rightarrow>
                    (case Fragmenter_Fragment f rnd' tid data of Inl err \<Rightarrow> Inl err | Inr frags \<Rightarrow> Inr (frags, sc)))
           | None \<Rightarrow>
               let chunks = Split data maxChunkSize
               in Inr (map (\<lambda>(i, c). mk_fragment tid (word_of_nat i) (u32_len chunks) c) (enumerate 0 chunks), sc)))"

definition marshaledLen :: "packet \<Rightarrow> int" where
  "marshaledLen pkt = int (length (MarshalBinary pkt))"

definition padPacket :: "'a config_scheme \<Rightarrow> packet \<Rightarrow> packet" where
  "padPacket t pkt =
     (if tcPadCell t \<le> 0 then pkt
      else let pkt = pkt\<lparr>pPad := []\<rparr>; r = marshaledLen pkt mod tcPadCell t
           in if r = 0 then pkt else pkt\<lparr>pPad := replicate (nat (tcPadCell t - r)) 0\<rparr>)"

definition inner_packet ::
  "(bytes \<Rightarrow> bytes) \<Rightarrow> u64 \<Rightarrow> string \<Rightarrow> 'a config_scheme \<Rightarrow> bytes \<Rightarrow> string \<Rightarrow> string \<Rightarrow> fragment \<Rightarrow> scheme \<Rightarrow> bytes \<Rightarrow> packet" where
  "inner_packet sha256 now nowStr t tid destID sourceNode frag sc replyBlock =
     (let pkt = NewPacket sha256 now nowStr PacketTypeData (fPayload frag) [] destID;
          pkt = pkt\<lparr>pID := tid, pSourceNode := sourceNode, pChunkNumber := fIndex frag, pTotalChunks := fTotal frag,
                    pSubIndex := fSubIndex frag, pSubTotal := fSubTotal frag\<rparr>;
          pkt = stampStreaming pkt frag;
          pkt = pkt\<lparr>pReplyBlock := replyBlock\<rparr>;
          pkt = applyScheme pkt sc
      in padPacket t pkt)"

definition buildInnerFragment ::
  "(bytes \<Rightarrow> bytes) \<Rightarrow> u64 \<Rightarrow> string \<Rightarrow> 'a config_scheme \<Rightarrow> bytes \<Rightarrow> string \<Rightarrow> string \<Rightarrow> fragment \<Rightarrow> scheme \<Rightarrow> bytes \<Rightarrow> bytes" where
  "buildInnerFragment sha256 now nowStr t tid destID sourceNode frag sc replyBlock =
     MarshalBinary (inner_packet sha256 now nowStr t tid destID sourceNode frag sc replyBlock)"

section \<open>The fragments of a payload\<close>

interpretation halves: sealing "\<lambda>(s, o'). halves_law s o'" fst snd
proof unfold_locales
  fix k :: "sealer \<times> sealer" and rnd p ad ct
  assume "case k of (s, o') \<Rightarrow> halves_law s o'" "sSeal (fst k) rnd p ad = Some ct"
  then show "sOpen (snd k) ct ad = Some p" by (cases k) (simp add: halves_law_def sealer_law_def)
qed

text \<open>What the receiver needs to open what the sender sealed; without a key nothing is sealed.\<close>

definition opener_fits :: "sealer option \<Rightarrow> sealer option \<Rightarrow> bool" where
  "opener_fits so so' = (case (so, so') of (Some s, Some o') \<Rightarrow> halves_law s o' | (None, None) \<Rightarrow> True | _ \<Rightarrow> False)"

text \<open>A list of numbered fragments.\<close>

definition numbered :: "bytes \<Rightarrow> fragment list \<Rightarrow> bool" where
  "numbered tid frags \<longleftrightarrow> length frags < 2 ^ 32 \<and>
     (\<forall>i < length frags. frags ! i = mk_fragment tid (word_of_nat i) (u32_len frags) (fPayload (frags ! i)))"

lemma seal_loop_numbered:
  assumes "seal_loop s rnd tid (u32_len chunks) 0 chunks = Inr frags" and "length chunks < 2 ^ 32"
  shows "numbered tid frags" and "length frags = length chunks"
proof -
  note n = seal_loop_nth [OF assms(1)]
  then show l: "length frags = length chunks" by simp
  then have "u32_len frags = u32_len chunks" by (simp add: u32_len_def)
  then show "numbered tid frags" using n l assms(2) by (auto simp: numbered_def mk_fragment_def)
qed

lemma buildFragments_cases:
  assumes "buildFragments rs rnd rnd' t tid data variable so = Inr (frags, sc)"
  obtains
    (erasure) s len where "so = Some s" "0 < tcDataShards t" "0 < tcParityShards t" "data \<noteq> []"
      "RSFragmenter_Fragment rs \<lparr>rfSealer = s, rfData = tcDataShards t, rfParity = tcParityShards t\<rparr> rnd tid data = Inr (frags, len)"
      "sc = (scheme_of variable)\<lparr>scDataShards := word_of_int (tcDataShards t), scParityShards := word_of_int (tcParityShards t),
         scOriginalLen := word_of_int len\<rparr>"
  | (sealed) s where "so = Some s" "sc = scheme_of variable"
      "Fragmenter_Fragment \<lparr>fmSealer = s, fmChunkSize = maxChunkSize\<rparr> rnd' tid data = Inr frags"
  | (plain) "so = None" "sc = scheme_of variable"
      "frags = map (\<lambda>(i, c). mk_fragment tid (word_of_nat i) (u32_len (Split data maxChunkSize)) c) (enumerate 0 (Split data maxChunkSize))"
proof (cases "rs_fragments rs rnd t tid data so")
  case None
  show thesis
  proof (cases so)
    case n: None
    then show thesis using assms None plain by (simp add: buildFragments_def Let_def)
  next
    case (Some s)
    then show thesis using assms None sealed [of s]
      by (simp add: buildFragments_def Let_def NewFragmenter_def maxChunkSize_def split: sum.splits)
  qed
next
  case (Some x)
  then obtain fs len where x: "rs_fragments rs rnd t tid data so = Some (fs, len)" by (cases x) auto
  then obtain s where s: "so = Some s" "0 < tcDataShards t" "0 < tcParityShards t" "int (length data) \<ge> tcDataShards t"
    "RSFragmenter_Fragment rs \<lparr>rfSealer = s, rfData = tcDataShards t, rfParity = tcParityShards t\<rparr> rnd tid data = Inr (fs, len)"
    by (auto simp: rs_fragments_def NewRSFragmenter_def ok_value_def split: if_splits sum.splits)
  moreover have "data \<noteq> []" using s(2,4) by auto
  ultimately show thesis using assms x erasure [of s len] by (simp add: buildFragments_def Let_def)
qed

text \<open>The fragments all of whose pieces have arrived are enough to rebuild the payload.\<close>

definition enough_idx :: "scheme \<Rightarrow> fragment list \<Rightarrow> int \<Rightarrow> (u32 \<times> u32) set \<Rightarrow> bool" where
  "enough_idx sc frags n S \<longleftrightarrow>
     (if scDataShards sc > 0 then unat (scDataShards sc) \<le> card {idx. all_pieces (frag_table frags) n S idx}
      else \<forall>i < length frags. all_pieces (frag_table frags) n S (word_of_nat i))"

lemma all_pieces_below: "all_pieces (frag_table frags) n S idx \<Longrightarrow> unat idx < length frags"
  by (simp add: all_pieces_def frag_table_def split: if_splits)

lemma card_all_pieces:
  "{idx. all_pieces (frag_table frags) n S idx} \<subseteq> word_of_nat ` {..<length frags}"
  "card {idx. all_pieces (frag_table frags) n S idx} \<le> length frags"
proof -
  show sub: "{idx. all_pieces (frag_table frags) n S idx} \<subseteq> word_of_nat ` {..<length frags}"
    using all_pieces_below [of frags n S] by (auto intro!: image_eqI [of _ _ "unat _"])
  have "card (word_of_nat ` {..<length frags} :: u32 set) \<le> length frags"
    using card_image_le [of "{..<length frags}" "word_of_nat :: nat \<Rightarrow> u32"] by simp
  then show "card {idx. all_pieces (frag_table frags) n S idx} \<le> length frags"
    using card_mono [OF _ sub] by simp
qed

lemma enough_idx_mono: "enough_idx sc frags n S \<Longrightarrow> S \<subseteq> T \<Longrightarrow> enough_idx sc frags n T"
proof -
  assume a: "enough_idx sc frags n S" "S \<subseteq> T"
  have "card {idx. all_pieces (frag_table frags) n S idx} \<le> card {idx. all_pieces (frag_table frags) n T idx}"
    using all_pieces_mono [OF _ a(2)] by (intro card_mono) auto
  then show ?thesis using a all_pieces_mono [OF _ a(2)] by (auto simp: enough_idx_def split: if_splits)
qed

lemma enoughToReassemble_iff:
  assumes num: "numbered tid frags" and inv: "pieces_inv (frag_table frags) n S st"
    and st: "xTotal st = u32_len frags" "xScheme st = sc"
  shows "enoughToReassembleLocked st \<longleftrightarrow> enough_idx sc frags n S"
proof -
  let ?C = "{idx. all_pieces (frag_table frags) n S idx}"
  have N: "length frags < 2 ^ 32" using num by (simp add: numbered_def)
  have cnt: "length (bReceived st) = card ?C" by (rule received_count [OF inv])
  then have L: "length (bReceived st) < 2 ^ 32" using card_all_pieces(2) [of frags n S] N by simp
  have u: "unat (u32_len (bReceived st)) = card ?C" "unat (u32_len frags) = length frags"
    using L N cnt by (simp_all add: unat_u32_len)
  have set: "is_set (bReceived st) idx \<longleftrightarrow> all_pieces (frag_table frags) n S idx" for idx
    using inv by (cases "all_pieces (frag_table frags) n S idx") (simp_all add: pieces_inv_def is_set_def)
  have full: "card ?C = length frags" if all: "\<forall>i < length frags. all_pieces (frag_table frags) n S (word_of_nat i)"
  proof -
    have "?C = word_of_nat ` {..<length frags}" using card_all_pieces(1) [of frags n S] all by auto
    moreover have "inj_on (word_of_nat :: nat \<Rightarrow> u32) {..<length frags}"
      using N by (intro inj_on_inverseI [of _ unat]) (simp add: unat_u32_of_nat)
    ultimately show ?thesis by (simp add: card_image)
  qed
  have "isCompleteLocked st \<longleftrightarrow> (\<forall>i < length frags. all_pieces (frag_table frags) n S (word_of_nat i))"
    using full u st unfolding isCompleteLocked_def by (auto simp: list_all_iff set word_unat_eq_iff)
  then show ?thesis using u st by (simp add: enoughToReassembleLocked_def enough_idx_def word_le_nat_alt)
qed

text \<open>Reassembly gives the payload as soon as there is enough.\<close>

definition reassembles :: "tenv \<Rightarrow> 'a config_scheme \<Rightarrow> scheme \<Rightarrow> bytes \<Rightarrow> fragment list \<Rightarrow> bytes \<Rightarrow> bool" where
  "reassembles e t sc tid frags data \<longleftrightarrow>
     (\<forall>st n S. pieces_inv (frag_table frags) n S st \<and> xTotal st = u32_len frags \<and> xScheme st = sc \<and> xID st = tid \<and>
        enough_idx sc frags n S \<longrightarrow> reassemble e t st = Some (Some data))"

lemma add_chunks_all:
  assumes "\<And>i. i \<in> set is \<Longrightarrow> i < unat tot"
  shows "rsTotal r = tot \<Longrightarrow> add_chunks tid tot chunks is r =
     Inr (fold (\<lambda>fr r. fst (Add r fr)) (map (\<lambda>i. mk_fragment tid (word_of_nat i) tot (elem_or_nil chunks (word_of_nat i))) is) r)"
  using assms
proof (induction "is" arbitrary: r)
  case (Cons i js)
  let ?f = "mk_fragment tid (word_of_nat i) tot (elem_or_nil chunks (word_of_nat i))"
  have "i < unat tot" using Cons.prems by simp
  moreover have "unat tot < 2 ^ 32" using unsigned_less [of tot, where 'a = nat] by simp
  ultimately have lt: "(word_of_nat i :: u32) < tot" by (simp add: word_less_nat_alt unat_u32_of_nat)
  then have "snd (Add r ?f) = None" "rsTotal (fst (Add r ?f)) = tot"
    using Cons.prems(1) by (simp_all add: Add_def mk_fragment_def not_le [symmetric] split: option.split)
  then obtain r' where r': "Add r ?f = (r', None)" "rsTotal r' = tot" by (cases "Add r ?f") simp
  then show ?case using Cons.IH [of r'] Cons.prems(2) by simp
qed simp

lemma chunk_table:
  assumes num: "numbered tid frags" and inv: "pieces_inv (frag_table frags) n S b"
    and all: "\<forall>i < length frags. all_pieces (frag_table frags) n S (word_of_nat i)"
  shows "map (\<lambda>i. mk_fragment tid (word_of_nat i) (u32_len frags) (elem_or_nil (bChunks b) (word_of_nat i))) [0..<length frags] = frags"
    and "map (\<lambda>i. elem_or_nil (bChunks b) (word_of_nat i)) [0..<length frags] = map fPayload frags"
proof -
  have "elem_or_nil (bChunks b) (word_of_nat i) = fPayload (frags ! i)" if "i < length frags" for i
  proof -
    have "gget (bChunks b) (word_of_nat i) = frag_table frags (word_of_nat i)"
      using inv all that by (simp add: pieces_inv_def)
    moreover have "unat (word_of_nat i :: u32) = i" using num that by (simp add: numbered_def unat_u32_of_nat)
    ultimately show ?thesis using that by (simp add: frag_table_def elem_or_nil_def)
  qed
  then show "map (\<lambda>i. mk_fragment tid (word_of_nat i) (u32_len frags) (elem_or_nil (bChunks b) (word_of_nat i))) [0..<length frags] = frags"
    "map (\<lambda>i. elem_or_nil (bChunks b) (word_of_nat i)) [0..<length frags] = map fPayload frags"
    using num by (auto intro!: nth_equalityI simp: numbered_def)
qed

lemma reassembles_sealed:
  assumes law: "halves_law s o'" and frag: "Fragmenter_Fragment \<lparr>fmSealer = s, fmChunkSize = maxChunkSize\<rparr> rnd tid data = Inr frags"
    and N: "length frags < 2 ^ 32" and sc: "scDataShards sc = 0" and op: "recipientOpener (teCrypto e) t sc = Some o'"
  shows "reassembles e t sc tid frags data" and "numbered tid frags"
proof -
  let ?c = "Split data maxChunkSize"
  have sl: "seal_loop s rnd tid (u32_len ?c) 0 ?c = Inr frags" using frag by (simp add: Fragmenter_Fragment_def Let_def)
  have l: "length frags = length ?c" using seal_loop_nth [OF sl] by simp
  then have n: "u32_len frags = u32_len ?c" "length ?c < 2 ^ 32" using N by (simp_all add: u32_len_def)
  show num: "numbered tid frags" by (rule seal_loop_numbered [OF sl n(2)])
  have asm: "Assemble (fold (\<lambda>fr r. fst (Add r fr)) frags (NewReassembler o' (u32_len frags))) tid = Inr data"
    using halves.transfer_opens [of "(s, o')" maxChunkSize rnd tid data frags frags] law frag n
    by (simp add: maxChunkSize_def)
  show "reassembles e t sc tid frags data"
    unfolding reassembles_def
  proof (intro allI impI, elim conjE)
    fix st :: transferState and m S
    assume inv: "pieces_inv (frag_table frags) m S st" and st: "xTotal st = u32_len frags" "xScheme st = sc" "xID st = tid"
      and en: "enough_idx sc frags m S"
    then have all: "\<forall>i < length frags. all_pieces (frag_table frags) m S (word_of_nat i)" using sc by (simp add: enough_idx_def)
    have u: "unat (u32_len frags) = length frags" using N by (rule unat_u32_len)
    have "add_chunks tid (u32_len frags) (bChunks st) [0..<length frags] (NewReassembler o' (u32_len frags)) =
        Inr (fold (\<lambda>fr r. fst (Add r fr)) frags (NewReassembler o' (u32_len frags)))"
      using add_chunks_all [of "[0..<length frags]" "u32_len frags" "NewReassembler o' (u32_len frags)" tid "bChunks st"]
      unfolding chunk_table(1) [OF num inv all] by (simp add: u NewReassembler_def)
    then show "reassemble e t st = Some (Some data)"
      using asm st sc op u by (simp add: reassemble_def reassembleChunks_def ok_value_def)
  qed
qed

lemma reassembles_plain:
  assumes fr: "frags = map (\<lambda>(i, c). mk_fragment tid (word_of_nat i) (u32_len (Split data maxChunkSize)) c) (enumerate 0 (Split data maxChunkSize))"
    and N: "length frags < 2 ^ 32" and sc: "scDataShards sc = 0" and op: "recipientOpener (teCrypto e) t sc = None"
  shows "reassembles e t sc tid frags data" and "numbered tid frags"
proof -
  let ?c = "Split data maxChunkSize"
  have l: "length frags = length ?c" "u32_len frags = u32_len ?c" using fr by (simp_all add: u32_len_def)
  have nth: "frags ! i = mk_fragment tid (word_of_nat i) (u32_len ?c) (?c ! i)" if "i < length ?c" for i
    using that by (simp add: fr nth_enumerate_eq)
  then show num: "numbered tid frags" using N l by (simp add: numbered_def mk_fragment_def)
  have pay: "map fPayload frags = ?c" using nth l by (intro nth_equalityI) (simp_all add: mk_fragment_def)
  show "reassembles e t sc tid frags data"
    unfolding reassembles_def
  proof (intro allI impI, elim conjE)
    fix st :: transferState and m S
    assume inv: "pieces_inv (frag_table frags) m S st" and st: "xTotal st = u32_len frags" "xScheme st = sc" "xID st = tid"
      and en: "enough_idx sc frags m S"
    then have all: "\<forall>i < length frags. all_pieces (frag_table frags) m S (word_of_nat i)" using sc by (simp add: enough_idx_def)
    have "unat (u32_len frags) = length frags" using N by (rule unat_u32_len)
    then show "reassemble e t st = Some (Some data)"
      using st sc op chunk_table(2) [OF num inv all] pay Join_Split [of maxChunkSize data]
      by (simp add: reassemble_def reassembleChunks_def ok_value_def maxChunkSize_def)
  qed
qed

lemma reassembles_erasure:
  assumes law: "halves_law s o'" and rs: "rs_law (teRS e) k m" and km: "0 < k" "0 < m" "k + m < 2 ^ 32" and "data \<noteq> []"
    and frag: "RSFragmenter_Fragment (teRS e) \<lparr>rfSealer = s, rfData = k, rfParity = m\<rparr> rnd tid data = Inr (frags, len)"
    and sc: "scDataShards sc = word_of_int k" "scParityShards sc = word_of_int m" "scOriginalLen sc = word_of_int len"
    and small: "length data < 2 ^ 63" and op: "recipientOpener (teCrypto e) t sc = Some o'"
  shows "reassembles e t sc tid frags data" and "numbered tid frags"
proof -
  obtain s0 shards where sh: "len = int (length data)" "rdSplit (teRS e) k m data = Some s0" "rdEncode (teRS e) k m s0 = Some shards"
    "seal_loop s rnd tid (u32_len shards) 0 shards = Inr frags"
    using frag unfolding RSFragmenter_Inr by blast
  have n: "int (length shards) = k + m" using rs assms(6) sh(2,3) by (auto simp: rs_law_def)
  have u: "uint (word_of_int k :: u32) = k" "uint (word_of_int m :: u32) = m" "unat (word_of_int k :: u32) = nat k"
    using km by (simp_all add: take_bit_int_eq_self uint_word_of_int flip: nat_uint_eq)
  note sl = seal_loop_numbered [OF sh(4)]
  have N: "length shards < 2 ^ 32" using n km by simp
  show "numbered tid frags" by (rule sl(1) [OF N])
  have tot: "u32_len frags = word_of_int (k + m)" using sl(2) [OF N] by (simp add: u32_len_def flip: n)
  have orig: "sint (word_of_int len :: u64) = int (length data)"
    using small sh(1) by (simp add: signed_of_nat signed_take_bit_int_eq_self)
  have reb: "rebuilds (teRS e) (Some o') k m tid (frag_table frags) data"
    using fragments_rebuild [OF law rs assms(6) km frag, of "length data"] by simp
  show "reassembles e t sc tid frags data"
    unfolding reassembles_def
  proof (intro allI impI, elim conjE)
    fix st :: transferState and j S
    assume inv: "pieces_inv (frag_table frags) j S st" and st: "xTotal st = u32_len frags" "xScheme st = sc" "xID st = tid"
      and en: "enough_idx sc frags j S"
    have pos: "(word_of_int k :: u32) > 0" using u(3) km by (simp add: word_less_nat_alt)
    have "k \<le> int (length (bChunks st))"
      using en received_count [OF inv] sc pos u(3) km by (simp add: enough_idx_def)
    moreover have "gmap_ok (bChunks st)" "\<forall>idx. gget (bChunks st) idx = None \<or> gget (bChunks st) idx = frag_table frags idx"
      using inv by (auto simp: pieces_inv_def split: if_splits)
    ultimately have "rs_rebuild (teRS e) (Some o') k m (int (length data)) tid (word_of_int (k + m)) (bChunks st) = Some (Inr data)"
      using reb by (simp add: rebuilds_def)
    then show "reassemble e t st = Some (Some data)"
      using st sc op u orig tot pos by (simp add: reassemble_def ok_value_def)
  qed
qed

lemma built_reassembles:
  assumes build: "buildFragments (teRS e) rnd rnd' t' tid data variable so = Inr (frags, sc0)"
    and sc: "sc = sc0\<lparr>scHybridSealed := h, scPQ := q\<rparr>" and op: "opener_fits so (recipientOpener (teCrypto e) t sc)"
    and rs: "0 < tcDataShards t' \<and> 0 < tcParityShards t' \<Longrightarrow> rs_law (teRS e) (tcDataShards t') (tcParityShards t')"
    and km: "tcDataShards t' + tcParityShards t' < 2 ^ 32" and N: "length frags < 2 ^ 32" and small: "length data < 2 ^ 63"
  shows "reassembles e t sc tid frags data \<and> numbered tid frags \<and> scVariable sc = variable \<and> \<not> scStreaming sc"
  using build
proof (cases rule: buildFragments_cases)
  case (erasure s len)
  then obtain o' where "recipientOpener (teCrypto e) t sc = Some o'" "halves_law s o'"
    using op by (auto simp: opener_fits_def split: option.splits)
  then show ?thesis
    using reassembles_erasure [of s o' e "tcDataShards t'" "tcParityShards t'" data rnd tid frags len sc t] erasure rs km small sc
    by (simp add: scheme_of_def)
next
  case (sealed s)
  then obtain o' where "recipientOpener (teCrypto e) t sc = Some o'" "halves_law s o'"
    using op by (auto simp: opener_fits_def split: option.splits)
  then show ?thesis using reassembles_sealed [of s o' rnd' tid data frags sc e t] sealed N sc by (simp add: scheme_of_def)
next
  case plain
  then have "recipientOpener (teCrypto e) t sc = None" using op by (simp add: opener_fits_def split: option.splits)
  then show ?thesis using reassembles_plain [OF plain(3) N, of sc e t] plain sc by (simp add: scheme_of_def)
qed

section \<open>Delivery over relays\<close>

text \<open>The packets of one transfer: all carry its identifier, scheme, origin and return path.\<close>

record transfer_spec =
  tsID :: bytes
  tsScheme :: scheme
  tsSource :: string
  tsReply :: bytes
  tsRouted :: bool
  tsFrags :: "fragment list"
  tsSub :: int
  tsData :: bytes

definition of_transfer :: "transfer_spec \<Rightarrow> packet \<Rightarrow> bool" where
  "of_transfer ts pkt \<longleftrightarrow> pID pkt = tsID ts \<and> schemeFromPacket pkt = tsScheme ts \<and> pSourceNode pkt = tsSource ts \<and>
     pReplyBlock pkt = tsReply ts \<and> (\<exists>f \<in> set (tsFrags ts). \<exists>p \<in> set (fragmentPieces f (tsSub ts)). carries_piece pkt p)"

definition spec_fits :: "tenv \<Rightarrow> 'a config_scheme \<Rightarrow> transfer_spec \<Rightarrow> bool" where
  "spec_fits e t ts \<longleftrightarrow> reassembles e t (tsScheme ts) (tsID ts) (tsFrags ts) (tsData ts) \<and> numbered (tsID ts) (tsFrags ts) \<and>
     \<not> scStreaming (tsScheme ts) \<and> few_pieces (frag_table (tsFrags ts)) (tsSub ts)"

definition delivery :: "transferSvc \<Rightarrow> transfer_spec \<Rightarrow> tevent list" where
  "delivery t ts =
     (if tcOnData t then [OnData (tsData ts) (scVariable (tsScheme ts))] else []) @
     concat (replicate 3
       ((if tsReply ts \<noteq> [] then [AckReply (tsReply ts)] else []) @
        (if tsSource ts = [] then [] else if \<not> tsRouted ts then [AckDirect (tsSource ts) (tsID ts)]
         else if tDiscovery t then [AckRouted (tsSource ts) (tsID ts)] else [])))"

definition state_ok :: "transfer_spec \<Rightarrow> (u32 \<times> u32) set \<Rightarrow> transferState \<Rightarrow> bool" where
  "state_ok ts S st \<longleftrightarrow> pieces_inv (frag_table (tsFrags ts)) (tsSub ts) S st \<and> xID st = tsID ts \<and>
     xTotal st = u32_len (tsFrags ts) \<and> xScheme st = tsScheme ts \<and> xSourceNode st = tsSource ts \<and>
     xReplyBlock st = tsReply ts \<and> xRouted st = tsRouted ts \<and> \<not> xDelivered st"

definition slot_ok :: "transfer_spec \<Rightarrow> (u32 \<times> u32) set \<Rightarrow> transferSvc \<Rightarrow> bool" where
  "slot_ok ts S t \<longleftrightarrow> (case gget (tTransfers t) (tsID ts) of None \<Rightarrow> S = {} | Some st \<Rightarrow> state_ok ts S st)"

lemma absorb_piece_state [simp]:
  "xID (absorb_piece pkt st) = xID st" "xTotal (absorb_piece pkt st) = xTotal st" "xScheme (absorb_piece pkt st) = xScheme st"
  "xSourceNode (absorb_piece pkt st) = xSourceNode st" "xReplyBlock (absorb_piece pkt st) = xReplyBlock st"
  "xRouted (absorb_piece pkt st) = xRouted st" "xDelivered (absorb_piece pkt st) = xDelivered st"
  by (simp_all add: absorb_piece_def split: prod.split option.split)

lemma numbered_frag:
  assumes "numbered tid frags" and "f \<in> set frags"
  shows "unat (fIndex f) < length frags" and "frags ! unat (fIndex f) = f" and "fTotal f = u32_len frags"
proof -
  obtain i where i: "i < length frags" "f = frags ! i" using assms(2) by (auto simp: in_set_conv_nth)
  then have e: "f = mk_fragment tid (word_of_nat i) (u32_len frags) (fPayload f)" using assms(1) by (simp add: numbered_def)
  have "fIndex f = word_of_nat i" "fTotal f = u32_len frags" by (subst e, simp add: mk_fragment_def)+
  moreover have "unat (word_of_nat i :: u32) = i" using assms(1) i by (simp add: numbered_def unat_u32_of_nat)
  ultimately show "unat (fIndex f) < length frags" "frags ! unat (fIndex f) = f" "fTotal f = u32_len frags" using i by simp_all
qed

lemma of_transfer_genuine:
  assumes ts: "spec_fits e t ts" and pkt: "of_transfer ts pkt"
  shows "genuine_piece (frag_table (tsFrags ts)) (tsSub ts) pkt" and "pTotalChunks pkt = u32_len (tsFrags ts)"
proof -
  obtain f p where f: "f \<in> set (tsFrags ts)" and p: "p \<in> set (fragmentPieces f (tsSub ts))" and c: "carries_piece pkt p"
    using pkt by (auto simp: of_transfer_def)
  let ?P = "piece_payloads (tsSub ts) (fPayload f)"
  obtain j where j: "j < length ?P" "p = f\<lparr>fSubIndex := word_of_nat j, fSubTotal := u32_len ?P, fPayload := ?P ! j\<rparr>"
    using p unfolding in_fragmentPieces by blast
  note nf = numbered_frag [OF _ f]
  have num: "numbered (tsID ts) (tsFrags ts)" using ts by (simp add: spec_fits_def)
  have F: "frag_table (tsFrags ts) (fIndex f) = Some (fPayload f)" using nf [OF num] by (simp add: frag_table_def)
  then have "length ?P < 2 ^ 32" using ts by (auto simp: spec_fits_def few_pieces_def)
  then have "unat (word_of_nat j :: u32) = j" using j(1) by (simp add: unat_u32_of_nat)
  then show "genuine_piece (frag_table (tsFrags ts)) (tsSub ts) pkt"
    using j c F by (simp add: genuine_piece_def carries_piece_def)
  show "pTotalChunks pkt = u32_len (tsFrags ts)" using c j nf(3) [OF num] by (simp add: carries_piece_def)
qed

lemma tdispatch_delivery:
  assumes "state_ok ts S st"
  shows "tdispatch (st\<lparr>xDelivered := True\<rparr>) (tsData ts) t = temit (delivery t ts) t"
  using assms by (simp add: tdispatch_def delivery_def ackWithRedundancy_def ackRedundancy_def ackSenders_def state_ok_def)

lemma reassemble_irrelevant [simp]:
  "reassemble (e\<lparr>teNow := now\<rparr>) t st = reassemble e t st" "reassemble e (t\<lparr>tTransfers := m\<rparr>) st = reassemble e t st"
  "reassemble e (temit ev t') st = reassemble e t' st"
  by (simp_all add: reassemble_def recipientOpener_def Let_def temit_def)

lemma ingest_step:
  assumes ts: "spec_fits e t ts" and pkt: "of_transfer ts pkt" and slot: "slot_ok ts S t"
    and S': "S' = insert (pChunkNumber pkt, pSubIndex pkt) S"
  shows "if enough_idx (tsScheme ts) (tsFrags ts) (tsSub ts) S'
     then ingestForwardedFragment (e\<lparr>teNow := now\<rparr>) pkt (tsRouted ts) t =
        Some (temit (delivery t ts) (t\<lparr>tTransfers := gdel (tsID ts) (tTransfers t)\<rparr>))
     else \<exists>st. ingestForwardedFragment (e\<lparr>teNow := now\<rparr>) pkt (tsRouted ts) t =
        Some (t\<lparr>tTransfers := gput (tsID ts) st (tTransfers t)\<rparr>) \<and> state_ok ts S' st"
proof -
  let ?e = "e\<lparr>teNow := now\<rparr>"
  define st where "st = (case gget (tTransfers t) (pID pkt) of Some st \<Rightarrow> st | None \<Rightarrow> new_state ?e pkt (pReplyBlock pkt) (tsRouted ts))"
  note g = of_transfer_genuine [OF ts pkt]
  have id: "pID pkt = tsID ts" and sc: "schemeFromPacket pkt = tsScheme ts" using pkt by (simp_all add: of_transfer_def)
  have str: "\<not> pStreaming pkt"
    using arg_cong [OF sc, of scStreaming] ts by (simp add: spec_fits_def schemeFromPacket_def)
  have "state_ok ts S st"
    using slot g(2) pkt unfolding slot_ok_def st_def
    by (cases "gget (tTransfers t) (tsID ts)")
      (simp_all add: id state_ok_def new_state_def of_transfer_def pieces_inv_empty)
  moreover from this have "pieces_inv (frag_table (tsFrags ts)) (tsSub ts) S' (absorb_piece pkt st)"
    unfolding S' using ts by (intro pieces_inv_step [OF _ g(1)]) (simp_all add: state_ok_def spec_fits_def)
  ultimately have ok: "state_ok ts S' (absorb_piece pkt st)" and nd: "\<not> xDelivered st" by (simp_all add: state_ok_def)
  have en: "enoughToReassembleLocked (absorb_piece pkt st) \<longleftrightarrow> enough_idx (tsScheme ts) (tsFrags ts) (tsSub ts) S'"
    using ok ts by (intro enoughToReassemble_iff [of "tsID ts"]) (simp_all add: state_ok_def spec_fits_def)
  have re: "reassemble e t (absorb_piece pkt st) = Some (Some (tsData ts))" if "enough_idx (tsScheme ts) (tsFrags ts) (tsSub ts) S'"
    using ok ts that unfolding spec_fits_def reassembles_def state_ok_def by blast
  show ?thesis
  proof (cases "enough_idx (tsScheme ts) (tsFrags ts) (tsSub ts) S'")
    case True
    have "delivery (t\<lparr>tTransfers := m\<rparr>) ts = delivery t ts" for m by (simp add: delivery_def)
    then show ?thesis using True str nd en re tdispatch_delivery [OF ok, of "t\<lparr>tTransfers := gdel (tsID ts) (tTransfers t)\<rparr>"]
      unfolding ingestForwardedFragment_def Let_def st_def [symmetric] by (simp add: id)
  next
    case False
    then show ?thesis using str nd en ok unfolding ingestForwardedFragment_def Let_def st_def [symmetric] by (auto simp: id)
  qed
qed

text \<open>Packets that arrive one after the other, each at its time.\<close>

fun ingest_all :: "tenv \<Rightarrow> bool \<Rightarrow> (int \<times> packet) list \<Rightarrow> transferSvc \<Rightarrow> transferSvc option" where
  "ingest_all e routed [] t = Some t"
| "ingest_all e routed (x # xs) t =
     (case ingestForwardedFragment (e\<lparr>teNow := fst x\<rparr>) (snd x) routed t of
        None \<Rightarrow> None
      | Some t \<Rightarrow> ingest_all e routed xs t)"

lemma ingest_all_append:
  "ingest_all e routed (xs @ ys) t = (case ingest_all e routed xs t of None \<Rightarrow> None | Some t \<Rightarrow> ingest_all e routed ys t)"
  by (induction xs arbitrary: t) (simp_all split: option.split)

definition seen :: "(int \<times> packet) list \<Rightarrow> (u32 \<times> u32) set" where
  "seen xs = (\<lambda>x. (pChunkNumber (snd x), pSubIndex (snd x))) ` set xs"

text \<open>A fragment has arrived when each of its pieces has; the payload can be rebuilt once enough have.\<close>

definition arrived :: "transfer_spec \<Rightarrow> (int \<times> packet) list \<Rightarrow> fragment \<Rightarrow> bool" where
  "arrived ts xs f \<longleftrightarrow> (\<forall>p \<in> set (fragmentPieces f (tsSub ts)). \<exists>x \<in> set xs. carries_piece (snd x) p)"

definition enough_arrived :: "transfer_spec \<Rightarrow> (int \<times> packet) list \<Rightarrow> bool" where
  "enough_arrived ts xs \<longleftrightarrow>
     (if scDataShards (tsScheme ts) > 0 then unat (scDataShards (tsScheme ts)) \<le> card {f \<in> set (tsFrags ts). arrived ts xs f}
      else \<forall>f \<in> set (tsFrags ts). arrived ts xs f)"

lemma arrived_iff:
  assumes ts: "spec_fits e t ts" and xs: "\<And>x. x \<in> set xs \<Longrightarrow> of_transfer ts (snd x)" and f: "f \<in> set (tsFrags ts)"
  shows "arrived ts xs f \<longleftrightarrow> all_pieces (frag_table (tsFrags ts)) (tsSub ts) (seen xs) (fIndex f)"
proof -
  let ?P = "piece_payloads (tsSub ts) (fPayload f)"
  let ?p = "\<lambda>j. f\<lparr>fSubIndex := word_of_nat j, fSubTotal := u32_len ?P, fPayload := ?P ! j\<rparr>"
  have num: "numbered (tsID ts) (tsFrags ts)" using ts by (simp add: spec_fits_def)
  have F: "frag_table (tsFrags ts) (fIndex f) = Some (fPayload f)" using numbered_frag [OF num f] by (simp add: frag_table_def)
  then have N: "length ?P < 2 ^ 32" using ts by (auto simp: spec_fits_def few_pieces_def)
  have key: "(\<exists>x \<in> set xs. carries_piece (snd x) (?p j)) \<longleftrightarrow> (fIndex f, word_of_nat j) \<in> seen xs" if j: "j < length ?P" for j
  proof
    assume "\<exists>x \<in> set xs. carries_piece (snd x) (?p j)"
    then show "(fIndex f, word_of_nat j) \<in> seen xs" by (force simp: seen_def carries_piece_def image_iff)
  next
    assume "(fIndex f, word_of_nat j) \<in> seen xs"
    then obtain x where x: "x \<in> set xs" "pChunkNumber (snd x) = fIndex f" "pSubIndex (snd x) = word_of_nat j"
      by (auto simp: seen_def)
    then obtain f' p where f': "f' \<in> set (tsFrags ts)" "p \<in> set (fragmentPieces f' (tsSub ts))" "carries_piece (snd x) p"
      using xs [OF x(1)] by (auto simp: of_transfer_def)
    then obtain j' where j': "j' < length (piece_payloads (tsSub ts) (fPayload f'))"
      "p = f'\<lparr>fSubIndex := word_of_nat j', fSubTotal := u32_len (piece_payloads (tsSub ts) (fPayload f')),
              fPayload := piece_payloads (tsSub ts) (fPayload f') ! j'\<rparr>"
      unfolding in_fragmentPieces by blast
    have "fIndex f' = fIndex f" using x(2) f'(3) j'(2) by (simp add: carries_piece_def)
    then have ff: "f' = f" using numbered_frag(2) [OF num f] numbered_frag(2) [OF num f'(1)] by metis
    have "(word_of_nat j' :: u32) = word_of_nat j" using x(3) f'(3) j'(2) by (simp add: carries_piece_def)
    then have "unat (word_of_nat j' :: u32) = unat (word_of_nat j :: u32)" by simp
    then have "j' = j" using j j'(1) N ff by (simp add: unat_u32_of_nat)
    then show "\<exists>x \<in> set xs. carries_piece (snd x) (?p j)" using x(1) f'(3) j'(2) ff by blast
  qed
  have "arrived ts xs f \<longleftrightarrow> (\<forall>j < length ?P. \<exists>x \<in> set xs. carries_piece (snd x) (?p j))"
    unfolding arrived_def Ball_def in_fragmentPieces by blast
  then show ?thesis using key F by (simp add: all_pieces_def)
qed

lemma enough_arrived_iff:
  assumes ts: "spec_fits e t ts" and xs: "\<And>x. x \<in> set xs \<Longrightarrow> of_transfer ts (snd x)"
  shows "enough_arrived ts xs \<longleftrightarrow> enough_idx (tsScheme ts) (tsFrags ts) (tsSub ts) (seen xs)"
proof -
  let ?A = "{f \<in> set (tsFrags ts). arrived ts xs f}" and ?all = "all_pieces (frag_table (tsFrags ts)) (tsSub ts) (seen xs)"
  have num: "numbered (tsID ts) (tsFrags ts)" using ts by (simp add: spec_fits_def)
  note arr = arrived_iff [OF ts xs]
  have at: "\<exists>f \<in> set (tsFrags ts). fIndex f = idx" if "unat idx < length (tsFrags ts)" for idx
  proof -
    have "tsFrags ts ! unat idx = mk_fragment (tsID ts) (word_of_nat (unat idx)) (u32_len (tsFrags ts)) (fPayload (tsFrags ts ! unat idx))"
      using num that unfolding numbered_def by blast
    from arg_cong [OF this, of fIndex] have "fIndex (tsFrags ts ! unat idx) = idx" by (simp add: mk_fragment_def)
    then show ?thesis using that by (auto intro!: bexI [of _ "tsFrags ts ! unat idx"])
  qed
  have im: "fIndex ` ?A = {idx. ?all idx}"
  proof (rule set_eqI)
    fix idx
    show "idx \<in> fIndex ` ?A \<longleftrightarrow> idx \<in> {idx. ?all idx}"
      using arr at [of idx] all_pieces_below [of "tsFrags ts" "tsSub ts" "seen xs" idx] by (auto simp: image_iff)
  qed
  have "inj_on fIndex ?A" using numbered_frag(2) [OF num] by (intro inj_onI) (metis (lifting) mem_Collect_eq)
  then have "card ?A = card {idx. ?all idx}" using im card_image [of fIndex ?A] by simp
  moreover have "(\<forall>f \<in> set (tsFrags ts). arrived ts xs f) \<longleftrightarrow> (\<forall>i < length (tsFrags ts). ?all (word_of_nat i))"
  proof -
    have "fIndex (tsFrags ts ! i) = word_of_nat i" if "i < length (tsFrags ts)" for i
      using num that by (metis (no_types, lifting) numbered_def mk_fragment_def fragment.select_convs(2))
    then show ?thesis using arr unfolding all_set_conv_all_nth by (simp add: arr)
  qed
  ultimately show ?thesis by (simp add: enough_arrived_def enough_idx_def)
qed

lemma seen_simps [simp]: "seen [] = {}" "seen (x # xs) = insert (pChunkNumber (snd x), pSubIndex (snd x)) (seen xs)"
  "seen (xs @ ys) = seen xs \<union> seen ys"
  by (auto simp: seen_def)

lemma spec_fits_upd [simp]: "spec_fits e (t\<lparr>tTransfers := m\<rparr>) ts \<longleftrightarrow> spec_fits e t ts"
  by (simp add: spec_fits_def reassembles_def)

lemma ingest_pending:
  assumes ts: "spec_fits e t ts" and xs: "\<And>x. x \<in> set xs \<Longrightarrow> of_transfer ts (snd x)" and slot: "slot_ok ts S t"
    and few: "\<not> enough_idx (tsScheme ts) (tsFrags ts) (tsSub ts) (seen xs \<union> S)"
  shows "\<exists>m. ingest_all e (tsRouted ts) xs t = Some (t\<lparr>tTransfers := m\<rparr>) \<and> slot_ok ts (seen xs \<union> S) (t\<lparr>tTransfers := m\<rparr>) \<and>
     (\<forall>k. k \<noteq> tsID ts \<longrightarrow> gget m k = gget (tTransfers t) k)"
  using assms
proof (induction xs arbitrary: t S)
  case Nil
  then show ?case by (intro exI [of _ "tTransfers t"]) simp
next
  case (Cons x xs)
  let ?S = "insert (pChunkNumber (snd x), pSubIndex (snd x)) S"
  have "\<not> enough_idx (tsScheme ts) (tsFrags ts) (tsSub ts) ?S"
    using Cons.prems(4) enough_idx_mono [of "tsScheme ts" "tsFrags ts" "tsSub ts" ?S "seen (x # xs) \<union> S"] by auto
  then obtain st where st: "ingestForwardedFragment (e\<lparr>teNow := fst x\<rparr>) (snd x) (tsRouted ts) t =
      Some (t\<lparr>tTransfers := gput (tsID ts) st (tTransfers t)\<rparr>)" "state_ok ts ?S st"
    using ingest_step [OF Cons.prems(1) _ Cons.prems(3) refl, of "snd x" "fst x"] Cons.prems(2) by auto
  let ?t = "t\<lparr>tTransfers := gput (tsID ts) st (tTransfers t)\<rparr>"
  have "slot_ok ts ?S ?t" using st(2) by (simp add: slot_ok_def)
  then obtain m where "ingest_all e (tsRouted ts) xs ?t = Some (?t\<lparr>tTransfers := m\<rparr>)" "slot_ok ts (seen xs \<union> ?S) (?t\<lparr>tTransfers := m\<rparr>)"
    "\<forall>k. k \<noteq> tsID ts \<longrightarrow> gget m k = gget (tTransfers ?t) k"
    using Cons.IH [of ?t ?S] Cons.prems by auto
  then show ?case using st(1) by (intro exI [of _ m]) simp
qed

lemma ingest_completes:
  assumes ts: "spec_fits e t ts" and xs: "\<And>y. y \<in> set (xs @ [x]) \<Longrightarrow> of_transfer ts (snd y)"
    and new: "gget (tTransfers t) (tsID ts) = None" and few: "\<not> enough_arrived ts xs" and full: "enough_arrived ts (xs @ [x])"
  shows "\<exists>m. ingest_all e (tsRouted ts) xs t = Some (t\<lparr>tTransfers := m\<rparr>)"
    and "\<exists>m. ingest_all e (tsRouted ts) (xs @ [x]) t = Some (temit (delivery t ts) (t\<lparr>tTransfers := m\<rparr>)) \<and>
      gget m (tsID ts) = None \<and> (\<forall>k. k \<noteq> tsID ts \<longrightarrow> gget m k = gget (tTransfers t) k)"
proof -
  have en: "\<not> enough_idx (tsScheme ts) (tsFrags ts) (tsSub ts) (seen xs)"
      "enough_idx (tsScheme ts) (tsFrags ts) (tsSub ts) (seen (xs @ [x]))"
    using few full enough_arrived_iff [OF ts, of xs] enough_arrived_iff [OF ts, of "xs @ [x]"] xs by auto
  have "slot_ok ts {} t" using new by (simp add: slot_ok_def)
  then obtain m where m: "ingest_all e (tsRouted ts) xs t = Some (t\<lparr>tTransfers := m\<rparr>)" "slot_ok ts (seen xs) (t\<lparr>tTransfers := m\<rparr>)"
    "\<forall>k. k \<noteq> tsID ts \<longrightarrow> gget m k = gget (tTransfers t) k"
    using ingest_pending [OF ts, of xs "{}"] xs en(1) by auto
  from m(1) show "\<exists>m. ingest_all e (tsRouted ts) xs t = Some (t\<lparr>tTransfers := m\<rparr>)" by blast
  have "delivery (t\<lparr>tTransfers := m\<rparr>) ts = delivery t ts" by (simp add: delivery_def)
  then have "ingestForwardedFragment (e\<lparr>teNow := fst x\<rparr>) (snd x) (tsRouted ts) (t\<lparr>tTransfers := m\<rparr>) =
      Some (temit (delivery t ts) (t\<lparr>tTransfers := gdel (tsID ts) m\<rparr>))"
    using ingest_step [OF _ _ m(2) refl, of e "snd x" "fst x"] ts xs [of x] en(2) by (simp add: insert_commute)
  then show "\<exists>m. ingest_all e (tsRouted ts) (xs @ [x]) t = Some (temit (delivery t ts) (t\<lparr>tTransfers := m\<rparr>)) \<and>
      gget m (tsID ts) = None \<and> (\<forall>k. k \<noteq> tsID ts \<longrightarrow> gget m k = gget (tTransfers t) k)"
    using m(1,3) by (intro exI [of _ "gdel (tsID ts) m"]) (simp add: ingest_all_append)
qed

text \<open>
  A transfer as \<^verbatim>\<open>SendDataTracked\<close> prepares it at a sender with configuration \<open>t'\<close>: fragments built with the
  sealer \<open>so\<close>, which the receiver \<open>t\<close> can open, and the flags of that sealer in the scheme. The sizes are
  those that fit the 32-bit fields.
\<close>

definition sent_to :: "tenv \<Rightarrow> 'a config_scheme \<Rightarrow> 'b config_scheme \<Rightarrow> sealer option \<Rightarrow> transfer_spec \<Rightarrow> bool" where
  "sent_to e t' t so ts \<longleftrightarrow>
     (\<exists>rnd rnd' variable sc h q. buildFragments (teRS e) rnd rnd' t' (tsID ts) (tsData ts) variable so = Inr (tsFrags ts, sc) \<and>
        tsScheme ts = sc\<lparr>scHybridSealed := h, scPQ := q\<rparr>) \<and>
     opener_fits so (recipientOpener (teCrypto e) t (tsScheme ts)) \<and>
     (0 < tcDataShards t' \<and> 0 < tcParityShards t' \<longrightarrow> rs_law (teRS e) (tcDataShards t') (tcParityShards t')) \<and>
     tcDataShards t' + tcParityShards t' < 2 ^ 32 \<and> length (tsFrags ts) < 2 ^ 32 \<and> length (tsData ts) < 2 ^ 63 \<and>
     (\<forall>f \<in> set (tsFrags ts). length (fPayload f) < 2 ^ 32)"

lemma sent_fits:
  assumes "sent_to e t' t so ts"
  shows "spec_fits e t ts"
proof -
  obtain rnd rnd' variable sc h q where b: "buildFragments (teRS e) rnd rnd' t' (tsID ts) (tsData ts) variable so = Inr (tsFrags ts, sc)"
    "tsScheme ts = sc\<lparr>scHybridSealed := h, scPQ := q\<rparr>"
    using assms unfolding sent_to_def by blast
  have "few_pieces (frag_table (tsFrags ts)) (tsSub ts)"
    unfolding few_pieces_def
  proof (intro allI impI)
    fix idx p assume "frag_table (tsFrags ts) idx = Some p"
    then have "unat idx < length (tsFrags ts)" "p = fPayload (tsFrags ts ! unat idx)" by (simp_all add: frag_table_def split: if_splits)
    then have "length p < 2 ^ 32" using assms by (simp add: sent_to_def)
    then show "length (piece_payloads (tsSub ts) p) < 2 ^ 32" by (rule length_piece_payloads)
  qed
  then show ?thesis using built_reassembles [OF b(1,2), of t] assms by (simp add: spec_fits_def sent_to_def)
qed

section \<open>Properties\<close>

text \<open>
  C14. A payload sent over relays is delivered once, whole, at the moment enough of it has arrived. The pieces of
  its fragments may come in any order and any number of times, sealed or not, chunked or erasure-coded:
  before all of the fragments (or dataShards of the shards) are there nothing is handed over, and the
  packet that completes them hands over exactly the payload that was sent, followed by the
  acknowledgements over every return path. The state of the transfer is gone then, and no other
  transfer has changed.
\<close>

theorem relayed_payload_delivered:
  assumes "sent_to e t' t so ts" and "\<And>y. y \<in> set (xs @ [x]) \<Longrightarrow> of_transfer ts (snd y)"
    and "gget (tTransfers t) (tsID ts) = None" and "\<not> enough_arrived ts xs" and "enough_arrived ts (xs @ [x])"
  shows "(\<exists>t1. ingest_all e (tsRouted ts) xs t = Some t1 \<and> tOut t1 = tOut t) \<and>
    (\<exists>t2. ingest_all e (tsRouted ts) (xs @ [x]) t = Some t2 \<and> tOut t2 = tOut t @ delivery t ts \<and>
       gget (tTransfers t2) (tsID ts) = None \<and> (\<forall>k. k \<noteq> tsID ts \<longrightarrow> gget (tTransfers t2) k = gget (tTransfers t) k))"
proof
  note c = ingest_completes [OF sent_fits [OF assms(1)] assms(2-)]
  from c(1) show "\<exists>t1. ingest_all e (tsRouted ts) xs t = Some t1 \<and> tOut t1 = tOut t" by auto
  from c(2) obtain m where "ingest_all e (tsRouted ts) (xs @ [x]) t = Some (temit (delivery t ts) (t\<lparr>tTransfers := m\<rparr>))"
      "gget m (tsID ts) = None" "\<forall>k. k \<noteq> tsID ts \<longrightarrow> gget m k = gget (tTransfers t) k" by blast
  then show "\<exists>t2. ingest_all e (tsRouted ts) (xs @ [x]) t = Some t2 \<and> tOut t2 = tOut t @ delivery t ts \<and>
       gget (tTransfers t2) (tsID ts) = None \<and> (\<forall>k. k \<noteq> tsID ts \<longrightarrow> gget (tTransfers t2) k = gget (tTransfers t) k)"
    by (simp add: temit_def)
qed

text \<open>
  C39. Nothing remembers a delivered transfer. When the packets that completed it arrive a second time - the copies sent
  over other paths, or a resend after a lost acknowledgement - the payload is handed over a second time.
\<close>

theorem copies_delivered_again:
  assumes "sent_to e t' t so ts" and "\<And>y. y \<in> set (xs @ [x]) \<Longrightarrow> of_transfer ts (snd y)"
    and "gget (tTransfers t) (tsID ts) = None" and "\<not> enough_arrived ts xs" and "enough_arrived ts (xs @ [x])"
  shows "\<exists>t2. ingest_all e (tsRouted ts) ((xs @ [x]) @ (xs @ [x])) t = Some t2 \<and> tOut t2 = tOut t @ delivery t ts @ delivery t ts"
proof -
  note fits = sent_fits [OF assms(1)]
  obtain m where m: "ingest_all e (tsRouted ts) (xs @ [x]) t = Some (temit (delivery t ts) (t\<lparr>tTransfers := m\<rparr>))"
      "gget m (tsID ts) = None"
    using ingest_completes(2) [OF fits assms(2-)] by blast
  let ?t = "temit (delivery t ts) (t\<lparr>tTransfers := m\<rparr>)"
  have "spec_fits e ?t ts" using fits by (simp add: spec_fits_def reassembles_def)
  moreover have "gget (tTransfers ?t) (tsID ts) = None" using m(2) by (simp add: temit_def)
  moreover have "delivery ?t ts = delivery t ts" by (simp add: temit_def delivery_def)
  ultimately obtain m' where "ingest_all e (tsRouted ts) (xs @ [x]) ?t = Some (temit (delivery t ts) (?t\<lparr>tTransfers := m'\<rparr>))"
    using ingest_completes(2) [OF _ assms(2) _ assms(4,5), of e ?t] by auto
  then show ?thesis using m(1) unfolding ingest_all_append [of _ _ "xs @ [x]" "xs @ [x]"] by (simp add: temit_def)
qed


text \<open>A transfer of three bytes without a key, cut into two pieces; the first piece comes twice.\<close>

definition sample_svc :: transferSvc where
  "sample_svc = \<lparr>tcSelfID = ''me'', tcSealer = None, tcNodePriv = Some [2], tcMlkemDecap = None, tcSealToRecipient = False,
     tcPostQuantum = False, tcDataShards = 0, tcParityShards = 0, tcSubChunkSize = 2, tcStreamBlockSize = 0,
     tcStreamSink = (\<lambda>_. False), tcOnData = True, tcPadCell = 0, tTransfers = [], tPendingAcks = [], tProbes = [],
     tOnDelivered = True, tDiscovery = True, tOut = []\<rparr>"

definition sample_env :: tenv where
  "sample_env = \<lparr>teCrypto = sample_crypto, teRS = sample_rs, teEd = sample_ed25519, teSha256 = id, teNow = 0,
     teAckOrder = id, teStateOrder = id\<rparr>"

definition sample_spec :: transfer_spec where
  "sample_spec = \<lparr>tsID = replicate 32 1, tsScheme = scheme_of False, tsSource = [], tsReply = [9], tsRouted = False,
     tsFrags = [mk_fragment (replicate 32 1) 0 1 [7, 8, 9]], tsSub = 2, tsData = [7, 8, 9]\<rparr>"

definition sample_piece :: "u32 \<Rightarrow> bytes \<Rightarrow> packet" where
  "sample_piece i p = zero_packet\<lparr>pID := replicate 32 1, pTotalChunks := 1, pSubIndex := i, pSubTotal := 2, pReplyBlock := [9],
     pPayload := p\<rparr>"

lemma sample_Split: "Split [7, 8, 9] maxChunkSize = [[7, 8, 9 :: byte]]" "Split [7, 8, 9] 2 = [[7, 8], [9 :: byte]]"
  using Split_Cons [of "1024 * 1024" "[7, 8, 9 :: byte]"] Split_Cons [of 2 "[7, 8, 9 :: byte]"] Split_Cons [of 2 "[9 :: byte]"]
  by (simp_all add: maxChunkSize_def)

lemma sample_sent: "sent_to sample_env sample_svc sample_svc None sample_spec"
  by (simp add: sent_to_def sample_spec_def buildFragments_def rs_fragments_def Let_def sample_Split mk_fragment_def u32_len_def
      opener_fits_def recipientOpener_def sample_svc_def scheme_of_def) blast

lemma sample_pieces: "set (fragmentPieces (mk_fragment (replicate 32 1) 0 1 [7, 8, 9]) 2) =
   {(mk_fragment (replicate 32 1) 0 1 [7, 8])\<lparr>fSubIndex := 0, fSubTotal := 2\<rparr>,
    (mk_fragment (replicate 32 1) 0 1 [9])\<lparr>fSubIndex := 1, fSubTotal := 2\<rparr>}"
  by (simp add: fragmentPieces_def mk_fragment_def sample_Split u32_len_def)

lemmas sample_pieces' = sample_pieces [unfolded mk_fragment_def, simplified]

lemma sample_of_transfer: "of_transfer sample_spec (sample_piece 0 [7, 8])" "of_transfer sample_spec (sample_piece 1 [9])"
  by (simp_all add: of_transfer_def sample_spec_def sample_piece_def sample_pieces' carries_piece_def schemeFromPacket_def
      scheme_of_def zero_packet_def mk_fragment_def)

lemma sample_arrived:
  "\<not> enough_arrived sample_spec [(1, sample_piece 0 [7, 8]), (2, sample_piece 0 [7, 8])]"
  "enough_arrived sample_spec ([(1, sample_piece 0 [7, 8]), (2, sample_piece 0 [7, 8])] @ [(3, sample_piece 1 [9])])"
  by (simp_all add: enough_arrived_def arrived_def sample_spec_def sample_pieces' scheme_of_def sample_piece_def carries_piece_def
      zero_packet_def mk_fragment_def)

lemma sample_all:
  "y \<in> set ([(1, sample_piece 0 [7, 8]), (2, sample_piece 0 [7, 8])] @ [(3 :: int, sample_piece 1 [9])]) \<Longrightarrow> of_transfer sample_spec (snd y)"
  using sample_of_transfer by auto

lemma sample_new: "gget (tTransfers sample_svc) (tsID sample_spec) = None"
  by (simp add: sample_svc_def gget_def)

lemmas sample_transfer = sample_sent sample_all sample_new sample_arrived

lemma sample_delivery: "delivery sample_svc sample_spec = [OnData [7, 8, 9] False, AckReply [9], AckReply [9], AckReply [9]]"
  by (simp add: delivery_def sample_svc_def sample_spec_def scheme_of_def numeral_3_eq_3)

theorem relayed_payload_delivered_witness:
  "\<exists>t2. ingest_all sample_env False [(1, sample_piece 0 [7, 8]), (2, sample_piece 0 [7, 8]), (3, sample_piece 1 [9])] sample_svc =
     Some t2 \<and> tOut t2 = [OnData [7, 8, 9] False, AckReply [9], AckReply [9], AckReply [9]]"
proof -
  have "\<exists>t2. ingest_all sample_env (tsRouted sample_spec)
      ([(1, sample_piece 0 [7, 8]), (2, sample_piece 0 [7, 8])] @ [(3, sample_piece 1 [9])]) sample_svc = Some t2 \<and>
      tOut t2 = tOut sample_svc @ delivery sample_svc sample_spec"
    using relayed_payload_delivered [OF sample_transfer] by blast
  then show ?thesis unfolding sample_delivery by (simp add: sample_svc_def sample_spec_def del: ingest_all.simps)
qed

theorem copies_delivered_again_witness:
  "\<exists>t2. ingest_all sample_env False ([(1, sample_piece 0 [7, 8]), (2, sample_piece 0 [7, 8]), (3, sample_piece 1 [9])] @
       [(1, sample_piece 0 [7, 8]), (2, sample_piece 0 [7, 8]), (3, sample_piece 1 [9])]) sample_svc = Some t2 \<and>
     tOut t2 = [OnData [7, 8, 9] False, AckReply [9], AckReply [9], AckReply [9],
                OnData [7, 8, 9] False, AckReply [9], AckReply [9], AckReply [9]]"
proof -
  let ?xs = "[(1, sample_piece 0 [7, 8]), (2, sample_piece 0 [7, 8])] @ [(3, sample_piece 1 [9])]"
  have "\<exists>t2. ingest_all sample_env (tsRouted sample_spec) (?xs @ ?xs) sample_svc = Some t2 \<and>
      tOut t2 = tOut sample_svc @ delivery sample_svc sample_spec @ delivery sample_svc sample_spec"
    by (rule copies_delivered_again [OF sample_transfer])
  then show ?thesis unfolding sample_delivery by (simp add: sample_svc_def sample_spec_def del: ingest_all.simps)
qed

end
