(* ===== verification/Forwarding.thy ===== *)
theory Forwarding
  imports Delivery
begin

text \<open>
  How an onion blob gets from one node to the next (\<^verbatim>\<open>internal/transfer/reservation.go\<close>, \<^verbatim>\<open>transfer.go\<close>,
  \<^verbatim>\<open>storeforward.go\<close>): over a connection the next node holds, over a dialled one, over a link, or into the store for
  nodes that are offline. A \<open>host\<close> is a node with what the transport uses of it; the \<open>transport\<close> says which writes,
  dials and links succeed. A network is a list of hosts: a link and a held connection lead to the node with an
  identifier, a dialled connection to the node that listens at an address.
\<close>

section \<open>Hosts and the transport\<close>

record pendingBlob =
  pbSeq :: u64
  pbBlob :: bytes
  pbExpiry :: int

record host =
  hSvc :: transferSvc
  hAddr :: string \<comment> \<open>where it listens for data\<close>
  hSignKey :: bytes
  hOnionOverLinks :: bool
  hReservations :: "string list" \<comment> \<open>the nodes that hold a connection to this one\<close>
  hStoreForward :: bool
  hOfflineTTL :: int
  hOffline :: "(string, pendingBlob list) gomap"
  hOffSeq :: u64

record transport =
  trNowStr :: string \<comment> \<open>the time as \<^verbatim>\<open>NewPacket\<close> prints it\<close>
  trHeld :: "string \<Rightarrow> string \<Rightarrow> bool" \<comment> \<open>a node writes on the connection another holds\<close>
  trDial :: "string \<Rightarrow> string \<Rightarrow> bool" \<comment> \<open>a node sends to an address\<close>
  trLink :: "string \<Rightarrow> string \<Rightarrow> bool" \<comment> \<open>a node sends over a link to another\<close>

text \<open>What is on its way: a signed packet on a held or a dialled connection, or a blob on a link.\<close>

datatype wire = Reserved string packet | Dialled string packet | Linked string bytes

abbreviation hID :: "host \<Rightarrow> string" where "hID h \<equiv> tcSelfID (hSvc h)"

section \<open>Sending to one hop\<close>

definition relay_packet :: "tenv \<Rightarrow> transport \<Rightarrow> bytes \<Rightarrow> host \<Rightarrow> packet" where
  "relay_packet e tr blob h =
     Sign (teEd e) (hSignKey h)
       ((NewPacket (teSha256 e) (of_int (teNow e)) (trNowStr tr) PacketTypeRelay blob [] [])\<lparr>pSourceNode := hID h\<rparr>)"

definition reservationFor :: "string \<Rightarrow> host \<Rightarrow> bool" where
  "reservationFor nodeID h \<longleftrightarrow> nodeID \<noteq> [] \<and> nodeID \<in> set (hReservations h)"

definition reservedConn_send :: "tenv \<Rightarrow> transport \<Rightarrow> string \<Rightarrow> bytes \<Rightarrow> host \<Rightarrow> wire option" where
  "reservedConn_send e tr nodeID blob h =
     (if trHeld tr (hID h) nodeID then Some (Reserved nodeID (relay_packet e tr blob h)) else None)"

definition sendRelayBlob :: "tenv \<Rightarrow> transport \<Rightarrow> string \<Rightarrow> bytes \<Rightarrow> host \<Rightarrow> wire option" where
  "sendRelayBlob e tr addr blob h =
     (if trDial tr (hID h) addr then Some (Dialled addr (relay_packet e tr blob h)) else None)"

definition sendRelayViaLink :: "transport \<Rightarrow> string \<Rightarrow> bytes \<Rightarrow> host \<Rightarrow> wire option" where
  "sendRelayViaLink tr nodeID blob h =
     (if nodeID = [] then None
      else if trLink tr (hID h) nodeID then Some (Linked nodeID blob) else None)"

definition sendRelayHop :: "tenv \<Rightarrow> transport \<Rightarrow> string \<Rightarrow> string \<Rightarrow> bytes \<Rightarrow> host \<Rightarrow> wire option" where
  "sendRelayHop e tr nodeID addr blob h =
     (if hOnionOverLinks h
      then (case sendRelayViaLink tr nodeID blob h of Some w \<Rightarrow> Some w | None \<Rightarrow> sendRelayBlob e tr addr blob h)
      else (case sendRelayBlob e tr addr blob h of Some w \<Rightarrow> Some w | None \<Rightarrow> sendRelayViaLink tr nodeID blob h))"

definition maxOfflinePerNode :: nat where "maxOfflinePerNode = 64"

definition storeOffline :: "int \<Rightarrow> string \<Rightarrow> bytes \<Rightarrow> host \<Rightarrow> host" where
  "storeOffline now nodeID blob h =
     (if \<not> hStoreForward h \<or> nodeID = [] then h
      else let seq = hOffSeq h + 1;
               held = (case gget (hOffline h) nodeID of Some q \<Rightarrow> q | None \<Rightarrow> []);
               q = held @ [\<lparr>pbSeq = seq, pbBlob = blob, pbExpiry = now + hOfflineTTL h\<rparr>];
               q = (if length q > maxOfflinePerNode then drop (length q - maxOfflinePerNode) q else q)
           in h\<lparr>hOffSeq := seq, hOffline := gput nodeID q (hOffline h)\<rparr>)"

definition forwardToNextHop :: "tenv \<Rightarrow> transport \<Rightarrow> string \<Rightarrow> string \<Rightarrow> bytes \<Rightarrow> host \<Rightarrow> host \<times> wire option" where
  "forwardToNextHop e tr nextNode nextAddr blob h =
     (case (if reservationFor nextNode h then reservedConn_send e tr nextNode blob h else None) of
        Some w \<Rightarrow> (h, Some w)
      | None \<Rightarrow>
          (case sendRelayHop e tr nextNode nextAddr blob h of
             Some w \<Rightarrow> (h, Some w)
           | None \<Rightarrow> (storeOffline (teNow e) nextNode blob h, None)))"

section \<open>Arrival\<close>

text \<open>The reading loop of a node on the connection it holds with a relay, for one packet.\<close>

definition runReservation_read :: "tenv \<Rightarrow> packet \<Rightarrow> transferSvc \<Rightarrow> transferSvc option" where
  "runReservation_read e pkt t =
     (if \<not> bound_sender e pkt then Some t
      else if pType pkt = PacketTypeRelay then handleRelayBlob e (pPayload pkt) t
      else Some t)"

fun take_in :: "tenv \<Rightarrow> wire \<Rightarrow> transferSvc \<Rightarrow> transferSvc option" where
  "take_in e (Reserved _ pkt) t = runReservation_read e pkt t"
| "take_in e (Dialled _ pkt) t = handleConnection e [pkt] t"
| "take_in e (Linked _ blob) t = handleRelayBlob e blob t"

fun first_host :: "(host \<Rightarrow> bool) \<Rightarrow> host list \<Rightarrow> nat option" where
  "first_host P [] = None"
| "first_host P (h # hs) = (if P h then Some 0 else map_option Suc (first_host P hs))"

fun reached :: "wire \<Rightarrow> host list \<Rightarrow> nat option" where
  "reached (Reserved nodeID _) hosts = first_host (\<lambda>h. hID h = nodeID) hosts"
| "reached (Dialled addr _) hosts = first_host (\<lambda>h. hAddr h = addr) hosts"
| "reached (Linked nodeID _) hosts = first_host (\<lambda>h. hID h = nodeID) hosts"

text \<open>
  A blob on its way through the network: the node it reaches takes it in, and when that node peels a layer off, it sends
  the rest to the hop that layer names. The fuel bounds the number of nodes that take part; \<open>None\<close> is a
  panic or too little fuel.
\<close>

fun travel :: "tenv \<Rightarrow> transport \<Rightarrow> nat \<Rightarrow> wire option \<Rightarrow> host list \<Rightarrow> host list option" where
  "travel e tr fuel None hosts = Some hosts"
| "travel e tr 0 (Some w) hosts = None"
| "travel e tr (Suc fuel) (Some w) hosts =
     (case reached w hosts of
        None \<Rightarrow> Some hosts
      | Some j \<Rightarrow>
          let h = hosts ! j in
          (case take_in e w (hSvc h) of
             None \<Rightarrow> None
           | Some t \<Rightarrow>
               (case drop (length (tOut (hSvc h))) (tOut t) of
                  [ForwardHop nextNode nextAddr inner] \<Rightarrow>
                    (case forwardToNextHop e tr nextNode nextAddr inner (h\<lparr>hSvc := t\<rparr>) of
                       (h, w) \<Rightarrow> travel e tr fuel w (hosts[j := h]))
                | _ \<Rightarrow> Some (hosts[j := h\<lparr>hSvc := t\<rparr>]))))"

section \<open>Where a blob gets\<close>

text \<open>Identifiers and addresses are unique, and every node has the identifier of its signing key.\<close>

definition own_identity :: "tenv \<Rightarrow> host \<Rightarrow> bool" where
  "own_identity e h \<longleftrightarrow> generated_key (teEd e) (hSignKey h) \<and> hID h = DeriveNodeID (teSha256 e) (edPublic (teEd e) (hSignKey h))"

definition network_ok :: "tenv \<Rightarrow> host list \<Rightarrow> bool" where
  "network_ok e hosts \<longleftrightarrow> signature_scheme (teEd e) \<and> distinct (map hID hosts) \<and> distinct (map hAddr hosts) \<and>
     (\<forall>h \<in> set hosts. own_identity e h)"

text \<open>The node at \<open>j\<close> is the hop of an onion: it has its identifier and address, and the private key to its layer.\<close>

definition hop_at :: "tenv \<Rightarrow> host list \<Rightarrow> onionHop \<Rightarrow> nat \<Rightarrow> bool" where
  "hop_at e hosts hop j \<longleftrightarrow> j < length hosts \<and> hID (hosts ! j) = ohNodeID hop \<and> hAddr (hosts ! j) = ohAddr hop \<and>
     (\<exists>priv. tcNodePriv (hSvc (hosts ! j)) = Some priv \<and> ohPubKey hop = Some (cX25519Pub (teCrypto e) priv))"

text \<open>A node can send to a hop: it can dial its address or has a link to it; a relay may also hold its connection.\<close>

definition can_send :: "transport \<Rightarrow> host \<Rightarrow> onionHop \<Rightarrow> bool" where
  "can_send tr h hop \<longleftrightarrow> trDial tr (hID h) (ohAddr hop) \<or> ohNodeID hop \<noteq> [] \<and> trLink tr (hID h) (ohNodeID hop)"

definition can_forward :: "transport \<Rightarrow> host \<Rightarrow> onionHop \<Rightarrow> bool" where
  "can_forward tr h hop \<longleftrightarrow> can_send tr h hop \<or> reservationFor (ohNodeID hop) h \<and> trHeld tr (hID h) (ohNodeID hop)"

fun along :: "tenv \<Rightarrow> transport \<Rightarrow> host list \<Rightarrow> nat \<Rightarrow> onionHop list \<Rightarrow> nat list \<Rightarrow> bool" where
  "along e tr hosts dst [hop] [j] \<longleftrightarrow> hop_at e hosts hop j \<and> j = dst"
| "along e tr hosts dst (hop # hop' # hops) (j # j' # js) \<longleftrightarrow>
     hop_at e hosts hop j \<and> j \<noteq> dst \<and> can_forward tr (hosts ! j) hop' \<and> along e tr hosts dst (hop' # hops) (j' # js)"
| "along e tr hosts dst _ _ \<longleftrightarrow> False"

definition path_keys :: "host list \<Rightarrow> nat list \<Rightarrow> bytes list" where
  "path_keys hosts js = map (\<lambda>j. the (tcNodePriv (hSvc (hosts ! j)))) js"

lemma first_host_is: "j < length hosts \<Longrightarrow> P (hosts ! j) \<Longrightarrow> (\<And>i. i < j \<Longrightarrow> \<not> P (hosts ! i)) \<Longrightarrow> first_host P hosts = Some j"
proof (induction hosts arbitrary: j)
  case (Cons h hs)
  show ?case
  proof (cases j)
    case 0
    then show ?thesis using Cons.prems by simp
  next
    case (Suc i)
    have "\<not> P (hs ! k)" if "k < i" for k using Cons.prems(3) [of "Suc k"] that Suc by simp
    then have "first_host P hs = Some i" using Cons.prems(1,2) Suc by (intro Cons.IH) auto
    then show ?thesis using Cons.prems(3) [of 0] Suc by simp
  qed
qed simp

lemma first_host_unique:
  assumes "distinct (map f hosts)" "j < length hosts" "f (hosts ! j) = x"
  shows "first_host (\<lambda>h. f h = x) hosts = Some j"
  using assms by (intro first_host_is) (auto simp: distinct_conv_nth)

lemma Sign_source: "pSourceNode (Sign ed priv p) = pSourceNode p"
  by (simp add: Sign_def Let_def)

lemma relay_packet_bound: "network_ok e hosts \<Longrightarrow> own_identity e h \<Longrightarrow> bound_sender e (relay_packet e tr blob h)"
  by (auto simp: bound_sender_def relay_packet_def network_ok_def own_identity_def Verify_Sign SignerID_def Sign_simps Sign_source generated_length)

lemma relay_packet_fields [simp]: "pType (relay_packet e tr blob h) = PacketTypeRelay" "pPayload (relay_packet e tr blob h) = blob"
  by (simp_all add: relay_packet_def Sign_def NewPacket_def Let_def)

text \<open>A wire that leads to a node: it reaches the node, which takes in the blob.\<close>

definition leads_to :: "tenv \<Rightarrow> host list \<Rightarrow> nat \<Rightarrow> bytes \<Rightarrow> wire \<Rightarrow> bool" where
  "leads_to e hosts j blob w \<longleftrightarrow> reached w hosts = Some j \<and> (\<forall>t. take_in e w t = handleRelayBlob e blob t)"

lemma takes_relay_packet:
  assumes "network_ok e hosts" "own_identity e h"
  shows "runReservation_read e (relay_packet e tr blob h) t = handleRelayBlob e blob t"
    "handleConnection e [relay_packet e tr blob h] t = handleRelayBlob e blob t"
  using relay_packet_bound [OF assms]
  by (simp_all add: runReservation_read_def handleConnection_def packet_type_defs split: option.split)

lemma leads_wires:
  assumes "network_ok e hosts" "own_identity e h" "hop_at e hosts hop j"
  shows "leads_to e hosts j blob (Dialled (ohAddr hop) (relay_packet e tr blob h))"
    "leads_to e hosts j blob (Reserved (ohNodeID hop) (relay_packet e tr blob h))"
    "leads_to e hosts j blob (Linked (ohNodeID hop) blob)"
  using assms takes_relay_packet [OF assms(1,2)]
  by (auto simp: leads_to_def network_ok_def hop_at_def intro: first_host_unique [where f = hAddr] first_host_unique [where f = hID])

lemma sendRelayHop_leads:
  assumes "network_ok e hosts" "own_identity e h" "hop_at e hosts hop j" "can_send tr h hop"
  obtains w where "sendRelayHop e tr (ohNodeID hop) (ohAddr hop) blob h = Some w" "leads_to e hosts j blob w"
proof -
  obtain w where w: "sendRelayHop e tr (ohNodeID hop) (ohAddr hop) blob h = Some w"
    using assms(4) by (cases "sendRelayHop e tr (ohNodeID hop) (ohAddr hop) blob h")
      (auto simp: can_send_def sendRelayHop_def sendRelayBlob_def sendRelayViaLink_def split: if_splits)
  then have "leads_to e hosts j blob w"
    using leads_wires(1,3) [OF assms(1-3), of blob]
    by (auto simp: sendRelayHop_def sendRelayBlob_def sendRelayViaLink_def split: if_splits)
  with w show ?thesis by (rule that)
qed

lemma forwardToNextHop_leads:
  assumes "network_ok e hosts" "own_identity e h" "hop_at e hosts hop j" "can_forward tr h hop"
  obtains w where "forwardToNextHop e tr (ohNodeID hop) (ohAddr hop) blob h = (h, Some w)" "leads_to e hosts j blob w"
proof (cases "reservationFor (ohNodeID hop) h \<and> trHeld tr (hID h) (ohNodeID hop)")
  case True
  then show ?thesis
    using that leads_wires(2) [OF assms(1-3)] by (simp add: forwardToNextHop_def reservedConn_send_def)
next
  case False
  then have "can_send tr h hop" using assms(4) by (auto simp: can_forward_def)
  then obtain w where w: "sendRelayHop e tr (ohNodeID hop) (ohAddr hop) blob h = Some w" "leads_to e hosts j blob w"
    using sendRelayHop_leads [OF assms(1-3)] by blast
  show ?thesis by (rule that [OF _ w(2)]) (use False w(1) in \<open>auto simp: forwardToNextHop_def reservedConn_send_def\<close>)
qed

text \<open>What a blob leaves behind: a host whose service is in another state, with the identifier and the key it had.\<close>

definition same_host :: "host \<Rightarrow> host \<Rightarrow> bool" where
  "same_host h h' \<longleftrightarrow> h' = h\<lparr>hSvc := hSvc h'\<rparr> \<and> hID h' = hID h \<and> tcNodePriv (hSvc h') = tcNodePriv (hSvc h)"

definition same_hosts :: "host list \<Rightarrow> host list \<Rightarrow> bool" where
  "same_hosts hosts hosts' \<longleftrightarrow> list_all2 same_host hosts hosts'"

lemma same_hostD:
  assumes "same_host h h'"
  shows "hID h' = hID h" "hAddr h' = hAddr h" "hSignKey h' = hSignKey h" "hOnionOverLinks h' = hOnionOverLinks h"
    "hReservations h' = hReservations h" "tcNodePriv (hSvc h') = tcNodePriv (hSvc h)"
proof -
  from assms have eq: "h' = h\<lparr>hSvc := hSvc h'\<rparr>" by (simp add: same_host_def)
  show "hID h' = hID h" "tcNodePriv (hSvc h') = tcNodePriv (hSvc h)" using assms by (simp_all add: same_host_def)
  show "hAddr h' = hAddr h" "hSignKey h' = hSignKey h" "hOnionOverLinks h' = hOnionOverLinks h" "hReservations h' = hReservations h"
    by (subst eq, simp)+
qed

lemma same_hosts_nth: "same_hosts hosts hosts' \<Longrightarrow> j < length hosts \<Longrightarrow> same_host (hosts ! j) (hosts' ! j)"
  by (simp add: same_hosts_def list_all2_nthD)

lemma same_hosts_length: "same_hosts hosts hosts' \<Longrightarrow> length hosts' = length hosts"
  by (simp add: same_hosts_def list_all2_lengthD)

lemma own_identity_same: "same_host h h' \<Longrightarrow> own_identity e h' = own_identity e h"
  using same_hostD [of h h'] by (simp add: own_identity_def)

lemma hop_at_same: "same_hosts hosts hosts' \<Longrightarrow> hop_at e hosts hop j \<Longrightarrow> hop_at e hosts' hop j"
  using same_hostD [OF same_hosts_nth] same_hosts_length by (simp add: hop_at_def)

lemma network_ok_same:
  assumes "same_hosts hosts hosts'" "network_ok e hosts"
  shows "network_ok e hosts'"
proof -
  have len: "length hosts' = length hosts" by (rule same_hosts_length [OF assms(1)])
  have "map hID hosts' = map hID hosts" "map hAddr hosts' = map hAddr hosts"
    using len same_hostD(1,2) [OF same_hosts_nth [OF assms(1)]] by (simp_all add: list_eq_iff_nth_eq)
  moreover have "own_identity e h" if "h \<in> set hosts'" for h
  proof -
    obtain i where "i < length hosts" "h = hosts' ! i" using \<open>h \<in> set hosts'\<close> len by (auto simp: in_set_conv_nth)
    then show ?thesis using assms own_identity_same [OF same_hosts_nth [OF assms(1)]] by (auto simp: network_ok_def)
  qed
  ultimately show ?thesis using assms(2) by (simp add: network_ok_def)
qed

lemma along_hop: "along e tr hosts dst (hop # hops) (j # js) \<Longrightarrow> hop_at e hosts hop j"
  by (cases hops; cases js) auto

lemma along_same: "along e tr hosts dst hops js \<Longrightarrow> same_hosts hosts hosts' \<Longrightarrow> along e tr hosts' dst hops js"
proof (induction e tr hosts dst hops js rule: along.induct)
  case (2 e tr hosts dst hop hop' hops j j' js)
  have "same_host (hosts ! j) (hosts' ! j)" using 2 by (intro same_hosts_nth) (auto simp: hop_at_def)
  from same_hostD [OF this] have "can_forward tr (hosts' ! j) hop'"
    using "2.prems"(1) by (simp add: can_forward_def can_send_def reservationFor_def)
  then show ?case using 2 hop_at_same by auto
qed (auto intro: hop_at_same)

lemma along_keys:
  "along e tr hosts dst hops js \<Longrightarrow>
   map ohPubKey hops = map (\<lambda>k. Some (cX25519Pub (teCrypto e) k)) (path_keys hosts js) \<and> hops \<noteq> [] \<and> dst \<in> set js \<and>
   length hops = length js"
  by (induction e tr hosts dst hops js rule: along.induct) (auto simp: path_keys_def hop_at_def)

lemma path_keys_same: "along e tr hosts dst hops js \<Longrightarrow> same_hosts hosts hosts' \<Longrightarrow> path_keys hosts' js = path_keys hosts js"
proof (induction e tr hosts dst hops js rule: along.induct)
qed (auto simp: path_keys_def hop_at_def same_hostD(6) [OF same_hosts_nth])

end
