(* ===== verification/Relaying.thy ===== *)
theory Relaying
  imports Forwarding
begin

text \<open>
  What the receiving side of the transfer service promises as a whole: an onion carries a fragment
  through its relays into the delivery of \<open>Delivery\<close>; an acknowledgement is believed only with
  evidence from the destination; the registrations kept for late acknowledgements are bounded; and
  when a packet can stop the process.
\<close>

section \<open>What ingestion may do\<close>

text \<open>The events of a delivery; all others belong to forwarding, connections and own transfers.\<close>

fun plain_event :: "tevent \<Rightarrow> bool" where
  "plain_event (OnData _ _) = True"
| "plain_event (CloseSink _) = True"
| "plain_event (AckReply _) = True"
| "plain_event (AckDirect _ _) = True"
| "plain_event (AckRouted _ _) = True"
| "plain_event _ = False"

lemma sa_finish_plain: "x \<in> set (snd (sa_finish t sa)) \<Longrightarrow> plain_event x"
  by (auto simp: sa_finish_def split: option.splits if_splits)

lemma flushReady_plain: "x \<in> set (snd (flushReady t sa)) \<Longrightarrow> plain_event x"
proof (induction t sa rule: flushReady.induct)
  case (1 t sa)
  show ?case
  proof (cases "gget (saBlocks sa) (saNextFlush sa)")
    case None
    then show ?thesis using "1.prems" by (simp add: flushReady.simps)
  next
    case (Some b)
    show ?thesis
    proof (cases "skReady b \<and> \<not> skFinal b")
      case True
      then show ?thesis using "1.IH" [OF Some _ refl refl] "1.prems" Some by (subst (asm) flushReady.simps) (simp add: Let_def)
    next
      case False
      then show ?thesis using "1.prems" Some sa_finish_plain
        by (subst (asm) flushReady.simps) (auto simp: Let_def split: if_splits)
    qed
  qed
qed

lemma sa_add_plain: "sa_add c rs t now pkt sa = Some (sa', ev, fin) \<Longrightarrow> x \<in> set ev \<Longrightarrow> plain_event x"
  using flushReady_plain [of x t]
  by (auto simp: sa_add_def Let_def split: if_splits option.splits prod.splits) (metis snd_conv)+

lemma ackSenders_plain: "x \<in> set (ackSenders t st) \<Longrightarrow> plain_event x"
  by (auto simp: ackSenders_def split: if_splits)

text \<open>Events are only appended, all of one kind, and the registrations, the key and the identifier stay.\<close>

definition only_adds :: "(tevent \<Rightarrow> bool) \<Rightarrow> transferSvc \<Rightarrow> transferSvc \<Rightarrow> bool" where
  "only_adds P t t' \<longleftrightarrow> (\<exists>ev. tOut t' = tOut t @ ev \<and> (\<forall>x \<in> set ev. P x)) \<and> tPendingAcks t' = tPendingAcks t \<and>
     tcNodePriv t' = tcNodePriv t \<and> tcSelfID t' = tcSelfID t"

lemma only_adds_temit: "\<forall>x \<in> set ev. P x \<Longrightarrow> only_adds P t (temit ev (t\<lparr>tTransfers := m\<rparr>))"
  "\<forall>x \<in> set ev. P x \<Longrightarrow> only_adds P t (temit ev t)" "only_adds P t (t\<lparr>tTransfers := m\<rparr>)" "only_adds P t t"
  by (auto simp: only_adds_def temit_def)

lemma tdispatch_plain: "only_adds plain_event t (tdispatch st data (t\<lparr>tTransfers := m\<rparr>))" "only_adds plain_event t (tdispatch st data t)"
  unfolding tdispatch_def
  by (rule only_adds_temit, use ackSenders_plain in \<open>auto simp: ackWithRedundancy_def split: if_splits\<close>)+

lemma ingest_plain: "ingestForwardedFragment e pkt routed t = Some t' \<Longrightarrow> only_adds plain_event t t'"
  using sa_add_plain [of "teCrypto e" "teRS e" t "teNow e" pkt]
  by (auto simp: ingestForwardedFragment_def Let_def intro!: only_adds_temit tdispatch_plain split: if_splits option.splits prod.splits)

section \<open>Onions through relays\<close>

lemma handle_relay:
  assumes "tcNodePriv n = Some priv" and "PeelOnion (teCrypto e) priv blob = Inr p" and "\<not> opIsFinal p"
  shows "handleRelayBlob e blob n = Some (temit [ForwardHop (opNextNode p) (opNextAddr p) (opInner p)] n)"
  using assms by (simp add: handleRelayBlob_def)

lemma handle_final:
  assumes "tcNodePriv n = Some priv" and "PeelOnion (teCrypto e) priv blob = Inr p" and "opIsFinal p"
    and "opInner p = MarshalBinary pkt" and "packet_ok pkt" and "\<not> pDecoy pkt" and "pType pkt \<noteq> PacketTypeAcknowledgement"
  shows "handleRelayBlob e blob n = ingestForwardedFragment e pkt False n"
  using assms Unmarshal_Marshal [OF assms(5), of zero_packet "[]"] by (simp add: handleRelayBlob_def)

text \<open>
  What an onion leaves behind on its way to the node \<open>dst\<close>: the others have forwarded, and nothing else of them has
  changed; the node itself has its service in the state \<open>d'\<close>.
\<close>

definition only_forwards :: "host \<Rightarrow> host \<Rightarrow> bool" where
  "only_forwards h h' \<longleftrightarrow> (\<exists>ev. h' = h\<lparr>hSvc := temit ev (hSvc h)\<rparr> \<and> (\<forall>x \<in> set ev. \<exists>nextNode nextAddr blob. x = ForwardHop nextNode nextAddr blob))"

definition carried :: "nat \<Rightarrow> transferSvc \<Rightarrow> host list \<Rightarrow> host list \<Rightarrow> bool" where
  "carried dst d' hosts hosts' \<longleftrightarrow> length hosts' = length hosts \<and> hosts' ! dst = (hosts ! dst)\<lparr>hSvc := d'\<rparr> \<and>
     (\<forall>j < length hosts. j \<noteq> dst \<longrightarrow> only_forwards (hosts ! j) (hosts' ! j))"

lemma only_forwards_refl [simp]: "only_forwards h h"
  unfolding only_forwards_def by (intro exI [of _ "[]"]) (simp add: temit_def)

lemma only_forwards_trans:
  assumes "only_forwards h h'" "only_forwards h' h''"
  shows "only_forwards h h''"
proof -
  obtain ev ev' where "h' = h\<lparr>hSvc := temit ev (hSvc h)\<rparr>" "h'' = h'\<lparr>hSvc := temit ev' (hSvc h')\<rparr>"
    and f: "\<forall>x \<in> set ev. \<exists>k a b. x = ForwardHop k a b" "\<forall>x \<in> set ev'. \<exists>k a b. x = ForwardHop k a b"
    using assms unfolding only_forwards_def by blast
  then have "h'' = h\<lparr>hSvc := temit (ev @ ev') (hSvc h)\<rparr>" by (simp add: temit_def)
  then show ?thesis using f unfolding only_forwards_def by (intro exI [of _ "ev @ ev'"]) auto
qed

lemma carried_trans: "carried dst d' hosts hosts' \<Longrightarrow> carried dst d'' hosts' hosts'' \<Longrightarrow> carried dst d'' hosts hosts''"
  using only_forwards_trans by (fastforce simp: carried_def)

lemma only_forwards_same: "only_forwards h h' \<Longrightarrow> same_host h h'"
  by (auto simp: only_forwards_def same_host_def temit_def)

lemma carried_same:
  assumes "carried dst d' hosts hosts'" "only_adds P (hSvc (hosts ! dst)) d'"
  shows "same_hosts hosts hosts'"
  unfolding same_hosts_def list_all2_conv_all_nth
proof (intro conjI allI impI)
  fix j assume "j < length hosts"
  then show "same_host (hosts ! j) (hosts' ! j)"
    using assms only_forwards_same by (cases "j = dst") (auto simp: carried_def same_host_def only_adds_def)
qed (use assms(1) in \<open>simp add: carried_def\<close>)

lemma travel_along:
  assumes "along e tr hosts dst hops js" and "network_ok e hosts" and "leads_to e hosts (hd js) blob w"
    and "peel_along (teCrypto e) (path_keys hosts js) blob = (map (\<lambda>h. (ohNodeID h, ohAddr h)) (tl hops), Some (MarshalBinary pkt))"
    and "length js \<le> fuel"
    and pkt: "packet_ok pkt" "\<not> pDecoy pkt" "pType pkt \<noteq> PacketTypeAcknowledgement"
    and "ingestForwardedFragment e pkt False (hSvc (hosts ! dst)) = Some d'"
  shows "\<exists>hosts'. travel e tr fuel (Some w) hosts = Some hosts' \<and> carried dst d' hosts hosts'"
  using assms(1-5,9)
proof (induction js arbitrary: hops hosts blob w fuel)
  case (Cons j js)
  obtain hop hops' where hops: "hops = hop # hops'" using along_keys [OF Cons.prems(1)] by (cases hops) auto
  obtain f where fuel: "fuel = Suc f" using Cons.prems(5) by (cases fuel) auto
  have hop: "hop_at e hosts hop j" using along_hop Cons.prems(1) hops by blast
  let ?h = "hosts ! j"
  obtain priv where priv: "tcNodePriv (hSvc ?h) = Some priv" using hop by (auto simp: hop_at_def)
  have keys: "path_keys hosts (j # js) = priv # path_keys hosts js" using priv by (simp add: path_keys_def)
  have lead: "reached w hosts = Some j" "take_in e w t = handleRelayBlob e blob t" for t
    using Cons.prems(3) by (simp_all add: leads_to_def)
  show ?case
  proof (cases js)
    case Nil
    then have last: "hops' = []" "j = dst" using Cons.prems(1) hops by (cases hops', auto)+
    obtain p where p: "PeelOnion (teCrypto e) priv blob = Inr p" "opIsFinal p" "opInner p = MarshalBinary pkt"
      using Cons.prems(4) last hops Nil unfolding keys by (auto simp: path_keys_def split: sum.splits if_splits prod.splits)
    have t: "take_in e w (hSvc ?h) = Some d'"
      using lead(2) handle_final [OF priv p pkt] Cons.prems(6) last(2) by simp
    obtain ev where ev: "tOut d' = tOut (hSvc ?h) @ ev" "\<forall>x \<in> set ev. plain_event x"
      using ingest_plain [OF Cons.prems(6)] last(2) by (auto simp: only_adds_def)
    have "travel e tr fuel (Some w) hosts = Some (hosts[j := ?h\<lparr>hSvc := d'\<rparr>])"
      using lead(1) t ev by (auto simp: fuel Let_def split: list.split tevent.split)
    then show ?thesis using last(2) hop by (auto simp: carried_def hop_at_def)
  next
    case js: (Cons j' js')
    then obtain hop' hops'' where hs: "hops' = hop' # hops''" and j: "j \<noteq> dst" "can_forward tr ?h hop'" "along e tr hosts dst hops' js"
      using Cons.prems(1) hops by (cases hops') auto
    obtain p where p: "PeelOnion (teCrypto e) priv blob = Inr p" "\<not> opIsFinal p" "opNextNode p = ohNodeID hop'" "opNextAddr p = ohAddr hop'"
      "peel_along (teCrypto e) (path_keys hosts js) (opInner p) = (map (\<lambda>h. (ohNodeID h, ohAddr h)) (tl hops'), Some (MarshalBinary pkt))"
      using Cons.prems(4) hops hs unfolding keys by (auto split: sum.splits if_splits prod.splits)
    let ?t = "temit [ForwardHop (ohNodeID hop') (ohAddr hop') (opInner p)] (hSvc ?h)"
    let ?h' = "?h\<lparr>hSvc := ?t\<rparr>" and ?hosts = "hosts[j := ?h\<lparr>hSvc := ?t\<rparr>]"
    have t: "take_in e w (hSvc ?h) = Some ?t" using lead(2) handle_relay [OF priv p(1,2)] p(3,4) by simp
    have fw: "only_forwards ?h ?h'" unfolding only_forwards_def by (rule exI, rule conjI, rule refl) simp
    have same: "same_hosts hosts ?hosts"
      using only_forwards_same [OF fw] only_forwards_same [OF only_forwards_refl]
      by (simp add: same_hosts_def list_all2_conv_all_nth) (metis nth_list_update_eq nth_list_update_neq)
    have len: "j < length hosts" "hosts ! j \<in> set hosts" using hop by (auto simp: hop_at_def)
    have net: "network_ok e ?hosts" by (rule network_ok_same [OF same Cons.prems(2)])
    have "own_identity e ?h'"
      using own_identity_same [OF only_forwards_same [OF fw]] Cons.prems(2) len(2) by (simp add: network_ok_def)
    moreover have "hop_at e ?hosts hop' j'" using along_hop j(3) hs js hop_at_same [OF same] by blast
    moreover have "can_forward tr ?h' hop'" using j(2) by (simp add: can_forward_def can_send_def reservationFor_def temit_def)
    ultimately obtain w' where w': "forwardToNextHop e tr (ohNodeID hop') (ohAddr hop') (opInner p) ?h' = (?h', Some w')"
      "leads_to e ?hosts (hd js) (opInner p) w'"
      using forwardToNextHop_leads [OF net] js by (metis list.sel(1))
    have step: "travel e tr fuel (Some w) hosts = travel e tr f (Some w') ?hosts"
      using lead(1) t w'(1) by (simp add: fuel Let_def temit_def)
    have "\<exists>hosts'. travel e tr f (Some w') ?hosts = Some hosts' \<and> carried dst d' ?hosts hosts'"
    proof (rule Cons.IH [OF along_same [OF j(3) same] net w'(2)])
      show "peel_along (teCrypto e) (path_keys ?hosts js) (opInner p) =
          (map (\<lambda>h. (ohNodeID h, ohAddr h)) (tl hops'), Some (MarshalBinary pkt))"
        using p(5) path_keys_same [OF j(3) same] by simp
      show "ingestForwardedFragment e pkt False (hSvc (?hosts ! dst)) = Some d'" using Cons.prems(6) j(1) by simp
    qed (use Cons.prems(5) fuel in simp)
    then obtain hosts' where h': "travel e tr f (Some w') ?hosts = Some hosts'" "carried dst d' ?hosts hosts'" by blast
    have "carried dst (hSvc (hosts ! dst)) hosts ?hosts" using fw j(1) len(1) by (auto simp: carried_def nth_list_update)
    then show ?thesis using h' step carried_trans by auto
  qed
qed (use along_keys in fastforce)

text \<open>The packet inside an onion is one of the transfer.\<close>

lemma padPacket_fields: "\<exists>pad. padPacket t pkt = pkt\<lparr>pPad := pad\<rparr>"
proof -
  let ?r = "marshaledLen (pkt\<lparr>pPad := []\<rparr>) mod tcPadCell t"
  have "padPacket t pkt = pkt\<lparr>pPad := (if tcPadCell t \<le> 0 then pPad pkt else if ?r = 0 then []
      else replicate (nat (tcPadCell t - ?r)) 0)\<rparr>"
    by (simp add: padPacket_def Let_def)
  then show ?thesis ..
qed

lemma inner_packet_facts:
  assumes "f \<in> set (tsFrags ts)" and "p \<in> set (fragmentPieces f (tsSub ts))"
    and "pkt = inner_packet sha256 now nowStr t (tsID ts) dst (tsSource ts) p (tsScheme ts) (tsReply ts)"
  shows "of_transfer ts pkt" and "\<not> pDecoy pkt" and "pType pkt \<noteq> PacketTypeAcknowledgement"
proof -
  let ?q = "applyScheme ((stampStreaming ((NewPacket sha256 now nowStr PacketTypeData (fPayload p) [] dst)\<lparr>pID := tsID ts,
     pSourceNode := tsSource ts, pChunkNumber := fIndex p, pTotalChunks := fTotal p, pSubIndex := fSubIndex p,
     pSubTotal := fSubTotal p\<rparr>) p)\<lparr>pReplyBlock := tsReply ts\<rparr>) (tsScheme ts)"
  obtain pad where pkt: "pkt = ?q\<lparr>pPad := pad\<rparr>"
    using padPacket_fields [of t ?q] assms(3) by (auto simp: inner_packet_def Let_def)
  have "carries_piece pkt p"
    unfolding pkt by (simp add: carries_piece_def applyScheme_def stampStreaming_def NewPacket_def Let_def zero_packet_def)
  moreover have "schemeFromPacket pkt = tsScheme ts" "pID pkt = tsID ts" "pSourceNode pkt = tsSource ts" "pReplyBlock pkt = tsReply ts"
    unfolding pkt by (simp_all add: schemeFromPacket_def applyScheme_def stampStreaming_def NewPacket_def Let_def)
  ultimately show "of_transfer ts pkt" using assms(1,2) by (auto simp: of_transfer_def)
  show "\<not> pDecoy pkt" "pType pkt \<noteq> PacketTypeAcknowledgement"
    unfolding pkt by (simp_all add: applyScheme_def stampStreaming_def NewPacket_def Let_def zero_packet_def packet_type_defs)
qed

text \<open>
  An onion of a transfer: the time it is sent, the transport at that time, its hops and its bytes. It holds a piece of
  the transfer, built by the sender \<open>t'\<close>.
\<close>

record onion_item =
  oiNow :: int
  oiNet :: transport
  oiHops :: "onionHop list"
  oiBlob :: bytes

definition onion_carries :: "tenv \<Rightarrow> 'a config_scheme \<Rightarrow> transfer_spec \<Rightarrow> onion_item \<Rightarrow> int \<times> packet \<Rightarrow> bool" where
  "onion_carries e t' ts it x \<longleftrightarrow> fst x = oiNow it \<and> packet_ok (snd x) \<and>
     (\<exists>sha256 now nowStr dst rnd f p. f \<in> set (tsFrags ts) \<and> p \<in> set (fragmentPieces f (tsSub ts)) \<and>
        snd x = inner_packet sha256 now nowStr t' (tsID ts) dst (tsSource ts) p (tsScheme ts) (tsReply ts) \<and>
        BuildOnion (teCrypto e) rnd (oiHops it)
          (buildInnerFragment sha256 now nowStr t' (tsID ts) dst (tsSource ts) p (tsScheme ts) (tsReply ts)) = Inr (oiBlob it) \<and>
        (\<forall>j. 44 \<le> length (rnd j)) \<and> onion_size (oiHops it) (length (MarshalBinary (snd x))) < 2 ^ 32)"

lemma onion_carriesI:
  assumes "f \<in> set (tsFrags ts)" and "p \<in> set (fragmentPieces f (tsSub ts))"
    and "pkt = inner_packet sha256 tm nowStr t' (tsID ts) dst (tsSource ts) p (tsScheme ts) (tsReply ts)" and "packet_ok pkt"
    and "BuildOnion (teCrypto e) rnd (oiHops it) (MarshalBinary pkt) = Inr (oiBlob it)" and "\<forall>j. 44 \<le> length (rnd j)"
    and "onion_size (oiHops it) (length (MarshalBinary pkt)) < 2 ^ 32"
  shows "onion_carries e t' ts it (oiNow it, pkt)"
proof -
  have "BuildOnion (teCrypto e) rnd (oiHops it) (buildInnerFragment sha256 tm nowStr t' (tsID ts) dst (tsSource ts) p (tsScheme ts)
      (tsReply ts)) = Inr (oiBlob it)" using assms(5) unfolding buildInnerFragment_def assms(3) .
  then show ?thesis unfolding onion_carries_def fst_conv snd_conv using assms(1-4,6-) by blast
qed

text \<open>
  The node \<open>s\<close> sends the onions of a transfer one after the other, each to its first hop. The fuel is the number
  of hops.
\<close>

definition send_onion :: "tenv \<Rightarrow> nat \<Rightarrow> onion_item \<Rightarrow> host list \<Rightarrow> host list option" where
  "send_onion e s it hosts =
     (let e = e\<lparr>teNow := oiNow it\<rparr>; hop = hd (oiHops it)
      in travel e (oiNet it) (length (oiHops it))
           (sendRelayHop e (oiNet it) (ohNodeID hop) (ohAddr hop) (oiBlob it) (hosts ! s)) hosts)"

fun deliver_onions :: "tenv \<Rightarrow> nat \<Rightarrow> onion_item list \<Rightarrow> host list \<Rightarrow> host list option" where
  "deliver_onions e s [] hosts = Some hosts"
| "deliver_onions e s (it # its) hosts =
     (case send_onion e s it hosts of None \<Rightarrow> None | Some hosts \<Rightarrow> deliver_onions e s its hosts)"

text \<open>
  The hops of an onion are nodes of the network, the last one \<open>dst\<close> and no other; the sender can reach the first, and each
  relay the next.
\<close>

definition routable :: "tenv \<Rightarrow> host list \<Rightarrow> nat \<Rightarrow> nat \<Rightarrow> onion_item \<Rightarrow> bool" where
  "routable e hosts s dst it \<longleftrightarrow> s < length hosts \<and> can_send (oiNet it) (hosts ! s) (hd (oiHops it)) \<and>
     (\<exists>js. along e (oiNet it) hosts dst (oiHops it) js)"

lemma network_now [simp]: "network_ok (e\<lparr>teNow := n\<rparr>) hosts = network_ok e hosts" "own_identity (e\<lparr>teNow := n\<rparr>) h = own_identity e h"
  by (simp_all add: network_ok_def own_identity_def)

lemma hop_at_now [simp]: "hop_at (e\<lparr>teNow := n\<rparr>) hosts hop j = hop_at e hosts hop j"
  by (simp add: hop_at_def)

lemma along_now: "along e tr hosts dst hops js \<Longrightarrow> along (e\<lparr>teNow := n\<rparr>) tr hosts dst hops js"
  by (induction e tr hosts dst hops js rule: along.induct) simp_all

lemma routable_same: "routable e hosts s dst it \<Longrightarrow> same_hosts hosts hosts' \<Longrightarrow> routable e hosts' s dst it"
  using along_same same_hosts_length same_hostD(1) [OF same_hosts_nth] by (fastforce simp: routable_def can_send_def)

lemma onion_step:
  assumes law: "crypto_law (teCrypto e)" and net: "network_ok e hosts" and it: "onion_carries e t' ts it x" and r: "routable e hosts s dst it"
  shows "of_transfer ts (snd x)"
    and "ingestForwardedFragment (e\<lparr>teNow := fst x\<rparr>) (snd x) False (hSvc (hosts ! dst)) = Some d' \<Longrightarrow>
      \<exists>hosts'. send_onion e s it hosts = Some hosts' \<and> carried dst d' hosts hosts'"
proof -
  obtain sha256 tm nowStr dn rnd f p where
    f: "f \<in> set (tsFrags ts)" "p \<in> set (fragmentPieces f (tsSub ts))"
      "snd x = inner_packet sha256 tm nowStr t' (tsID ts) dn (tsSource ts) p (tsScheme ts) (tsReply ts)"
    and o: "BuildOnion (teCrypto e) rnd (oiHops it) (buildInnerFragment sha256 tm nowStr t' (tsID ts) dn (tsSource ts) p (tsScheme ts)
        (tsReply ts)) = Inr (oiBlob it)" "\<forall>j. 44 \<le> length (rnd j)"
      "onion_size (oiHops it) (length (MarshalBinary (snd x))) < 2 ^ 32" and ok: "packet_ok (snd x)"
    using it unfolding onion_carries_def by blast
  have blob: "BuildOnion (teCrypto e) rnd (oiHops it) (MarshalBinary (snd x)) = Inr (oiBlob it)"
    using o(1) unfolding buildInnerFragment_def f(3) .
  note facts = inner_packet_facts [OF f]
  show "of_transfer ts (snd x)" by (rule facts(1))
  obtain js where js: "along e (oiNet it) hosts dst (oiHops it) js" using r by (auto simp: routable_def)
  note k = along_keys [OF js]
  have peel: "peel_along (teCrypto e) (path_keys hosts js) (oiBlob it) =
      (map (\<lambda>h. (ohNodeID h, ohAddr h)) (tl (oiHops it)), Some (MarshalBinary (snd x)))"
    using BuildOnion_carries [OF law _ _ _ o(3), of "path_keys hosts js" rnd] k o(2) unfolding blob carries_def sum.inject by blast
  let ?e = "e\<lparr>teNow := oiNow it\<rparr>"
  obtain hop hops j js' where h: "oiHops it = hop # hops" "js = j # js'" using k by (cases "oiHops it"; cases js) auto
  have "own_identity ?e (hosts ! s)" "can_send (oiNet it) (hosts ! s) hop" using net r h by (auto simp: network_ok_def routable_def)
  moreover have "hop_at ?e hosts hop j" using along_hop js h by simp
  ultimately obtain w where w: "sendRelayHop ?e (oiNet it) (ohNodeID hop) (ohAddr hop) (oiBlob it) (hosts ! s) = Some w"
    "leads_to ?e hosts j (oiBlob it) w"
    using sendRelayHop_leads [of ?e hosts "hosts ! s" hop j "oiNet it" "oiBlob it"] net by auto
  show "\<exists>hosts'. send_onion e s it hosts = Some hosts' \<and> carried dst d' hosts hosts'"
    if ing: "ingestForwardedFragment (e\<lparr>teNow := fst x\<rparr>) (snd x) False (hSvc (hosts ! dst)) = Some d'"
  proof -
    have "fst x = oiNow it" using it by (simp add: onion_carries_def)
    then have "\<exists>hosts'. travel ?e (oiNet it) (length (oiHops it)) (Some w) hosts = Some hosts' \<and> carried dst d' hosts hosts'"
      using k w(2) h(2) peel ing by (intro travel_along [OF along_now [OF js] _ _ _ _ ok facts(2,3)]) (simp_all add: net)
    then show ?thesis using w(1) h(1) by (simp add: send_onion_def Let_def)
  qed
qed

lemma deliver_onions_ingest:
  assumes law: "crypto_law (teCrypto e)"
  shows "list_all2 (onion_carries e t' ts) its xs \<Longrightarrow> network_ok e hosts \<Longrightarrow> \<forall>it \<in> set its. routable e hosts s dst it \<Longrightarrow>
     (\<forall>x \<in> set xs. of_transfer ts (snd x)) \<and>
     (\<forall>d'. dst < length hosts \<and> ingest_all e False xs (hSvc (hosts ! dst)) = Some d' \<longrightarrow>
       (\<exists>hosts'. deliver_onions e s its hosts = Some hosts' \<and> carried dst d' hosts hosts'))"
proof (induction its xs arbitrary: hosts rule: list_all2_induct)
  case Nil
  then show ?case by (auto simp: carried_def)
next
  case (Cons it its x xs)
  have r: "routable e hosts s dst it" using Cons.prems by simp
  note step = onion_step [OF law Cons.prems(1) Cons.hyps(1) r]
  have "of_transfer ts (snd y)" if "y \<in> set (x # xs)" for y using that step(1) Cons.IH [OF Cons.prems(1)] Cons.prems(2) by auto
  moreover have "\<exists>hosts'. deliver_onions e s (it # its) hosts = Some hosts' \<and> carried dst d' hosts hosts'"
    if i: "dst < length hosts" "ingest_all e False (x # xs) (hSvc (hosts ! dst)) = Some d'" for d'
  proof -
    obtain d1 where d1: "ingestForwardedFragment (e\<lparr>teNow := fst x\<rparr>) (snd x) False (hSvc (hosts ! dst)) = Some d1"
      "ingest_all e False xs d1 = Some d'" using i by (cases x) (auto split: option.splits)
    obtain h1 where h1: "send_onion e s it hosts = Some h1" "carried dst d1 hosts h1" using step(2) [OF d1(1)] by blast
    have same: "same_hosts hosts h1" by (rule carried_same [OF h1(2) ingest_plain [OF d1(1)]])
    have "hSvc (h1 ! dst) = d1" using h1(2) by (simp add: carried_def)
    then obtain hosts' where "deliver_onions e s its h1 = Some hosts'" "carried dst d' h1 hosts'"
      using Cons.IH [OF network_ok_same [OF same Cons.prems(1)]] Cons.prems(2) routable_same [OF _ same] d1(2) i(1) same_hosts_length [OF same]
      by auto
    then show ?thesis using h1 carried_trans by auto
  qed
  ultimately show ?case by blast
qed

section \<open>Acknowledgements\<close>

text \<open>Everything a node can receive for the transfer service.\<close>

datatype arrival = Connection "packet list" | RelayBlob bytes | RoutedFrame bytes

fun receive :: "tenv \<Rightarrow> arrival \<Rightarrow> transferSvc \<Rightarrow> transferSvc option" where
  "receive e (Connection ps) t = handleConnection e ps t"
| "receive e (RelayBlob blob) t = handleRelayBlob e blob t"
| "receive e (RoutedFrame inner) t = ingestRoutedFragment e inner t"

fun confirms :: "tevent \<Rightarrow> bytes option" where
  "confirms (AckSignal i) = Some i"
| "confirms (OnDelivered i _) = Some i"
| "confirms _ = None"

lemma plain_confirms: "plain_event x \<Longrightarrow> confirms x = None"
  by (cases x) simp_all

text \<open>
  The evidence: a packet signed by the key of the destination, or the secret token, which only the
  reply block inside the destination's onion layer holds.
\<close>

definition signed_ack :: "tenv \<Rightarrow> bytes \<Rightarrow> pendingAck \<Rightarrow> packet \<Rightarrow> bool" where
  "signed_ack e i pa p \<longleftrightarrow> Verify (teEd e) p \<and> pType p = PacketTypeAcknowledgement \<and> pID p = i \<and> paDestKey pa \<noteq> [] \<and> pSignerKey p = paDestKey pa"

definition token_ack :: "tenv \<Rightarrow> bytes option \<Rightarrow> bytes \<Rightarrow> pendingAck \<Rightarrow> bytes \<Rightarrow> bool" where
  "token_ack e key i pa blob \<longleftrightarrow>
     (\<exists>priv peel p. key = Some priv \<and> PeelOnion (teCrypto e) priv blob = Inr peel \<and> opIsFinal peel \<and>
        UnmarshalBinary zero_packet (opInner peel) = (p, False) \<and> pType p = PacketTypeAcknowledgement \<and> pID p = i \<and>
        paToken pa \<noteq> [] \<and> pPayload p = paToken pa)"

fun evidence :: "tenv \<Rightarrow> bytes option \<Rightarrow> bytes \<Rightarrow> pendingAck \<Rightarrow> arrival \<Rightarrow> bool" where
  "evidence e key i pa (Connection ps) \<longleftrightarrow>
     (\<exists>p \<in> set ps. bound_sender e p \<and>
        (signed_ack e i pa p \<or> pType p = PacketTypeRelay \<and> token_ack e key i pa (pPayload p)))"
| "evidence e key i pa (RelayBlob blob) \<longleftrightarrow> token_ack e key i pa blob"
| "evidence e key i pa (RoutedFrame inner) \<longleftrightarrow> (\<exists>p. UnmarshalBinary zero_packet inner = (p, False) \<and> signed_ack e i pa p)"

definition acks_justified :: "(bytes \<Rightarrow> pendingAck \<Rightarrow> bool) \<Rightarrow> transferSvc \<Rightarrow> transferSvc \<Rightarrow> bool" where
  "acks_justified E t t' \<longleftrightarrow>
     (\<exists>ev. tOut t' = tOut t @ ev \<and> (\<forall>x \<in> set ev. \<forall>i. confirms x = Some i \<longrightarrow>
        (\<exists>pa. gget (tPendingAcks t) i = Some pa \<and> E i pa) \<and> gget (tPendingAcks t') i = None)) \<and>
     (\<forall>i. gget (tPendingAcks t') i = None \<or> gget (tPendingAcks t') i = gget (tPendingAcks t) i) \<and>
     tcNodePriv t' = tcNodePriv t"

lemma acks_justified_trans:
  assumes "acks_justified E t t'" and "acks_justified E t' t''"
  shows "acks_justified E t t''"
proof -
  obtain ev where ev: "tOut t' = tOut t @ ev" "\<And>x i. x \<in> set ev \<Longrightarrow> confirms x = Some i \<Longrightarrow>
      (\<exists>pa. gget (tPendingAcks t) i = Some pa \<and> E i pa) \<and> gget (tPendingAcks t') i = None"
    using assms(1) unfolding acks_justified_def by blast
  obtain ev' where ev': "tOut t'' = tOut t' @ ev'" "\<And>x i. x \<in> set ev' \<Longrightarrow> confirms x = Some i \<Longrightarrow>
      (\<exists>pa. gget (tPendingAcks t') i = Some pa \<and> E i pa) \<and> gget (tPendingAcks t'') i = None"
    using assms(2) unfolding acks_justified_def by blast
  have sub: "gget (tPendingAcks t') i = None \<or> gget (tPendingAcks t') i = gget (tPendingAcks t) i"
    "gget (tPendingAcks t'') i = None \<or> gget (tPendingAcks t'') i = gget (tPendingAcks t') i" for i
    using assms unfolding acks_justified_def by blast+
  have "(\<exists>pa. gget (tPendingAcks t) i = Some pa \<and> E i pa) \<and> gget (tPendingAcks t'') i = None"
    if "x \<in> set (ev @ ev')" "confirms x = Some i" for x i
  proof (cases "x \<in> set ev")
    case True
    then show ?thesis using ev(2) that(2) sub [of i] by metis
  next
    case False
    then have "x \<in> set ev'" using that(1) by simp
    from ev'(2) [OF this that(2)] obtain pa where "gget (tPendingAcks t') i = Some pa" "E i pa" "gget (tPendingAcks t'') i = None" by blast
    then show ?thesis using sub(1) [of i] by (intro conjI exI [of _ pa]) auto
  qed
  then have "\<forall>x \<in> set (ev @ ev'). \<forall>i. confirms x = Some i \<longrightarrow>
      (\<exists>pa. gget (tPendingAcks t) i = Some pa \<and> E i pa) \<and> gget (tPendingAcks t'') i = None" by blast
  moreover have "tOut t'' = tOut t @ (ev @ ev')" using ev(1) ev'(1) by simp
  moreover have "gget (tPendingAcks t'') i = None \<or> gget (tPendingAcks t'') i = gget (tPendingAcks t) i" for i
    using sub [of i] by metis
  moreover have "tcNodePriv t'' = tcNodePriv t" using assms by (simp add: acks_justified_def)
  ultimately show ?thesis unfolding acks_justified_def by blast
qed

lemma acks_justified_refl: "only_adds (\<lambda>x. confirms x = None) t t' \<Longrightarrow> acks_justified E t t'"
  by (auto simp: only_adds_def acks_justified_def)

lemma acks_justified_mono: "acks_justified E t t' \<Longrightarrow> (\<And>i pa. E i pa \<Longrightarrow> E' i pa) \<Longrightarrow> acks_justified E' t t'"
  unfolding acks_justified_def by blast

lemma only_adds_mono: "only_adds P t t' \<Longrightarrow> (\<And>x. P x \<Longrightarrow> Q x) \<Longrightarrow> only_adds Q t t'"
  unfolding only_adds_def by blast

lemma resolveAck_justified:
  "(\<And>pa. accept pa \<Longrightarrow> E i pa) \<Longrightarrow> acks_justified E t (resolveAck i accept t)"
  by (auto simp: resolveAck_def acks_justified_def temit_def Let_def split: option.splits)

lemma ingest_justified: "ingestForwardedFragment e pkt routed t = Some t' \<Longrightarrow> acks_justified E t t'"
  using only_adds_mono [OF ingest_plain plain_confirms] by (rule acks_justified_refl)

lemma handleRelayBlob_justified:
  assumes "handleRelayBlob e blob t = Some t'"
  shows "acks_justified (\<lambda>i pa. token_ack e (tcNodePriv t) i pa blob) t t'"
proof (cases "\<exists>priv peel p. tcNodePriv t = Some priv \<and> PeelOnion (teCrypto e) priv blob = Inr peel \<and> opIsFinal peel \<and>
    UnmarshalBinary zero_packet (opInner peel) = (p, False)")
  case True
  then obtain priv peel p where p: "tcNodePriv t = Some priv" "PeelOnion (teCrypto e) priv blob = Inr peel" "opIsFinal peel"
    "UnmarshalBinary zero_packet (opInner peel) = (p, False)" by blast
  show ?thesis
  proof (cases "pType p = PacketTypeAcknowledgement \<and> \<not> pDecoy p")
    case True
    have tok: "acks_justified (\<lambda>i pa. token_ack e (tcNodePriv t) i pa blob) t (signalAckToken (pID p) (pPayload p) t)"
      unfolding signalAckToken_def using p True by (intro resolveAck_justified) (auto simp: token_ack_def)
    have "t' = signalAckToken (pID p) (pPayload p) t \<or>
        (\<exists>m. t' = temit [ProbeHome (pID p)] (t\<lparr>tProbes := m\<rparr>))"
      using assms p True by (auto simp: handleRelayBlob_def signalProbe_def split: option.splits)
    then show ?thesis
    proof (elim disjE exE)
      fix m assume "t' = temit [ProbeHome (pID p)] (t\<lparr>tProbes := m\<rparr>)"
      then show ?thesis by (intro acks_justified_refl) (simp add: only_adds_def temit_def)
    qed (use tok in simp)
  next
    case False
    show ?thesis
    proof (cases "pDecoy p")
      case True
      then have "t' = t" using assms p by (simp add: handleRelayBlob_def)
      then show ?thesis by (intro acks_justified_refl) (simp add: only_adds_temit)
    next
      case nd: False
      then have "ingestForwardedFragment e p False t = Some t'" using assms p False by (simp add: handleRelayBlob_def)
      then show ?thesis by (rule ingest_justified)
    qed
  qed
next
  case False
  then have "t' = t \<or> (\<exists>n a i. t' = temit [ForwardHop n a i] t)"
    using assms by (auto simp: handleRelayBlob_def split: option.splits sum.splits if_splits prod.splits bool.splits)
  then show ?thesis by (intro acks_justified_refl) (auto intro: only_adds_temit)
qed

lemma signalAckFrom_justified:
  "(\<And>pa. paDestKey pa \<noteq> [] \<Longrightarrow> paDestKey pa = key \<Longrightarrow> E i pa) \<Longrightarrow> acks_justified E t (signalAckFrom i key t)"
  unfolding signalAckFrom_def by (rule resolveAck_justified) auto

lemma ingestRouted_justified:
  assumes "ingestRoutedFragment e inner t = Some t'"
  shows "acks_justified (\<lambda>i pa. \<exists>p. UnmarshalBinary zero_packet inner = (p, False) \<and> signed_ack e i pa p) t t'"
proof (cases "UnmarshalBinary zero_packet inner")
  case (Pair p err)
  have same: "acks_justified E t t" for E by (rule acks_justified_refl) (rule only_adds_temit)
  show ?thesis
  proof (cases "\<not> err \<and> pType p = PacketTypeAcknowledgement \<and> Verify (teEd e) p")
    case True
    then have "t' = signalAckFrom (pID p) (pSignerKey p) t" using assms Pair by (simp add: ingestRoutedFragment_def)
    then show ?thesis using True Pair signalAckFrom_justified [of "pSignerKey p" _ "pID p" t] by (auto simp: signed_ack_def)
  next
    case False
    then have "t' = t \<or> ingestForwardedFragment e p True t = Some t'"
      using assms Pair by (auto simp: ingestRoutedFragment_def split: bool.splits if_splits)
    then show ?thesis using same ingest_justified by blast
  qed
qed

lemma one_shot_justified:
  "one_shot_loop e ps t = Some t' \<Longrightarrow> acks_justified (\<lambda>i pa. evidence e (tcNodePriv t) i pa (Connection ps)) t t'"
proof (induction ps arbitrary: t)
  case Nil
  then show ?case by (intro acks_justified_refl) (simp add: only_adds_temit)
next
  case (Cons p ps)
  let ?E = "\<lambda>t i pa. evidence e (tcNodePriv t) i pa (Connection (p # ps))"
  have rest: "acks_justified (?E t) t t'" if "acks_justified (?E t) t t1" "one_shot_loop e ps t1 = Some t'" for t1
  proof -
    have "tcNodePriv t1 = tcNodePriv t" using that(1) by (simp add: acks_justified_def)
    then have "acks_justified (?E t) t1 t'" using Cons.IH [OF that(2)] by (elim acks_justified_mono) auto
    then show ?thesis using that(1) by (rule acks_justified_trans [rotated])
  qed
  show ?case
  proof (cases "bound_sender e p \<and> (pType p = PacketTypeRelay \<or> pType p = PacketTypeAcknowledgement)")
    case False
    then have "t' = t" using Cons.prems by (auto split: if_splits)
    then show ?thesis by (intro acks_justified_refl) (simp add: only_adds_temit)
  next
    case True
    show ?thesis
    proof (cases "pType p = PacketTypeRelay")
      case r: True
      then obtain t1 where t1: "handleRelayBlob e (pPayload p) t = Some t1" "one_shot_loop e ps t1 = Some t'"
        using Cons.prems True by (auto split: option.splits)
      have "acks_justified (?E t) t t1"
        using handleRelayBlob_justified [OF t1(1)] by (rule acks_justified_mono) (use True r in auto)
      then show ?thesis using t1(2) by (rule rest)
    next
      case False
      then have "one_shot_loop e ps (signalAckFrom (pID p) (pSignerKey p) t) = Some t'" using Cons.prems True by simp
      moreover have "acks_justified (?E t) t (signalAckFrom (pID p) (pSignerKey p) t)"
        using True False by (intro signalAckFrom_justified) (auto simp: signed_ack_def bound_sender_def)
      ultimately show ?thesis using rest by blast
    qed
  qed
qed

text \<open>The chunks of a connection confirm nothing.\<close>

lemma only_adds_trans: "only_adds P t t' \<Longrightarrow> only_adds P t' t'' \<Longrightarrow> only_adds P t t''"
  unfolding only_adds_def by (metis (no_types, lifting) append.assoc set_append Un_iff)

abbreviation (input) quiet :: "transferSvc \<Rightarrow> transferSvc \<Rightarrow> bool" where
  "quiet \<equiv> only_adds (\<lambda>x. confirms x = None)"

lemma processChunk_plain: "processChunk e t pkt st = Some (Inr (st', ev)) \<Longrightarrow> x \<in> set ev \<Longrightarrow> confirms x = None"
  using sa_add_plain [of "teCrypto e" "teRS e" t "teNow e" pkt _ _ ev] plain_confirms [of x]
  by (auto simp: processChunk_def split: if_splits option.splits prod.splits)

lemma chunk_loop_quiet: "chunk_loop e ps st t = Some (st', t', b) \<Longrightarrow> quiet t t'"
proof (induction ps arbitrary: st t)
  case Nil
  then show ?case by (simp add: only_adds_temit)
next
  case (Cons p ps)
  show ?case
  proof (cases "\<exists>st1 ev. processChunk e t p st = Some (Inr (st1, ev))")
    case False
    then show ?thesis using Cons.prems by (auto simp: only_adds_temit split: option.splits sum.splits)
  next
    case True
    then obtain st1 ev where p: "processChunk e t p st = Some (Inr (st1, ev))" by blast
    let ?t = "temit (ev @ [ChunkAck 0]) t"
    have q: "quiet t ?t" using processChunk_plain [OF p] by (intro only_adds_temit) auto
    have "t' = ?t \<or> chunk_loop e ps st1 ?t = Some (st', t', b)" using Cons.prems p by (auto simp: Let_def split: if_splits)
    then show ?thesis using q Cons.IH [of st1 ?t] only_adds_trans [OF q] by blast
  qed
qed

lemma fold_quiet: "(\<And>x t. quiet t (f x t)) \<Longrightarrow> quiet t (fold f xs t)"
proof (induction xs arbitrary: t)
  case (Cons x xs)
  have "quiet t (f x t)" by (rule Cons.prems)
  moreover have "quiet (f x t) (fold f xs (f x t))" by (rule Cons.IH [OF Cons.prems])
  ultimately show ?case using only_adds_trans by simp
qed (simp add: only_adds_temit)

lemma drop_stream_quiet: "quiet t (drop_stream now x t)"
proof -
  have "\<forall>y \<in> set (fst (snd (abandonIfIdle now (snd x)))). confirms y = None"
    by (simp add: abandonIfIdle_def split: option.split)
  then show ?thesis by (auto simp: drop_stream_def intro!: only_adds_temit split: prod.split)
qed

lemma enforceRetainedStreamCap_quiet: "quiet t (enforceRetainedStreamCap e t)"
  using fold_quiet [of "drop_stream (teNow e)", OF drop_stream_quiet]
  by (simp add: enforceRetainedStreamCap_def Let_def only_adds_temit)

lemma tdeliver_quiet: "tdeliver e st t = Some (t', b) \<Longrightarrow> quiet t t'"
  using only_adds_mono [OF tdispatch_plain(2) plain_confirms]
  by (auto simp: tdeliver_def only_adds_temit split: if_splits option.splits)

lemma run_transfer_quiet: "run_transfer e p rest st t = Some t' \<Longrightarrow> quiet t t'"
proof -
  assume r: "run_transfer e p rest st t = Some t'"
  then obtain st2 t2 ended where l: "chunk_loop e rest st t = Some (st2, t2, ended)"
    by (auto simp: run_transfer_def Let_def split: option.splits)
  with r obtain t3 b where d: "(if ended \<and> isTransferComplete st2 then tdeliver e st2 t2 else Some (t2, False)) = Some (t3, b)"
    and t': "t' = enforceRetainedStreamCap e (t3\<lparr>tTransfers := gput (pID p) st2 (tTransfers t3)\<rparr>) \<or>
       t' = t3\<lparr>tTransfers := gdel (pID p) (tTransfers t3)\<rparr>"
    unfolding run_transfer_def by (cases "if ended \<and> isTransferComplete st2 then tdeliver e st2 t2 else Some (t2, False)")
      (auto simp: Let_def split: if_splits)
  have "quiet t2 t3" using d tdeliver_quiet [of e st2 t2 t3 b] by (auto simp: only_adds_temit split: if_splits)
  moreover have "quiet t3 t'"
    using t' only_adds_trans [OF only_adds_temit(3) enforceRetainedStreamCap_quiet] by (auto simp: only_adds_temit)
  ultimately show ?thesis using chunk_loop_quiet [OF l] only_adds_trans by blast
qed

lemma handleConnection_justified:
  assumes "handleConnection e ps t = Some t'"
  shows "acks_justified (\<lambda>i pa. evidence e (tcNodePriv t) i pa (Connection ps)) t t'"
proof (cases "\<exists>p rest. ps = p # rest \<and> bound_sender e p \<and> (pType p = PacketTypeRelay \<or> pType p = PacketTypeAcknowledgement)")
  case True
  then have "one_shot_loop e ps t = Some t'"
    using assms unfolding handleConnection_def by (auto simp: packet_type_defs simp del: one_shot_loop.simps)
  then show ?thesis by (rule one_shot_justified)
next
  case False
  have "quiet t t'"
  proof (cases "\<exists>p rest. ps = p # rest \<and> bound_sender e p \<and> pType p \<noteq> PacketTypeReservation \<and> shouldAcceptTransfer t p")
    case True
    then obtain p rest st ack m where "run_transfer e p rest st (temit [ChunkAck ack] (t\<lparr>tTransfers := m\<rparr>)) = Some t'"
      using assms False unfolding handleConnection_def Let_def by auto
    moreover have "quiet t (temit [ChunkAck ack] (t\<lparr>tTransfers := m\<rparr>))" by (rule only_adds_temit) simp
    ultimately show ?thesis using run_transfer_quiet only_adds_trans by blast
  next
    case rej: False
    then show ?thesis using assms False unfolding handleConnection_def
      by (cases ps) (auto simp: only_adds_temit split: if_splits)
  qed
  then show ?thesis by (rule acks_justified_refl)
qed

lemma receive_justified:
  "receive e a t = Some t' \<Longrightarrow> acks_justified (\<lambda>i pa. evidence e (tcNodePriv t) i pa a) t t'"
  by (cases a) (simp_all add: handleConnection_justified handleRelayBlob_justified ingestRouted_justified del: evidence.simps(1))

section \<open>Late acknowledgements\<close>

lemma gget_filter: "gmap_ok m \<Longrightarrow> gget (filter P m) k = (case gget m k of None \<Rightarrow> None | Some v \<Rightarrow> if P (k, v) then Some v else None)"
  by (induction m) (force simp: gget_def gmap_ok_def image_iff split: option.split)+

text \<open>What the eviction keeps and when it stops.\<close>

definition evicts_late :: "(bytes, pendingAck) gomap \<Rightarrow> (bytes, pendingAck) gomap \<Rightarrow> bool" where
  "evicts_late m m' \<longleftrightarrow> (\<forall>k pa. gget m' k = Some pa \<longrightarrow> gget m k = Some pa) \<and>
     (\<forall>k pa. gget m k = Some pa \<and> \<not> paLate pa \<longrightarrow> gget m' k = Some pa)"

lemma evict_late_spec:
  assumes "range_order iter"
  shows "gmap_ok m \<Longrightarrow> gmap_ok (evict_late iter m) \<and> evicts_late m (evict_late iter m) \<and>
     (length (evict_late iter m) \<le> maxLateAcks \<or> (\<forall>k pa. gget (evict_late iter m) k = Some pa \<longrightarrow> \<not> paLate pa))"
proof (induction m rule: length_induct)
  case (1 m)
  let ?late = "filter (\<lambda>x. paLate (snd x)) (iter m)"
  show ?case
  proof (cases "length m \<le> maxLateAcks")
    case True
    then show ?thesis using "1.prems" by (simp add: evict_late.simps evicts_late_def)
  next
    case False
    show ?thesis
    proof (cases "pick_least expires_before None ?late")
      case None
      then have "?late = []" by simp
      then have "\<not> paLate pa" if "gget m k = Some pa" for k pa
        using gget_SomeD [OF that] range_order_set [OF assms, of m] by (auto simp: filter_empty_conv)
      then show ?thesis using "1.prems" False None by (simp add: evict_late.simps evicts_late_def)
    next
      case (Some x)
      then have x: "x \<in> set m" "paLate (snd x)"
        using pick_least_in [OF Some] range_order_set [OF assms, of m] by auto
      then have at: "gget m (fst x) = Some (snd x)" using "1.prems" gget_Some_iff [of m "fst x" "snd x"] by simp
      let ?m = "gdel (fst x) m"
      have less: "length ?m < length m" using at by (rule length_gdel_less)
      then have step: "evict_late iter m = evict_late iter ?m"
        using False Some by (subst evict_late.simps) (simp add: Let_def)
      have "evicts_late m ?m" using at x(2) by (auto simp: evicts_late_def)
      moreover have ih: "gmap_ok (evict_late iter ?m)" "evicts_late ?m (evict_late iter ?m)"
        "length (evict_late iter ?m) \<le> maxLateAcks \<or> (\<forall>k pa. gget (evict_late iter ?m) k = Some pa \<longrightarrow> \<not> paLate pa)"
        using "1.IH" less "1.prems" by simp_all
      ultimately have "evicts_late m (evict_late iter ?m)" unfolding evicts_late_def by blast
      then show ?thesis using ih unfolding step by blast
    qed
  qed
qed

section \<open>Panics\<close>

lemma rs_rebuild_Some: "rs_rebuild rs (Some s) k m len tid tot chunks \<noteq> None"
  by (simp add: rs_rebuild_def Let_def)

lemma reassemble_panics: "reassemble e t st = None \<Longrightarrow> tcSealer t = None"
  using rs_rebuild_Some by (auto simp: reassemble_def recipientOpener_def Let_def split: if_splits) (metis not_None_eq)+

lemma sa_add_panics: "sa_add c rs t now pkt sa = None \<Longrightarrow> tcSealer t = None"
proof -
  have "reconstructBlock c rs t sa b = None \<Longrightarrow> tcSealer t = None" for sa b
    using rs_rebuild_Some by (auto simp: reconstructBlock_def recipientOpener_def split: if_splits) (metis not_None_eq)+
  then show "sa_add c rs t now pkt sa = None \<Longrightarrow> tcSealer t = None"
    by (auto simp: sa_add_def Let_def split: if_splits option.splits prod.splits)
qed

lemma ingest_panics: "ingestForwardedFragment e pkt routed t = None \<Longrightarrow> tcSealer t = None"
  using sa_add_panics reassemble_panics
  by (auto simp: ingestForwardedFragment_def Let_def split: if_splits option.splits prod.splits)

section \<open>Properties\<close>

text \<open>
  C11. A payload sent through onion circuits arrives, end to end. The sender \<open>s\<close> puts every piece of every fragment
  into an onion of its own, over relays of its own choice, and sends it to the first hop; each relay peels one layer and
  sends the rest to the hop that layer names, by its identifier over a held connection or a link or by its address over
  a dialled one, whichever works. The network holds other nodes as well; all a blob is told is the identifier and
  the address in the layer. As soon as enough of the fragments have come through, the destination has handed over
  exactly the payload, once, and acknowledged it over every return path; every other node has forwarded and is
  otherwise unchanged.
\<close>

theorem onion_transfer_delivered:
  assumes "crypto_law (teCrypto e)" and "network_ok e hosts" and "dst < length hosts" and "d = hSvc (hosts ! dst)"
    and "sent_to e (hSvc (hosts ! s)) d so ts" and "\<not> tsRouted ts"
    and "list_all2 (onion_carries e (hSvc (hosts ! s)) ts) its (xs @ [x])" and "\<forall>it \<in> set its. routable e hosts s dst it"
    and "gget (tTransfers d) (tsID ts) = None" and "\<not> enough_arrived ts xs" and "enough_arrived ts (xs @ [x])"
  shows "\<exists>hosts' d'. deliver_onions e s its hosts = Some hosts' \<and> length hosts' = length hosts \<and>
     hosts' ! dst = (hosts ! dst)\<lparr>hSvc := d'\<rparr> \<and> tOut d' = tOut d @ delivery d ts \<and> gget (tTransfers d') (tsID ts) = None \<and>
     (\<forall>j < length hosts. j \<noteq> dst \<longrightarrow> only_forwards (hosts ! j) (hosts' ! j))"
proof -
  note run = deliver_onions_ingest [OF assms(1,7,2,8)]
  then have "\<And>y. y \<in> set (xs @ [x]) \<Longrightarrow> of_transfer ts (snd y)" by blast
  from ingest_completes(2) [OF sent_fits [OF assms(5)] this assms(9-11)]
  obtain m where "ingest_all e (tsRouted ts) (xs @ [x]) d = Some (temit (delivery d ts) (d\<lparr>tTransfers := m\<rparr>))" "gget m (tsID ts) = None"
    by blast
  moreover from this obtain hosts' where "deliver_onions e s its hosts = Some hosts'"
    "carried dst (temit (delivery d ts) (d\<lparr>tTransfers := m\<rparr>)) hosts hosts'"
    using run assms(3,4,6) by auto
  ultimately show ?thesis by (intro exI) (auto simp: carried_def temit_def)
qed

text \<open>
  C12. Only the destination can confirm a transfer. Whatever a node receives - connections, onion blobs, routed frames,
  from anyone - a waiting send is released or a late delivery reported only for a registered transfer, and only when what was
  received holds a packet signed by the key of the destination or, in an onion layer for this node, the secret
  token of that transfer. The registration is gone afterwards, so no transfer is confirmed twice.
\<close>

theorem ack_needs_evidence:
  assumes "receive e a t = Some t'" and "x \<in> set (drop (length (tOut t)) (tOut t'))" and "confirms x = Some i"
  shows "\<exists>pa. gget (tPendingAcks t) i = Some pa \<and> evidence e (tcNodePriv t) i pa a \<and> gget (tPendingAcks t') i = None"
  using receive_justified [OF assms(1)] assms(2,3) by (auto simp: acks_justified_def)

text \<open>
  C38. Late acknowledgements are bounded and still believed. When a sender gives up on a transfer its
  registration stays for \<open>lateAckTTL\<close>: no expired one remains, there are at most \<open>maxLateAcks\<close> registrations unless all are
  sends still waiting, and no waiting send loses its own. While the registration is there, the token of the transfer reports
  the delivery to its destination.
\<close>

theorem late_acks_bounded:
  assumes "range_order (teAckOrder e)" and "gmap_ok (tPendingAcks t)" and "gget (tPendingAcks t) i = Some p"
    and "t' = retainForLateAck e i dest t"
  shows "(length (tPendingAcks t') \<le> maxLateAcks \<or> (\<forall>k pa. gget (tPendingAcks t') k = Some pa \<longrightarrow> \<not> paLate pa)) \<and>
    (\<forall>k pa. gget (tPendingAcks t') k = Some pa \<and> paLate pa \<longrightarrow> teNow e \<le> paExpires pa) \<and>
    (\<forall>k pa. k \<noteq> i \<and> gget (tPendingAcks t) k = Some pa \<and> \<not> paLate pa \<longrightarrow> gget (tPendingAcks t') k = Some pa) \<and>
    (gget (tPendingAcks t') i \<noteq> None \<and> paToken p \<noteq> [] \<and> tOnDelivered t \<longrightarrow>
       tOut (signalAckToken i (paToken p) t') = tOut t @ [OnDelivered i dest])"
proof -
  let ?pa = "p\<lparr>paDest := dest, paExpires := teNow e + lateAckTTL, paLate := True\<rparr>"
  define m where "m = filter (\<lambda>x. \<not> (paLate (snd x) \<and> teNow e > paExpires (snd x))) (gput i ?pa (tPendingAcks t))"
  define m' where "m' = evict_late (teAckOrder e) m"
  have t': "t' = t\<lparr>tPendingAcks := m'\<rparr>"
    using assms(3,4) by (simp add: retainForLateAck_def Let_def m_def m'_def)
  have ok: "gmap_ok (gput i ?pa (tPendingAcks t))" using assms(2) by simp
  have look: "gget m k = (case gget (gput i ?pa (tPendingAcks t)) k of None \<Rightarrow> None
      | Some v \<Rightarrow> if \<not> (paLate v \<and> teNow e > paExpires v) then Some v else None)" for k
    unfolding m_def gget_filter [OF ok] by (simp split: option.split)
  have "gmap_ok m" unfolding m_def using ok by simp
  note ev = evict_late_spec [OF assms(1) this, folded m'_def, unfolded evicts_late_def]
  have sub: "gget m k = Some pa" if "gget m' k = Some pa" for k pa using ev that by blast
  have "length m' \<le> maxLateAcks \<or> (\<forall>k pa. gget m' k = Some pa \<longrightarrow> \<not> paLate pa)" using ev by blast
  moreover have "teNow e \<le> paExpires pa" if "gget m' k = Some pa" "paLate pa" for k pa
    using sub [OF that(1)] that(2) by (auto simp: look split: option.splits if_splits)
  moreover have "gget m' k = Some pa" if "k \<noteq> i" "gget (tPendingAcks t) k = Some pa" "\<not> paLate pa" for k pa
  proof -
    have "gget m k = Some pa" using that by (simp add: look)
    then show ?thesis using ev that(3) by blast
  qed
  moreover have "tOut (signalAckToken i (paToken p) t') = tOut t @ [OnDelivered i dest]"
    if a: "gget m' i \<noteq> None" "paToken p \<noteq> []" "tOnDelivered t"
  proof -
    obtain pa where pa: "gget m' i = Some pa" using a(1) by blast
    then have "pa = ?pa" using sub [OF pa] by (simp add: look split: if_splits)
    then show ?thesis using pa a(2,3) by (simp add: signalAckToken_def resolveAck_def temit_def Let_def t')
  qed
  ultimately show ?thesis unfolding t' by (simp (no_asm)) blast
qed

text \<open>
  C40. A node without a shared key can be stopped by one packet. A fragment that announces one data shard, sealed with the
  shared key, is opened through a sealer the node does not have, which panics; nothing recovers from it. With a key,
  no fragment does this.
\<close>

theorem keyless_node_panics:
  assumes "rdNew (teRS e) 1 m" and "0 < m" and "m < 2 ^ 31" and "gget (tTransfers t) (pID pkt) = None" and "\<not> pStreaming pkt"
    and "\<not> pHybridSealed pkt" and "pDataShards pkt = 1" and "pParityShards pkt = word_of_int m"
    and "pTotalChunks pkt = word_of_int (1 + m)" and "pChunkNumber pkt = 0" and "pSubTotal pkt \<le> 1"
  shows "ingestForwardedFragment e pkt routed t = None \<longleftrightarrow> tcSealer t = None"
proof
  assume "tcSealer t = None"
  let ?st = "absorb_piece pkt (new_state e pkt (pReplyBlock pkt) routed)"
  have st: "bReceived ?st = [(0, True)]" "bChunks ?st = [(0, pPayload pkt)]"
    using assms(10,11) by (simp_all add: absorb_piece_def absorbSubChunk_def new_state_def is_set_def Let_def gget_def gput_def)
  have sc: "xScheme ?st = schemeFromPacket pkt" "xTotal ?st = word_of_int (1 + m)" "\<not> xDelivered ?st"
    using assms(9) by (simp_all add: new_state_def)
  have w: "uint (word_of_int k :: u32) = k" if "0 \<le> k" "k < 2 ^ 32" for k
    using that by (simp add: uint_word_of_int take_bit_int_eq_self)
  have u: "uint (word_of_int m :: u32) = m" "unat (word_of_int (1 + m) :: u32) = nat (1 + m)"
    using w [of m] arg_cong [OF w [of "1 + m"], of nat] assms(2,3) unfolding nat_uint_eq by simp_all
  have pos: "\<not> (word_of_int (1 + m) :: u32) \<le> 0" using u(2) assms(2) by (simp add: word_le_nat_alt)
  have "\<exists>i \<in> {0..<nat (1 + m)}. (word_of_nat i :: u32) = 0" using assms(2) by (intro bexI [of _ 0]) simp_all
  then have "reassemble e t ?st = None"
    using \<open>tcSealer t = None\<close> assms(1,2,6,7,8) st sc u pos
    by (simp add: reassemble_def recipientOpener_def schemeFromPacket_def rs_rebuild_def Let_def opens_shard_def
        NewRSReassembler_def RS_Add_def mk_fragment_def list_ex_iff)
  moreover have "enoughToReassembleLocked ?st"
    using st sc assms(7) by (simp add: enoughToReassembleLocked_def schemeFromPacket_def u32_len_def)
  ultimately show "ingestForwardedFragment e pkt routed t = None"
    using assms(4,5) sc(3) by (simp add: ingestForwardedFragment_def Let_def new_state_def)
qed (rule ingest_panics)

text \<open>
  Padding hides the length of a payload: with a cell size set, every inner packet is a whole number of cells, whatever
  it carries.
\<close>

lemma inner_packets_fill_cells:
  assumes "0 < tcPadCell t"
  shows "int (length (buildInnerFragment sha256 now nowStr t tid destID sourceNode frag sc replyBlock)) mod tcPadCell t = 0"
proof -
  have len: "length (MarshalBinary (p\<lparr>pPad := pad\<rparr>)) = length (MarshalBinary (p\<lparr>pPad := []\<rparr>)) + length pad" for p pad
    using MarshalBinary_fields [of "p\<lparr>pPad := pad\<rparr>" "[]"] MarshalBinary_fields [of "p\<lparr>pPad := []\<rparr>" "[]"] by (simp add: len_field_def)
  have "int (length (MarshalBinary (padPacket t p))) mod tcPadCell t = 0" for p
  proof -
    let ?b = "int (length (MarshalBinary (p\<lparr>pPad := []\<rparr>)))"
    have "?b mod tcPadCell t \<le> tcPadCell t" using pos_mod_bound [OF assms, of ?b] by linarith
    moreover have "?b + (tcPadCell t - ?b mod tcPadCell t) = tcPadCell t * (?b div tcPadCell t) + tcPadCell t"
      using mult_div_mod_eq [of "tcPadCell t" ?b] by linarith
    then have "(?b + (tcPadCell t - ?b mod tcPadCell t)) mod tcPadCell t = 0"
      by (simp only: mod_add_self2 mod_mult_self1_is_0)
    ultimately show ?thesis
      using assms len [of "replicate (nat (tcPadCell t - ?b mod tcPadCell t)) 0" p] by (simp add: padPacket_def marshaledLen_def Let_def)
  qed
  then show ?thesis by (simp add: buildInnerFragment_def inner_packet_def Let_def)
qed

section \<open>Witnesses\<close>

text \<open>Two pieces, the first over one relay and the second straight to the destination.\<close>

definition sample_inner :: "fragment \<Rightarrow> packet" where
  "sample_inner p = inner_packet id 0 [] sample_svc (tsID sample_spec) ''me'' (tsSource sample_spec) p (tsScheme sample_spec) (tsReply sample_spec)"

definition sample_fragment :: "u32 \<Rightarrow> bytes \<Rightarrow> fragment" where
  "sample_fragment i p = (mk_fragment (replicate 32 1) 0 1 p)\<lparr>fSubIndex := i, fSubTotal := 2\<rparr>"

lemma sample_inner_eq:
  "sample_inner (sample_fragment i p) = (sample_piece i p)\<lparr>pDestNode := ''me'', pPayloadSize := u32_len p\<rparr>"
  by (simp add: sample_inner_def sample_fragment_def sample_piece_def inner_packet_def NewPacket_def stampStreaming_def applyScheme_def
      padPacket_def sample_svc_def sample_spec_def scheme_of_def mk_fragment_def zero_packet_def packet_type_defs Let_def)

lemma sample_inner_ok: "length p < 2 ^ 32 \<Longrightarrow> packet_ok (sample_inner (sample_fragment i p))"
  by (simp add: sample_inner_eq packet_ok_def sample_piece_def zero_packet_def)

lemma sample_inner_length: "length (MarshalBinary (sample_inner (sample_fragment i p))) = length p + 127"
  using MarshalBinary_fields [of "sample_inner (sample_fragment i p)" "[]"]
  by (simp add: sample_inner_eq sample_piece_def zero_packet_def len_field_def)

lemma sample_in_pieces:
  "sample_fragment 0 [7, 8] \<in> set (fragmentPieces (mk_fragment (replicate 32 1) 0 1 [7, 8, 9]) 2)"
  "sample_fragment 1 [9] \<in> set (fragmentPieces (mk_fragment (replicate 32 1) 0 1 [7, 8, 9]) 2)"
  by (simp_all add: sample_pieces sample_fragment_def)

text \<open>
  A network of four: the sender, a relay that holds a connection of the destination, the destination, which cannot be
  dialled, and a node that takes no part. Only the sender has a link to the destination.
\<close>

definition sample_host :: "byte \<Rightarrow> string \<Rightarrow> string list \<Rightarrow> host" where
  "sample_host k addr held = \<lparr>hSvc = sample_svc\<lparr>tcSelfID := DeriveNodeID id (replicate 32 k), tcNodePriv := Some [k]\<rparr>, hAddr = addr,
     hSignKey = replicate 64 k, hOnionOverLinks = False, hReservations = held, hStoreForward = False, hOfflineTTL = 0,
     hOffline = [], hOffSeq = 0\<rparr>"

definition sample_hosts :: "host list" where
  "sample_hosts = [sample_host 3 ''a3'' [], sample_host 1 ''a1'' [DeriveNodeID id (replicate 32 2)], sample_host 2 ''a2'' [],
     sample_host 4 ''a4'' []]"

definition sample_net :: transport where
  "sample_net = \<lparr>trNowStr = [], trHeld = (\<lambda>_ _. True), trDial = (\<lambda>_ addr. addr \<noteq> ''a2''),
     trLink = (\<lambda>k k'. k = DeriveNodeID id (replicate 32 3) \<and> k' = DeriveNodeID id (replicate 32 2))\<rparr>"

definition sample_hop :: "byte \<Rightarrow> string \<Rightarrow> onionHop" where
  "sample_hop k addr = \<lparr>ohNodeID = DeriveNodeID id (replicate 32 k), ohAddr = addr, ohPubKey = Some (cX25519Pub sample_crypto [k])\<rparr>"

lemma sample_ids: "distinct (map (\<lambda>k. DeriveNodeID id (replicate 32 k)) [3, 1, 2, 4])" "\<forall>k \<in> {1, 2, 3, 4}. DeriveNodeID id (replicate 32 k) \<noteq> []"
  "length (DeriveNodeID id (replicate 32 2)) = 32"
  by code_simp+

lemma sample_network: "network_ok sample_env sample_hosts"
proof -
  have "edPublic sample_ed25519 (replicate 64 k) = replicate 32 k" for k by (simp add: sample_ed25519_def)
  then show ?thesis
    using sample_ids(1) by (auto simp: network_ok_def own_identity_def sample_hosts_def sample_host_def sample_env_def)
qed

lemma sample_routes:
  "routable sample_env sample_hosts 0 2 \<lparr>oiNow = n, oiNet = sample_net, oiHops = [sample_hop 1 ''a1'', sample_hop 2 ''a2''], oiBlob = b\<rparr>"
  "routable sample_env sample_hosts 0 2 \<lparr>oiNow = n, oiNet = sample_net, oiHops = [sample_hop 2 ''a2''], oiBlob = b\<rparr>"
proof -
  have at: "hop_at sample_env sample_hosts (sample_hop 1 ''a1'') 1" "hop_at sample_env sample_hosts (sample_hop 2 ''a2'') 2"
    by (simp_all add: hop_at_def sample_hosts_def sample_host_def sample_hop_def sample_env_def)
  have "can_forward sample_net (sample_hosts ! 1) (sample_hop 2 ''a2'')"
    using sample_ids(2) by (simp add: can_forward_def reservationFor_def sample_net_def sample_hosts_def sample_host_def sample_hop_def)
  then have al: "along sample_env sample_net sample_hosts 2 [sample_hop 1 ''a1'', sample_hop 2 ''a2''] [1, 2]"
    "along sample_env sample_net sample_hosts 2 [sample_hop 2 ''a2''] [2]" using at by simp_all
  have cs: "0 < length sample_hosts" "can_send sample_net (sample_hosts ! 0) (sample_hop 1 ''a1'')"
    "can_send sample_net (sample_hosts ! 0) (sample_hop 2 ''a2'')"
    using sample_ids(2) by (simp_all add: can_send_def sample_net_def sample_hosts_def sample_host_def sample_hop_def)
  show "routable sample_env sample_hosts 0 2 \<lparr>oiNow = n, oiNet = sample_net, oiHops = [sample_hop 1 ''a1'', sample_hop 2 ''a2''], oiBlob = b\<rparr>"
    "routable sample_env sample_hosts 0 2 \<lparr>oiNow = n, oiNet = sample_net, oiHops = [sample_hop 2 ''a2''], oiBlob = b\<rparr>"
    using al cs unfolding routable_def onion_item.simps list.sel by blast+
qed

lemma sample_onion:
  assumes "sample_fragment i p \<in> set (fragmentPieces (mk_fragment (replicate 32 1) 0 1 [7, 8, 9]) 2)" and "length p < 1000"
    and hops: "map ohPubKey hops = map (\<lambda>k. Some (cX25519Pub sample_crypto k)) privs" "hops \<noteq> []" "onion_size hops 2000 < 2 ^ 32"
    and size: "onion_size hops (length p + 127) \<le> onion_size hops 2000"
  shows "\<exists>blob. onion_carries sample_env (hSvc (sample_hosts ! 0)) sample_spec \<lparr>oiNow = now, oiNet = tr, oiHops = hops, oiBlob = blob\<rparr>
     (now, sample_inner (sample_fragment i p))"
proof -
  let ?pay = "MarshalBinary (sample_inner (sample_fragment i p))" and ?rnd = "\<lambda>j :: nat. replicate 44 (0 :: byte)"
  have sz: "onion_size hops (length ?pay) < 2 ^ 32" using hops(3) size sample_inner_length [of i p] by simp
  have "\<exists>blob. BuildOnion sample_crypto ?rnd hops ?pay = Inr blob \<and> carries sample_crypto ?pay hops privs blob"
    by (rule BuildOnion_carries [OF crypto_law_sample hops(2,1) _ sz]) simp
  then obtain blob where b: "BuildOnion sample_crypto ?rnd hops ?pay = Inr blob" by blast
  let ?it = "\<lparr>oiNow = now, oiNet = tr, oiHops = hops, oiBlob = blob\<rparr>"
  have "onion_carries sample_env (hSvc (sample_hosts ! 0)) sample_spec ?it (oiNow ?it, sample_inner (sample_fragment i p))"
  proof (rule onion_carriesI [where rnd = ?rnd])
    show "mk_fragment (replicate 32 1) 0 1 [7, 8, 9] \<in> set (tsFrags sample_spec)" by (simp add: sample_spec_def)
    show "sample_fragment i p \<in> set (fragmentPieces (mk_fragment (replicate 32 1) 0 1 [7, 8, 9]) (tsSub sample_spec))"
      using assms(1) by (simp add: sample_spec_def)
    show "sample_inner (sample_fragment i p) = inner_packet id 0 [] (hSvc (sample_hosts ! 0)) (tsID sample_spec) ''me''
        (tsSource sample_spec) (sample_fragment i p) (tsScheme sample_spec) (tsReply sample_spec)"
      by (simp add: sample_inner_def inner_packet_def padPacket_def sample_hosts_def sample_host_def Let_def sample_svc_def)
    show "packet_ok (sample_inner (sample_fragment i p))" using assms(2) by (intro sample_inner_ok) simp
  qed (use sz b in \<open>simp_all add: sample_env_def\<close>)
  then show ?thesis by auto
qed

lemma sample_arrived_onions:
  "\<not> enough_arrived sample_spec [(1, sample_inner (sample_fragment 0 [7, 8]))]"
  "enough_arrived sample_spec ([(1, sample_inner (sample_fragment 0 [7, 8]))] @ [(2, sample_inner (sample_fragment 1 [9]))])"
  by (simp_all add: enough_arrived_def arrived_def sample_spec_def sample_pieces' scheme_of_def sample_inner_eq sample_piece_def
      carries_piece_def zero_packet_def mk_fragment_def)

lemma sample_sent_hosts: "sent_to sample_env (hSvc (sample_hosts ! 0)) (hSvc (sample_hosts ! 2)) None sample_spec"
  by (simp add: sample_hosts_def sample_host_def sent_to_def sample_spec_def buildFragments_def rs_fragments_def Let_def sample_Split
      mk_fragment_def u32_len_def opener_fits_def recipientOpener_def sample_svc_def scheme_of_def) blast

theorem onion_transfer_delivered_witness:
  "\<exists>b1 b2 hosts'. deliver_onions sample_env 0
     [\<lparr>oiNow = 1, oiNet = sample_net, oiHops = [sample_hop 1 ''a1'', sample_hop 2 ''a2''], oiBlob = b1\<rparr>,
      \<lparr>oiNow = 2, oiNet = sample_net, oiHops = [sample_hop 2 ''a2''], oiBlob = b2\<rparr>] sample_hosts = Some hosts' \<and>
     tOut (hSvc (hosts' ! 2)) = [OnData [7, 8, 9] False, AckReply [9], AckReply [9], AckReply [9]] \<and>
     only_forwards (sample_hosts ! 1) (hosts' ! 1) \<and> only_forwards (sample_hosts ! 3) (hosts' ! 3)"
proof -
  let ?it1 = "\<lambda>b. \<lparr>oiNow = 1, oiNet = sample_net, oiHops = [sample_hop 1 ''a1'', sample_hop 2 ''a2''], oiBlob = b\<rparr>"
  let ?it2 = "\<lambda>b. \<lparr>oiNow = 2, oiNet = sample_net, oiHops = [sample_hop 2 ''a2''], oiBlob = b\<rparr>"
  let ?c = "\<lambda>it x. onion_carries sample_env (hSvc (sample_hosts ! 0)) sample_spec it x"
  obtain b1 where b1: "?c (?it1 b1) (1, sample_inner (sample_fragment 0 [7, 8]))"
    using sample_onion [OF sample_in_pieces(1), of "[sample_hop 1 ''a1'', sample_hop 2 ''a2'']" "[[1], [2]]" 1 sample_net] sample_ids(3)
    by (auto simp: sample_hop_def)
  obtain b2 where b2: "?c (?it2 b2) (2, sample_inner (sample_fragment 1 [9]))"
    using sample_onion [OF sample_in_pieces(2), of "[sample_hop 2 ''a2'']" "[[2]]" 2 sample_net] by (auto simp: sample_hop_def)
  let ?d = "hSvc (sample_hosts ! 2)"
  have l: "list_all2 (onion_carries sample_env (hSvc (sample_hosts ! 0)) sample_spec) [?it1 b1, ?it2 b2]
      ([(1, sample_inner (sample_fragment 0 [7, 8]))] @ [(2, sample_inner (sample_fragment 1 [9]))])" using b1 b2 by simp
  have r: "\<forall>it \<in> set [?it1 b1, ?it2 b2]. routable sample_env sample_hosts 0 2 it" using sample_routes by simp
  have law: "crypto_law (teCrypto sample_env)" by (simp add: sample_env_def)
  have dst: "2 < length sample_hosts" by (simp add: sample_hosts_def)
  have new: "gget (tTransfers ?d) (tsID sample_spec) = None" "\<not> tsRouted sample_spec"
    by (simp_all add: sample_hosts_def sample_host_def sample_svc_def sample_spec_def)
  obtain hosts' d' where r: "deliver_onions sample_env 0 [?it1 b1, ?it2 b2] sample_hosts = Some hosts'"
    "hosts' ! 2 = (sample_hosts ! 2)\<lparr>hSvc := d'\<rparr>" "tOut d' = tOut ?d @ delivery ?d sample_spec"
    "\<forall>j < length sample_hosts. j \<noteq> 2 \<longrightarrow> only_forwards (sample_hosts ! j) (hosts' ! j)"
    using onion_transfer_delivered [OF law sample_network dst refl sample_sent_hosts new(2) l r new(1) sample_arrived_onions] by blast
  have "tOut ?d @ delivery ?d sample_spec = [OnData [7, 8, 9] False, AckReply [9], AckReply [9], AckReply [9]]"
    by (simp add: sample_hosts_def sample_host_def delivery_def sample_svc_def sample_spec_def scheme_of_def numeral_3_eq_3)
  moreover have "only_forwards (sample_hosts ! 1) (hosts' ! 1)" "only_forwards (sample_hosts ! 3) (hosts' ! 3)"
    using r(4) [rule_format, of 1] r(4) [rule_format, of 3] by (simp_all add: sample_hosts_def)
  ultimately have "tOut (hSvc (hosts' ! 2)) = [OnData [7, 8, 9] False, AckReply [9], AckReply [9], AckReply [9]]"
    "only_forwards (sample_hosts ! 1) (hosts' ! 1)" "only_forwards (sample_hosts ! 3) (hosts' ! 3)" using r(2,3) by simp_all
  with r(1) show ?thesis by blast
qed

definition sample_ack :: packet where
  "sample_ack = Sign sample_ed25519 (replicate 64 5) (sample_packet\<lparr>pType := PacketTypeAcknowledgement\<rparr>)"

definition sample_waiting :: transferSvc where
  "sample_waiting = registerAck (pID sample_packet) (replicate 32 5) [] sample_svc"

lemma sample_ack_facts:
  "UnmarshalBinary zero_packet (MarshalBinary sample_ack) = (sample_ack, False)" "Verify sample_ed25519 sample_ack"
  "pType sample_ack = PacketTypeAcknowledgement" "pID sample_ack = pID sample_packet" "pSignerKey sample_ack = replicate 32 5"
proof -
  have "packet_ok (sample_packet\<lparr>pType := PacketTypeAcknowledgement\<rparr>)" using packet_ok_sample unfolding packet_ok_def by simp
  then have "packet_ok sample_ack" unfolding sample_ack_def by (intro packet_ok_Sign) simp_all
  then show "UnmarshalBinary zero_packet (MarshalBinary sample_ack) = (sample_ack, False)"
    using Unmarshal_Marshal [of sample_ack zero_packet "[]"] by simp
  show "Verify sample_ed25519 sample_ack" unfolding sample_ack_def by (rule Verify_Sign) simp_all
  show "pType sample_ack = PacketTypeAcknowledgement" "pID sample_ack = pID sample_packet" "pSignerKey sample_ack = replicate 32 5"
    by (simp_all add: sample_ack_def Sign_def PrivateKeySize_def Let_def sample_ed25519_def)
qed

theorem ack_needs_evidence_witness:
  "\<exists>t' pa. receive sample_env (RoutedFrame (MarshalBinary sample_ack)) sample_waiting = Some t' \<and> tOut t' = [AckSignal (pID sample_packet)] \<and>
     gget (tPendingAcks sample_waiting) (pID sample_packet) = Some pa \<and>
     evidence sample_env (tcNodePriv sample_waiting) (pID sample_packet) pa (RoutedFrame (MarshalBinary sample_ack)) \<and>
     gget (tPendingAcks t') (pID sample_packet) = None"
proof -
  obtain t' where r: "receive sample_env (RoutedFrame (MarshalBinary sample_ack)) sample_waiting = Some t'"
    "tOut t' = [AckSignal (pID sample_packet)]" "tOut sample_waiting = []"
    using sample_ack_facts
    by (simp add: ingestRoutedFragment_def sample_env_def sample_waiting_def registerAck_def signalAckFrom_def resolveAck_def
        temit_def sample_svc_def)
  then show ?thesis using ack_needs_evidence [OF r(1), of "AckSignal (pID sample_packet)" "pID sample_packet"] by auto
qed

theorem late_acks_bounded_witness:
  "tOut (signalAckToken [3] [4] (retainForLateAck sample_env [3] ''you'' (registerAck [3] [] [4] sample_svc))) = [OnDelivered [3] ''you'']"
proof -
  let ?t = "registerAck [3] [] [4] sample_svc"
  let ?p = "\<lparr>paDestKey = [], paToken = [4], paDest = [], paExpires = 0, paLate = False\<rparr>"
  have t: "gget (tPendingAcks ?t) [3] = Some ?p" "gmap_ok (tPendingAcks ?t)" "tOut ?t = []" "tOnDelivered ?t"
    by (simp_all add: registerAck_def sample_svc_def)
  have "gget (tPendingAcks (retainForLateAck sample_env [3] ''you'' ?t)) [3] \<noteq> None"
    by (simp add: retainForLateAck_def registerAck_def sample_svc_def sample_env_def gput_def gget_def Let_def evict_late.simps
        maxLateAcks_def lateAckTTL_def)
  then show ?thesis
    using late_acks_bounded [OF _ t(2,1) refl, of sample_env "''you''"] t(3,4) by (simp add: sample_env_def range_order_def)
qed

theorem keyless_node_panics_witness:
  "ingestForwardedFragment sample_env (zero_packet\<lparr>pDataShards := 1, pParityShards := 1, pTotalChunks := 2\<rparr>) False sample_svc = None"
proof -
  have "ingestForwardedFragment sample_env (zero_packet\<lparr>pDataShards := 1, pParityShards := 1, pTotalChunks := 2\<rparr>) False sample_svc = None \<longleftrightarrow>
      tcSealer sample_svc = None"
    by (rule keyless_node_panics [of _ 1]) (simp_all add: sample_env_def sample_rs_def sample_svc_def zero_packet_def gget_def)
  then show ?thesis by (simp add: sample_svc_def)
qed

end
