(* ===== verification/Spec2Isabelle.thy ===== *)
theory Spec2Isabelle
  imports Packet Announce Fragment Kiss Dht Message Net Routing ResourceTransfer PathTable PeerTable DiscoveryFlows Relaying
begin

text \<open>
  A verification library for SyncSwarm, a peer-to-peer transfer engine written in Go.

  \<^bold>\<open>The program.\<close> A node finds peers (\<^verbatim>\<open>internal/discovery\<close>, \<^verbatim>\<open>internal/dht\<close>), talks to them in signed packets
  (\<^verbatim>\<open>internal/protocol\<close>) over sockets and radios (\<^verbatim>\<open>internal/iface\<close>), and sends payloads
  (\<^verbatim>\<open>internal/transfer\<close>): a payload is cut and sealed (\<^verbatim>\<open>internal/fragment\<close>, \<^verbatim>\<open>internal/encryption\<close>), every piece
  travels directly, hop by hop, or in an onion over relays chosen by \<^verbatim>\<open>internal/routing\<close>, and the receiver
  puts the pieces together, delivers and acknowledges. Larger blobs travel over links as messages and
  resources (\<^verbatim>\<open>internal/link\<close>).

  \<^bold>\<open>Conventions.\<close> Bytes are 8-bit words and slices lists; fixed-width integers are words of their width,
  so they wrap as in Go, and \<^verbatim>\<open>int\<close> is the HOL integers or naturals. A Go map is an association list with
  distinct keys (\<open>gomap\<close>); the order of \<^verbatim>\<open>range\<close> is an argument that may be any permutation. Times are nanoseconds.
  An error is the left side of a sum, a missing value \<open>None\<close>. The clock, random numbers, SHA-256, Ed25519, X25519, AES-GCM,
  HKDF, ML-KEM, Reed-Solomon, JSON and name resolution are arguments; what is assumed of them are
  named predicates (\<open>signature_scheme\<close>, \<open>sealer_law\<close>, \<open>rs_law\<close>, \<open>crypto_law\<close>), each shown satisfiable on a concrete function.
  Operations under a mutex are single steps. What the code writes to a connection or hands to a callback
  or a goroutine is a list of frames or events in the order it is started.

  \<^bold>\<open>Theories.\<close>

  \<^item> \<open>Prelude\<close>: bytes, encodings of integers, maps, sorting and selection, and the lemmas about them. Its locale
    \<open>comparison\<close> is interpreted for the orders of peers, contacts, paths and partial messages, \<open>sized_table\<close> for
    the maps.
  \<^item> \<open>Net\<close>: the parsing of addresses the sources use from package \<^verbatim>\<open>net\<close>, and the subnet keys of \<^verbatim>\<open>routing.go\<close>.
  \<^item> \<open>Packet\<close> (\<^verbatim>\<open>protocol/packet.go\<close>): the packet, its binary form, framing, canonical bytes and signatures. Encoding and
    decoding are inverse, a cut or oversized frame is reported, and the signed bytes determine all but three fields.
  \<^item> \<open>Announce\<close> (\<^verbatim>\<open>protocol/announce.go\<close>): the signed announce; its bytes are unambiguous and bound to the key.
  \<^item> \<open>Fragment\<close> (\<^verbatim>\<open>fragment/fragment.go\<close>, \<^verbatim>\<open>rs.go\<close>): chunking, sealing and erasure coding; the two reassemblers share a locale.
    Fragments in any order rebuild the data, and nothing else can be assembled.
  \<^item> \<open>Kiss\<close> (\<^verbatim>\<open>iface/kiss.go\<close>, \<^verbatim>\<open>duty.go\<close>): the framing of the radio and its duty-cycle limiter.
  \<^item> \<open>Dht\<close> (\<^verbatim>\<open>dht/dht.go\<close>): identifiers, buckets and the iterative lookup, which is bounded against any peers.
  \<^item> \<open>Routing\<close> (\<^verbatim>\<open>routing/routing.go\<close>): relay order, diverse and tiered paths, adaptive length, spreading.
  \<^item> \<open>Message\<close> (\<^verbatim>\<open>link/message.go\<close>): chunked messages and their bounded reassembly.
  \<^item> \<open>Resource\<close> and \<open>ResourceTransfer\<close> (\<^verbatim>\<open>link/resource.go\<close>): the windowed transfer; both ends over a link that loses, repeats and
    reorders frames are a step relation, with safety in every run and completion after enough loss-free ticks.
  \<^item> \<open>PathTable\<close> (\<^verbatim>\<open>discovery/announce.go\<close>): the path table and the flood filter.
  \<^item> \<open>PeerTable\<close> (\<^verbatim>\<open>discovery/discovery.go\<close>, \<^verbatim>\<open>dht.go\<close>, \<^verbatim>\<open>peercache.go\<close>): admission, gossip, latency verdicts, the peer cache.
  \<^item> \<open>Discovery\<close>, \<open>DiscoveryLoop\<close>: the state and every handler of the discovery service. \<open>DiscoverySafety\<close>: its invariant under any
    frames, and that liveness, capabilities and relays are first-hand. \<open>DiscoveryFlows\<close>: routed packets in a swarm, flooded announces, reachability rounds.
  \<^item> \<open>Encryption\<close> (\<^verbatim>\<open>encryption/encryption.go\<close>): the three sealers, the KEM and onions. The locale \<open>sealing\<close> is the contract between the
    sealing and the opening half; it is interpreted for the shared key, the recipient's key and the
    post-quantum hybrid.
  \<^item> \<open>Pieces\<close> (\<^verbatim>\<open>transfer/transfer.go\<close>, \<^verbatim>\<open>streaming.go\<close>): schemes, sub-chunks, and the invariant of the buffers that put them together.
  \<^item> \<open>Streaming\<close> (\<^verbatim>\<open>transfer/streaming.go\<close>): block-wise sending and the assembler, whose output is a prefix of the stream in every
    run and the whole stream once every block can be rebuilt.
  \<^item> \<open>Delivery\<close> (\<^verbatim>\<open>transfer/transfer.go\<close>, \<^verbatim>\<open>anonymity.go\<close>, \<^verbatim>\<open>streaming.go\<close>, \<^verbatim>\<open>reputation.go\<close>): the receiving side of the transfer service. Its record
    \<open>transferSvc\<close> holds the tables of \<^verbatim>\<open>Transfer\<close>; \<open>handleConnection\<close>, \<open>handleRelayBlob\<close> and \<open>ingestRoutedFragment\<close> are the three ways in.
    A payload built by \<open>buildFragments\<close> is handed over exactly when enough of it is there; and again when all of it comes again.
  \<^item> \<open>Forwarding\<close> (\<^verbatim>\<open>transfer/reservation.go\<close>, \<^verbatim>\<open>transfer.go\<close>, \<^verbatim>\<open>storeforward.go\<close>): how a blob gets to the next hop. A \<open>host\<close> is a node with
    its address, signing key, held connections and store; \<open>forwardToNextHop\<close> and \<open>sendRelayHop\<close> choose between a held connection, a dialled
    one and a link; \<open>travel\<close> follows a blob through a network of hosts by the identifiers and addresses in its layers.
  \<^item> \<open>Relaying\<close>: what these operations promise together: onions through a network into the delivery, the evidence behind
    an acknowledgement, the bound on late acknowledgements, padding, and which packet panics which node.

  \<^bold>\<open>Bounds and fuel.\<close> All functions are total. Loops over lists are structural; \<open>Split_loop\<close>, \<open>stream_loop\<close>, \<open>flushReady\<close> and
  \<open>evict_late\<close> have a decreasing measure (the data left, the blocks held, the entries held), so none needs fuel. \<open>stream_loop\<close> and
  \<open>evict_late\<close> have a guard each that the code lacks and that never fires: the block size is positive, and deleting a key that was
  found makes the map smaller. The lookup of \<open>Dht\<close> runs as many rounds as the code allows.
  \<open>travel\<close> has fuel, one unit for each node that takes a blob in; the number of hops of an onion is enough, and C11 shows that
  with it the result is there. Lengths are assumed below
  \<open>2 ^ 32\<close> where the wire format has 32 bits for them; beyond that the length fields wrap, in the model as in the code.

  \<^bold>\<open>Not modelled.\<close>

  \<^item> Sockets, devices and files: the UDP, TCP and multicast transports, serial ports, the connection pool and its
    deadlines, chunk storage, the identity file. They are calls of the operating system with retry loops around them.
  \<^item> The sending loops of the transfer service (\<^verbatim>\<open>SendDataTracked\<close>, \<^verbatim>\<open>sendToNode\<close>, \<^verbatim>\<open>sendForwarded\<close>, \<^verbatim>\<open>sendRouted\<close>, \<^verbatim>\<open>SendStream\<close> and the
    acknowledgement senders): their content is the functions modelled here, called with dialling, waiting and goroutines in between.
  \<^item> Link sessions (\<^verbatim>\<open>link/link.go\<close>, \<^verbatim>\<open>router.go\<close>), relay reputation apart from the probe registrations, the loops that open circuit
    reservations and that deliver held blobs again, reply blocks and cover traffic.
  \<^item> Loops of the discovery service that only wait on tickers and channels, and the constructors and setters of both services.
  \<^item> Counters, hop traces and logging, which no decision reads; the public API, the commands and examples, which wire
    the parts together; and the unused update prototype.
  \<^item> Races between goroutines beyond what the mutexes leave open: two fragments of a transfer handled at the same
    time are modelled in one order or the other.
\<close>

end
